theory Spec2Isabelle
  imports Complex_Main "HOL-Library.Word"
begin

unbundle bit_operations_syntax

section \<open>Errors shared by the embedded components\<close>

text \<open>
  A failed \<open>BOOST_ASSERT\<close>, a C++ operation with undefined behaviour, a thrown
  \<open>ParseError\<close>, an exception of the JSON library (\<open>RuntimeError\<close>) and a move onto
  an occupied site (\<open>InvalidMove\<close>) are results of the model, never hidden behind an
  unspecified value.
\<close>

datatype error = AssertionFailed | UndefinedBehaviour | ParseError string | RuntimeError | InvalidMove

section \<open>Running and binned estimators (RunningEstimate.hpp, BinnedEstimate.hpp)\<close>

text \<open>
  A boost accumulator set with the statistics sum and count (the mean is their quotient and
  is not stored here). The count is a \<open>std::size_t\<close>; the estimator hands it out as an
  \<open>unsigned int\<close>, which is where it is cut to 32 bits.
\<close>

record 'a accumulator =
  acc_sum :: 'a
  acc_count :: nat

definition accumulator_init :: "'a::zero accumulator" where
  "accumulator_init = \<lparr>acc_sum = 0, acc_count = 0\<rparr>"

definition accumulate :: "'a::plus \<Rightarrow> 'a accumulator \<Rightarrow> 'a accumulator" where
  "accumulate v a = \<lparr>acc_sum = acc_sum a + v, acc_count = Suc (acc_count a)\<rparr>"

record 'a BinnedSum =
  current_sum :: 'a
  cumulative_sum :: 'a
  cumulative_sum_squared :: 'a

text \<open>The constructor \<open>BinnedSum (T current_sum_)\<close>.\<close>

definition BinnedSum_init :: "'a::zero \<Rightarrow> 'a BinnedSum" where
  "BinnedSum_init c = \<lparr>current_sum = c, cumulative_sum = 0, cumulative_sum_squared = 0\<rparr>"

text \<open>
  \<open>BinnedEstimate\<close> derives from \<open>RunningEstimate\<close>: the two accumulators of the base
  class and the vector of bin levels.
\<close>

record 'a BinnedEstimate =
  m_recent_acc :: "'a accumulator"
  m_cumulative_acc :: "'a accumulator"
  binlevel_data :: "'a BinnedSum list"

definition BinnedEstimate_init :: "'a::zero BinnedEstimate" where
  "BinnedEstimate_init =
     \<lparr>m_recent_acc = accumulator_init, m_cumulative_acc = accumulator_init, binlevel_data = []\<rparr>"

text \<open>\<open>RunningEstimate::add_value\<close>: both accumulators take the value.\<close>

definition running_add_value :: "'a::plus \<Rightarrow> 'a BinnedEstimate \<Rightarrow> 'a BinnedEstimate" where
  "running_add_value v e =
     e\<lparr>m_recent_acc := accumulate v (m_recent_acc e),
       m_cumulative_acc := accumulate v (m_cumulative_acc e)\<rparr>"

text \<open>
  \<open>BinnedEstimate::add_value\<close> reads the base class through \<open>get_num_values\<close> and
  \<open>get_total_value\<close>; \<open>RunningEstimate\<close> provides these for the cumulative accumulator
  as \<open>get_num_cumulative_values\<close> (an \<open>unsigned int\<close>) and
  \<open>get_cumulative_total_value\<close>.
\<close>

definition get_num_values :: "'a BinnedEstimate \<Rightarrow> 32 word" where
  "get_num_values e = word_of_nat (acc_count (m_cumulative_acc e))"

definition get_total_value :: "'a BinnedEstimate \<Rightarrow> 'a" where
  "get_total_value e = acc_sum (m_cumulative_acc e)"

text \<open>\<open>!(x & (x + 1))\<close> on \<open>unsigned int\<close>.\<close>

definition is_just_below_a_power_of_two :: "32 word \<Rightarrow> bool" where
  "is_just_below_a_power_of_two x = (x AND (x + 1) = 0)"

text \<open>
  \<open>1 << n\<close> on \<open>int\<close>: defined only while the result fits, that is for \<open>n < 31\<close>. In
  the comparisons and the mask of \<open>add_value\<close> the other operand is an \<open>unsigned int\<close>, so
  the value is used as an unsigned 32-bit word.
\<close>

definition shl_one :: "nat \<Rightarrow> error + 32 word" where
  "shl_one n = (if n < 31 then Inr (push_bit n 1) else Inl UndefinedBehaviour)"

text \<open>The first loop: every bin level adds the value to its current sum.\<close>

definition add_to_current :: "'a::plus \<Rightarrow> 'a BinnedSum \<Rightarrow> 'a BinnedSum" where
  "add_to_current v b = b\<lparr>current_sum := current_sum b + v\<rparr>"

text \<open>The body of the second loop at one level: fold the current sum in and clear it.\<close>

definition fold_bin :: "'a::{zero,plus,times} BinnedSum \<Rightarrow> 'a BinnedSum" where
  "fold_bin b =
     \<lparr>current_sum = 0,
      cumulative_sum = cumulative_sum b + current_sum b,
      cumulative_sum_squared = cumulative_sum_squared b + current_sum b * current_sum b\<rparr>"

text \<open>
  The second loop, \<open>for (i = 0; ; ++i)\<close>: it asserts \<open>i < binlevel_data.size()\<close>, folds
  level \<open>i\<close> and leaves at the first \<open>i\<close> whose bit is set in the number of values.
\<close>

function binning_loop ::
  "32 word \<Rightarrow> nat \<Rightarrow> 'a::{zero,plus,times} BinnedSum list \<Rightarrow> error + 'a BinnedSum list" where
  "binning_loop n i bs =
     (if i < length bs then
        (let bs' = bs[i := fold_bin (bs ! i)] in
         case shl_one i of
           Inl e \<Rightarrow> Inl e
         | Inr m \<Rightarrow> if n AND m \<noteq> 0 then Inr bs' else binning_loop n (Suc i) bs')
      else Inl AssertionFailed)"
  by pat_completeness auto
termination
  by (relation "measure (\<lambda>(n, i, bs). length bs - i)") auto

definition add_value :: "'a::{zero,plus,times} \<Rightarrow> 'a BinnedEstimate \<Rightarrow> error + 'a BinnedEstimate" where
  "add_value v e =
     (let e1 = (if is_just_below_a_power_of_two (get_num_values e)
                then e\<lparr>binlevel_data := binlevel_data e @ [BinnedSum_init (get_total_value e)]\<rparr>
                else e);
          e2 = running_add_value v e1;
          sz = length (binlevel_data e2)
      in case shl_one sz of
           Inl err \<Rightarrow> Inl err
         | Inr hi \<Rightarrow>
             if \<not> (hi > get_num_values e2) then Inl AssertionFailed
             else if sz = 0 then Inl UndefinedBehaviour
             else (case shl_one (sz - 1) of
                     Inl err \<Rightarrow> Inl err
                   | Inr lo \<Rightarrow>
                       if \<not> (lo \<le> get_num_values e2) then Inl AssertionFailed
                       else (case binning_loop (get_num_values e2) 0
                                    (map (add_to_current v) (binlevel_data e2)) of
                               Inl err \<Rightarrow> Inl err
                             | Inr bs \<Rightarrow> Inr (e2\<lparr>binlevel_data := bs\<rparr>))))"

text \<open>Adding a sequence of values, one call of \<open>add_value\<close> each, stopping at a failure.\<close>

fun add_values :: "'a::{zero,plus,times} list \<Rightarrow> 'a BinnedEstimate \<Rightarrow> error + 'a BinnedEstimate" where
  "add_values [] e = Inr e"
| "add_values (v # vs) e = (case add_value v e of Inl err \<Rightarrow> Inl err | Inr e' \<Rightarrow> add_values vs e')"

text \<open>
  Vocabulary for the properties of the estimator: the number of values added so far as a
  natural number, powers of two, and the relation between the number of values and the
  number of bin levels that the two assertions of \<open>add_value\<close> express.
\<close>

definition num_values :: "'a BinnedEstimate \<Rightarrow> nat" where
  "num_values e = acc_count (m_cumulative_acc e)"

definition is_power_of_two :: "nat \<Rightarrow> bool" where
  "is_power_of_two k = (\<exists>m. k = 2 ^ m)"

definition binned_inv :: "'a BinnedEstimate \<Rightarrow> bool" where
  "binned_inv e =
     (let n = num_values e; l = length (binlevel_data e)
      in (n = 0 \<and> l = 0) \<or> (0 < l \<and> 2 ^ (l - 1) \<le> n \<and> n < 2 ^ l))"

section \<open>Boundary conditions (BoundaryCondition.hpp)\<close>

text \<open>
  \<open>phase_t\<close> is a \<open>std::complex\<close> of a floating-point type. The model follows a value
  only as far as floating-point arithmetic determines it without rounding:
  \<^item> \<open>Finite z\<close> says that the value is the number \<open>z\<close> (up to the sign of a zero).
    The operations yield it only from the five numbers 0, 1, -1, i and -i, whose products
    and quotients floating-point arithmetic computes exactly;
  \<^item> \<open>NonFinite\<close> says that the value has an infinite or NaN part, as a division by zero
    yields; a product with such a value, and its quotient by any value, is one again;
  \<^item> \<open>Rounded\<close> says nothing about the value: it stands for every result that depends on
    rounding.
\<close>

datatype phase_t = Finite complex | Rounded | NonFinite

definition exactly_representable :: "complex \<Rightarrow> bool" where
  "exactly_representable z = (z = 0 \<or> z = 1 \<or> z = - 1 \<or> z = \<i> \<or> z = - \<i>)"

fun phase_times :: "phase_t \<Rightarrow> phase_t \<Rightarrow> phase_t" where
  "phase_times NonFinite q = NonFinite"
| "phase_times (Finite a) NonFinite = NonFinite"
| "phase_times Rounded NonFinite = NonFinite"
| "phase_times (Finite a) (Finite b) =
     (if exactly_representable a \<and> exactly_representable b then Finite (a * b) else Rounded)"
| "phase_times (Finite a) Rounded = Rounded"
| "phase_times Rounded (Finite b) = Rounded"
| "phase_times Rounded Rounded = Rounded"

fun phase_divide :: "phase_t \<Rightarrow> phase_t \<Rightarrow> phase_t" where
  "phase_divide NonFinite q = NonFinite"
| "phase_divide (Finite a) (Finite b) =
     (if b = 0 then NonFinite
      else if exactly_representable a \<and> exactly_representable b then Finite (a / b)
      else Rounded)"
| "phase_divide (Finite a) Rounded = Rounded"
| "phase_divide (Finite a) NonFinite = Rounded"
| "phase_divide Rounded q = Rounded"

text \<open>
  \<open>m_p\<close> is a \<open>boost::rational<int>\<close>; the default constructor marks an uninitialized
  object by \<open>m_p = -1\<close>.
\<close>

record BoundaryCondition =
  m_p :: rat
  m_phase :: phase_t

text \<open>
  \<open>calculate_phase\<close> returns the five exact values for \<open>p\<close> = 0, 1, 1/2, 1/4 and 3/4
  and falls back on \<open>std::exp\<close> for every other \<open>p\<close>, a rounded value.
\<close>

definition calculate_phase :: "rat \<Rightarrow> phase_t" where
  "calculate_phase p =
     (if p = 0 then Finite 0
      else if p = 1 then Finite 1
      else if p = 1 / 2 then Finite (- 1)
      else if p = 1 / 4 then Finite \<i>
      else if p = 3 / 4 then Finite (- \<i>)
      else Rounded)"

text \<open>The constructor from a rational; its assertion is \<open>p_ >= 0 && p_ <= 1\<close>.\<close>

definition BoundaryCondition_of :: "rat \<Rightarrow> error + BoundaryCondition" where
  "BoundaryCondition_of p =
     (if 0 \<le> p \<and> p \<le> 1 then Inr \<lparr>m_p = p, m_phase = calculate_phase p\<rparr>
      else Inl AssertionFailed)"

definition BoundaryCondition_default :: BoundaryCondition where
  "BoundaryCondition_default = \<lparr>m_p = - 1, m_phase = Finite 0\<rparr>"


definition bc_p :: "BoundaryCondition \<Rightarrow> error + rat" where
  "bc_p bc = (if m_p bc \<noteq> - 1 then Inr (m_p bc) else Inl AssertionFailed)"

definition bc_phase :: "BoundaryCondition \<Rightarrow> error + phase_t" where
  "bc_phase bc = (if m_p bc \<noteq> - 1 then Inr (m_phase bc) else Inl AssertionFailed)"


definition periodic_bc :: BoundaryCondition where
  "periodic_bc = \<lparr>m_p = 1, m_phase = calculate_phase 1\<rparr>"

definition antiperiodic_bc :: BoundaryCondition where
  "antiperiodic_bc = \<lparr>m_p = 1 / 2, m_phase = calculate_phase (1 / 2)\<rparr>"

section \<open>The driver's input validation (main.cpp)\<close>

text \<open>
  The JSON values of the jsoncpp library, as far as the driver inspects them. An object is
  its list of members; the library is outside the repository, and the model gives its
  accessors the behaviour the driver relies on: \<open>isMember\<close> and \<open>operator[]\<close> look a
  key up (a missing member reads as null), \<open>isIntegral\<close> holds of integers and booleans,
  \<open>asInt\<close> and \<open>asUInt\<close> convert an integer that fits and throw otherwise.
\<close>

datatype json =
    JNull
  | JBool bool
  | JInt int
  | JReal real
  | JString string
  | JArray "json list"
  | JObject "(string \<times> json) list"

fun isObject :: "json \<Rightarrow> bool" where
  "isObject (JObject ms) = True"
| "isObject _ = False"

fun isArray :: "json \<Rightarrow> bool" where
  "isArray (JArray xs) = True"
| "isArray _ = False"

fun isString :: "json \<Rightarrow> bool" where
  "isString (JString s) = True"
| "isString _ = False"

fun isIntegral :: "json \<Rightarrow> bool" where
  "isIntegral (JInt i) = True"
| "isIntegral (JBool b) = True"
| "isIntegral _ = False"

fun members :: "json \<Rightarrow> (string \<times> json) list" where
  "members (JObject ms) = ms"
| "members _ = []"

fun elements :: "json \<Rightarrow> json list" where
  "elements (JArray xs) = xs"
| "elements _ = []"

definition isMember :: "json \<Rightarrow> string \<Rightarrow> bool" where
  "isMember v k = (map_of (members v) k \<noteq> None)"

definition member :: "json \<Rightarrow> string \<Rightarrow> json" where
  "member v k = (case map_of (members v) k of None \<Rightarrow> JNull | Some x \<Rightarrow> x)"

definition element :: "json \<Rightarrow> nat \<Rightarrow> json" where
  "element v i = (if i < length (elements v) then elements v ! i else JNull)"

fun asInt :: "json \<Rightarrow> error + int" where
  "asInt (JInt i) = (if - (2 ^ 31) \<le> i \<and> i < 2 ^ 31 then Inr i else Inl RuntimeError)"
| "asInt (JBool b) = Inr (if b then 1 else 0)"
| "asInt JNull = Inr 0"
| "asInt _ = Inl RuntimeError"

fun asUInt :: "json \<Rightarrow> error + nat" where
  "asUInt (JInt i) = (if 0 \<le> i \<and> i < 2 ^ 32 then Inr (nat i) else Inl RuntimeError)"
| "asUInt (JBool b) = Inr (if b then 1 else 0)"
| "asUInt JNull = Inr 0"
| "asUInt _ = Inl RuntimeError"

text \<open>
  Sequencing of steps that can fail: the first failure is the result, as with a thrown
  exception that nothing in between catches.
\<close>

definition and_then :: "error + 'a \<Rightarrow> ('a \<Rightarrow> error + 'b) \<Rightarrow> error + 'b" where
  "and_then r f = (case r of Inl e \<Rightarrow> Inl e | Inr x \<Rightarrow> f x)"

definition ensure_object :: "json \<Rightarrow> error + unit" where
  "ensure_object v = (if \<not> isObject v then Inl (ParseError ''object expected'') else Inr ())"

definition ensure_array :: "json \<Rightarrow> error + unit" where
  "ensure_array v = (if \<not> isArray v then Inl (ParseError ''array expected'') else Inr ())"

definition ensure_array_length :: "json \<Rightarrow> nat \<Rightarrow> error + unit" where
  "ensure_array_length v array_length =
     (if \<not> isArray v then Inl (ParseError ''array expected'')
      else if length (elements v) \<noteq> array_length
        then Inl (ParseError ''array is not the correct size'')
      else Inr ())"

definition ensure_string :: "json \<Rightarrow> error + unit" where
  "ensure_string v = (if \<not> isString v then Inl (ParseError ''string expected'') else Inr ())"

text \<open>
  The key tables are arrays \<open>const char * const keys[]\<close> that end with a \<open>NULL\<close> entry.
  The model holds the entries before the terminator; a pointer into such an array is the
  index of its entry, the index \<open>length keys\<close> being the terminator's.
\<close>

fun ensure_required_loop :: "json \<Rightarrow> string list \<Rightarrow> error + unit" where
  "ensure_required_loop v [] = Inr ()"
| "ensure_required_loop v (k # ks) =
     (if \<not> isMember v k then Inl (ParseError ''required keys not all given'')
      else ensure_required_loop v ks)"

definition ensure_required :: "json \<Rightarrow> string list \<Rightarrow> error + unit" where
  "ensure_required v keys =
     (if \<not> isObject v then Inl AssertionFailed else ensure_required_loop v keys)"

text \<open>
  \<open>ensure_only\<close> walks the members of the object; for each it runs
  \<open>for (; *key != NULL; ++key) if (strcmp (i.memberName (), *key) == 0) break;\<close>
  and then tests \<open>key == NULL\<close>: the pointer \<open>key\<close> itself, which points into the array
  (at the matching entry or at the terminator), is compared with the null pointer.
\<close>

datatype key_ptr = NullPtr | KeyPtr nat

fun scan_keys :: "string \<Rightarrow> string list \<Rightarrow> nat \<Rightarrow> key_ptr" where
  "scan_keys name [] j = KeyPtr j"
| "scan_keys name (k # ks) j = (if name = k then KeyPtr j else scan_keys name ks (Suc j))"

fun ensure_only_loop :: "(string \<times> json) list \<Rightarrow> string list \<Rightarrow> error + unit" where
  "ensure_only_loop [] keys = Inr ()"
| "ensure_only_loop (m # ms) keys =
     (let key = scan_keys (fst m) keys 0
      in if key = NullPtr then Inl (ParseError ''too many keys provided'')
         else ensure_only_loop ms keys)"

definition ensure_only :: "json \<Rightarrow> string list \<Rightarrow> error + unit" where
  "ensure_only v keys =
     (if \<not> isObject v then Inl AssertionFailed else ensure_only_loop (members v) keys)"

text \<open>
  The boundary-condition part of \<open>parse_json_orbitals\<close>. The entry is checked to be a
  positive integer; then \<open>BoundaryCondition (json_bcs[i].asUInt ())\<close> converts the integer
  \<open>n\<close> to the rational \<open>n / 1\<close> and constructs the boundary condition from it.
\<close>

definition parse_boundary_condition :: "json \<Rightarrow> error + BoundaryCondition" where
  "parse_boundary_condition v =
     (if \<not> isIntegral v then Inl (ParseError ''invalid boundary condition specifier'')
      else and_then (asInt v) (\<lambda>i.
        if \<not> (i > 0) then Inl (ParseError ''invalid boundary condition specifier'')
        else and_then (asUInt v) (\<lambda>n. BoundaryCondition_of (of_nat n))))"

fun parse_boundary_conditions :: "json list \<Rightarrow> error + BoundaryCondition list" where
  "parse_boundary_conditions [] = Inr []"
| "parse_boundary_conditions (v # vs) =
     and_then (parse_boundary_condition v) (\<lambda>bc.
       and_then (parse_boundary_conditions vs) (\<lambda>bcs. Inr (bc # bcs)))"

text \<open>One momentum index of the filling, against the lattice length of its axis.\<close>

definition parse_momentum_index :: "json \<Rightarrow> int \<Rightarrow> error + int" where
  "parse_momentum_index v len =
     (if \<not> isIntegral v then Inl (ParseError ''invalid momentum index'')
      else and_then (asInt v) (\<lambda>i.
        if \<not> (i \<ge> 0 \<and> i < len) then Inl (ParseError ''invalid momentum index'')
        else Inr i))"

fun parse_momentum :: "json list \<Rightarrow> int list \<Rightarrow> error + int list" where
  "parse_momentum (v # vs) (len # lens) =
     and_then (parse_momentum_index v len) (\<lambda>i.
       and_then (parse_momentum vs lens) (\<lambda>is. Inr (i # is)))"
| "parse_momentum _ _ = Inr []"

fun parse_filling :: "json list \<Rightarrow> nat \<Rightarrow> int list \<Rightarrow> error + int list list" where
  "parse_filling [] ndim lens = Inr []"
| "parse_filling (v # vs) ndim lens =
     and_then (ensure_array_length v ndim) (\<lambda>_.
       and_then (parse_momentum (elements v) lens) (\<lambda>k.
         and_then (parse_filling vs ndim lens) (\<lambda>ks. Inr (k # ks))))"

record orbitals_input =
  boundary_conditions :: "BoundaryCondition list"
  filled_momenta :: "int list list"

definition parse_json_orbitals :: "json \<Rightarrow> nat \<Rightarrow> int list \<Rightarrow> error + orbitals_input" where
  "parse_json_orbitals json_orbitals ndim lens =
     and_then (ensure_required json_orbitals [''filling'', ''boundary-conditions'']) (\<lambda>_.
     and_then (ensure_only json_orbitals [''filling'', ''boundary-conditions'']) (\<lambda>_.
     let json_bcs = member json_orbitals ''boundary-conditions'' in
     and_then (ensure_array_length json_bcs ndim) (\<lambda>_.
     and_then (parse_boundary_conditions (elements json_bcs)) (\<lambda>bcs.
     let json_filling = member json_orbitals ''filling'' in
     and_then (ensure_array json_filling) (\<lambda>_.
     and_then (parse_filling (elements json_filling) ndim lens) (\<lambda>fm.
     Inr \<lparr>boundary_conditions = bcs, filled_momenta = fm\<rparr>))))))"

text \<open>
  What the driver has read when validation is over and the simulation itself starts: the
  seed, the lattice size and the orbitals.
\<close>

record simulation_input =
  seed :: nat
  lattice_size :: "int list"
  orbitals :: orbitals_input

fun check_lattice_size :: "json list \<Rightarrow> error + int list" where
  "check_lattice_size [] = Inr []"
| "check_lattice_size (v # vs) =
     (if \<not> isIntegral v
      then Inl (ParseError ''lattice dimensions must be positive integers'')
      else and_then (asInt v) (\<lambda>i.
        if \<not> (i > 0) then Inl (ParseError ''lattice dimensions must be positive integers'')
        else and_then (check_lattice_size vs) (\<lambda>is. Inr (i # is))))"

text \<open>The validating part of \<open>do_simulation<DIM>\<close>, up to the construction of the walk.\<close>

definition do_simulation_input :: "nat \<Rightarrow> json \<Rightarrow> nat \<Rightarrow> int list \<Rightarrow> error + simulation_input" where
  "do_simulation_input ndim json_input sd lens =
     (let json_wavefunction = member (member json_input ''system'') ''wavefunction'' in
      and_then (ensure_object json_wavefunction) (\<lambda>_.
      and_then (ensure_required json_wavefunction [''type'']) (\<lambda>_.
      and_then (ensure_string (member json_wavefunction ''type'')) (\<lambda>_.
      if member json_wavefunction ''type'' = JString ''free-fermion'' then
        and_then (ensure_required json_wavefunction [''type'', ''orbitals'']) (\<lambda>_.
        and_then (ensure_only json_wavefunction [''type'', ''orbitals'']) (\<lambda>_.
        and_then (parse_json_orbitals (member json_wavefunction ''orbitals'') ndim lens) (\<lambda>orb.
        Inr \<lparr>seed = sd, lattice_size = lens, orbitals = orb\<rparr>)))
      else Inl (ParseError ''invalid wavefunction type'')))))"

text \<open>The body of the \<open>try\<close> block of \<open>main\<close>.\<close>

definition main_input :: "json \<Rightarrow> error + simulation_input" where
  "main_input json_input =
     and_then (ensure_object json_input) (\<lambda>_.
     and_then (ensure_required json_input [''rng'', ''system'']) (\<lambda>_.
     and_then (ensure_only json_input [''rng'', ''system'']) (\<lambda>_.
     let json_rng = member json_input ''rng'' in
     and_then (ensure_object json_rng) (\<lambda>_.
     and_then (ensure_only json_rng [''seed'']) (\<lambda>_.
     and_then (if isMember json_rng ''seed''
               then (if \<not> isIntegral (member json_rng ''seed'')
                     then Inl (ParseError ''seed must be correct data type'')
                     else asUInt (member json_rng ''seed''))
               else Inl (ParseError ''seed must be given'')) (\<lambda>sd.
     let json_system = member json_input ''system'' in
     and_then (ensure_object json_system) (\<lambda>_.
     and_then (ensure_required json_system [''lattice'', ''wavefunction'']) (\<lambda>_.
     and_then (ensure_only json_system [''lattice'', ''wavefunction'']) (\<lambda>_.
     let json_lattice = member json_system ''lattice'' in
     and_then (ensure_object json_lattice) (\<lambda>_.
     and_then (ensure_required json_lattice [''size'']) (\<lambda>_.
     and_then (ensure_only json_lattice [''size'']) (\<lambda>_.
     let json_lattice_size = member json_lattice ''size'' in
     and_then (ensure_array json_lattice_size) (\<lambda>_.
     and_then (check_lattice_size (elements json_lattice_size)) (\<lambda>lens.
     let ndimensions = length (elements json_lattice_size) in
     if ndimensions = 1 then do_simulation_input 1 json_input sd lens
     else if ndimensions = 2 then do_simulation_input 2 json_input sd lens
     else Inl (ParseError
       ''lattice given has a number of dimensions that is not supported by this build'')
     ))))))))))))))"

text \<open>
  What \<open>main\<close> does with the outcome: a \<open>ParseError\<close> is caught, its message is printed
  on one line of stderr and the exit code is 1; any other failure leaves \<open>main\<close> uncaught
  and aborts the program; otherwise the simulation runs on the validated input.
\<close>

datatype outcome = Exit1 string | Aborted error | Simulates simulation_input

definition main_outcome :: "json \<Rightarrow> outcome" where
  "main_outcome json_input =
     (case main_input json_input of
        Inl (ParseError msg) \<Rightarrow> Exit1 msg
      | Inl e \<Rightarrow> Aborted e
      | Inr inp \<Rightarrow> Simulates inp)"

text \<open>
  A driver input that is valid except for one more key, \<open>bogus\<close>, in the top-level
  object, whose keys the driver checks against \<open>rng\<close> and \<open>system\<close>.
\<close>

definition input_with_unrecognized_key :: json where
  "input_with_unrecognized_key =
     JObject
       [(''rng'', JObject [(''seed'', JInt 1)]),
        (''system'',
         JObject
           [(''lattice'', JObject [(''size'', JArray [JInt 4])]),
            (''wavefunction'',
             JObject
               [(''type'', JString ''free-fermion''),
                (''orbitals'',
                 JObject
                   [(''filling'', JArray [JArray [JInt 0]]),
                    (''boundary-conditions'', JArray [JInt 1])])])]),
        (''bogus'', JInt 0)]"

section \<open>The lattice (Lattice.hpp, NDLattice.hpp)\<close>

subsection \<open>Machine integers of the lattice code\<close>

text \<open>
  Site coordinates, lengths and offsets are \<open>int\<close>; site indices and the number of sites
  are \<open>unsigned int\<close>. Unsigned arithmetic wraps modulo \<open>2 ^ 32\<close>, a conversion between
  the two reinterprets the 32 bits, and a signed result outside the range of \<open>int\<close> is
  undefined behaviour.
\<close>

definition u32 :: "nat \<Rightarrow> nat" where
  "u32 n = n mod 2 ^ 32"

definition u32_of_int :: "int \<Rightarrow> nat" where
  "u32_of_int i = nat (i mod 2 ^ 32)"

definition int_of_u32 :: "nat \<Rightarrow> int" where
  "int_of_u32 n = (if n < 2 ^ 31 then int n else int n - 2 ^ 32)"

definition checked_int :: "int \<Rightarrow> error + int" where
  "checked_int i = (if - (2 ^ 31) \<le> i \<and> i < 2 ^ 31 then Inr i else Inl UndefinedBehaviour)"

text \<open>The remainder of C++ on \<open>int\<close>: the quotient is truncated towards zero.\<close>

definition c_rem :: "int \<Rightarrow> int \<Rightarrow> int" where
  "c_rem a b = sgn a * (\<bar>a\<bar> mod \<bar>b\<bar>)"

subsection \<open>Sites and move axes\<close>

record Site =
  site_bs :: "int list"
  basis_index :: int

record Move =
  bravais_site :: "int list"
  move_basis_index :: int

text \<open>
  An \<open>NDLattice<DIM>\<close>: the base class member \<open>m_total_sites\<close>, the lengths (one per
  dimension, so \<open>DIM\<close> is the length of this list), the number of basis indices, the
  offsets and the move axes.
\<close>

record NDLattice =
  m_total_sites :: nat
  length_d :: "int list"
  basis_indices :: int
  offset :: "int list"
  basis_offset :: int
  move_axes :: "Move list"


definition total_sites :: "NDLattice \<Rightarrow> nat" where
  "total_sites lat = m_total_sites lat"

fun count_total_sites_loop :: "nat \<Rightarrow> int list \<Rightarrow> error + nat" where
  "count_total_sites_loop rv [] = Inr rv"
| "count_total_sites_loop rv (l # ls) =
     (if \<not> (l > 0) then Inl AssertionFailed
      else count_total_sites_loop (u32 (rv * u32_of_int l)) ls)"

definition count_total_sites :: "int list \<Rightarrow> int \<Rightarrow> error + nat" where
  "count_total_sites len bi =
     and_then (count_total_sites_loop 1 len) (\<lambda>rv.
       if \<not> (bi > 0) then Inl AssertionFailed else Inr (u32 (rv * u32_of_int bi)))"

text \<open>The loop that sets up the offsets; it returns them with the final value of \<open>c\<close>.\<close>

fun offsets_loop :: "nat \<Rightarrow> int list \<Rightarrow> int list \<times> nat" where
  "offsets_loop c [] = ([], c)"
| "offsets_loop c (l # ls) =
     (case offsets_loop (u32 (c * u32_of_int l)) ls of (os, c') \<Rightarrow> (int_of_u32 c # os, c'))"

text \<open>The default move axis number \<open>i\<close> of \<open>n\<close>: one step along dimension \<open>i\<close>.\<close>

definition unit_move :: "nat \<Rightarrow> nat \<Rightarrow> Move" where
  "unit_move n i = \<lparr>bravais_site = (replicate n 0)[i := 1], move_basis_index = 0\<rparr>"

definition default_move_axes :: "nat \<Rightarrow> int \<Rightarrow> Move list" where
  "default_move_axes n bi =
     map (unit_move n) [0..<n]
     @ (if bi > 1 then [\<lparr>bravais_site = replicate n 0, move_basis_index = 1\<rparr>] else [])"

text \<open>The constructor \<open>NDLattice (length_, basis_indices_)\<close>.\<close>

definition NDLattice_init :: "int list \<Rightarrow> int \<Rightarrow> error + NDLattice" where
  "NDLattice_init len bi =
     and_then (count_total_sites len bi) (\<lambda>ts.
       case offsets_loop 1 len of (os, c) \<Rightarrow>
         Inr \<lparr>m_total_sites = ts, length_d = len, basis_indices = bi, offset = os,
              basis_offset = int_of_u32 c, move_axes = default_move_axes (length len) bi\<rparr>)"

fun coords_valid :: "int list \<Rightarrow> int list \<Rightarrow> bool" where
  "coords_valid (x # xs) (l # ls) = (if x \<ge> l \<or> x < 0 then False else coords_valid xs ls)"
| "coords_valid _ _ = True"

definition site_is_valid :: "NDLattice \<Rightarrow> Site \<Rightarrow> bool" where
  "site_is_valid lat site =
     (if \<not> coords_valid (site_bs site) (length_d lat) then False
      else if basis_index site \<ge> basis_indices lat \<or> basis_index site < 0 then False
      else True)"

text \<open>
  The loop of \<open>site_from_index\<close>: \<open>rv[i] = n % length[i]; n /= length[i]\<close> in unsigned
  arithmetic. It returns the coordinates with the final value of \<open>n\<close>.
\<close>

fun site_from_index_loop :: "nat \<Rightarrow> int list \<Rightarrow> error + int list \<times> nat" where
  "site_from_index_loop n [] = Inr ([], n)"
| "site_from_index_loop n (l # ls) =
     (if u32_of_int l = 0 then Inl UndefinedBehaviour
      else and_then (site_from_index_loop (n div u32_of_int l) ls) (\<lambda>(xs, n').
             Inr (int_of_u32 (n mod u32_of_int l) # xs, n')))"

definition site_from_index :: "NDLattice \<Rightarrow> nat \<Rightarrow> error + Site" where
  "site_from_index lat n =
     (if \<not> (n < total_sites lat) then Inl AssertionFailed
      else and_then (site_from_index_loop n (length_d lat)) (\<lambda>(xs, n').
        let rv = \<lparr>site_bs = xs, basis_index = int_of_u32 n'\<rparr>
        in if \<not> site_is_valid lat rv then Inl AssertionFailed else Inr rv))"

text \<open>The loop of \<open>site_to_index\<close>: \<open>n += site[i] * offset[i]\<close>.\<close>

fun site_to_index_loop :: "nat \<Rightarrow> int list \<Rightarrow> int list \<Rightarrow> error + nat" where
  "site_to_index_loop n (x # xs) (ofs # os) =
     and_then (checked_int (x * ofs)) (\<lambda>t. site_to_index_loop (u32 (n + u32_of_int t)) xs os)"
| "site_to_index_loop n _ _ = Inr n"

definition site_to_index :: "NDLattice \<Rightarrow> Site \<Rightarrow> error + nat" where
  "site_to_index lat site =
     (if \<not> site_is_valid lat site then Inl AssertionFailed
      else and_then (site_to_index_loop 0 (site_bs site) (offset lat)) (\<lambda>n1.
           and_then (checked_int (basis_index site * basis_offset lat)) (\<lambda>t.
           let n = u32 (n1 + u32_of_int t)
           in and_then (site_from_index lat n) (\<lambda>site'.
                if \<not> (site = site') then Inl AssertionFailed else Inr n))))"

subsection \<open>Boundary enforcement and moves\<close>

text \<open>
  The loops of \<open>enforce_boundary\<close> end only if the lengths are positive, so they are
  partial functions: \<open>None\<close> is a loop that never ends, \<open>Some (Inl e)\<close> a failure and
  \<open>Some (Inr x)\<close> a result.
\<close>

definition then_do :: "(error + 'a) option \<Rightarrow> ('a \<Rightarrow> (error + 'b) option) \<Rightarrow> (error + 'b) option" where
  "then_do r f = (case r of None \<Rightarrow> None | Some (Inl e) \<Rightarrow> Some (Inl e) | Some (Inr x) \<Rightarrow> f x)"

text \<open>
  The argument \<open>const BoundaryConditions *bcs = 0\<close> is an optional array of \<open>DIM\<close>
  boundary conditions. \<open>dim_phase\<close> is what \<open>(*bcs)[dim].phase ()\<close> yields each time a
  wrap asks for it: nothing without \<open>bcs\<close>, a failed assertion for an uninitialized entry.
\<close>

definition dim_phase :: "BoundaryCondition list option \<Rightarrow> nat \<Rightarrow> (error + phase_t) option" where
  "dim_phase bcs d =
     (case bcs of
        None \<Rightarrow> None
      | Some b \<Rightarrow> Some (if d < length b then bc_phase (b ! d) else Inl AssertionFailed))"

text \<open>\<open>while (site[dim] >= length[dim]) { site[dim] -= length[dim]; phase_change *= ... }\<close>\<close>

partial_function (option) wrap_upper ::
  "int \<Rightarrow> (error + phase_t) option \<Rightarrow> int \<Rightarrow> phase_t \<Rightarrow> (error + int \<times> phase_t) option" where
  "wrap_upper len ph x pc =
     (if x \<ge> len then
        (case ph of
           None \<Rightarrow> wrap_upper len ph (x - len) pc
         | Some (Inl e) \<Rightarrow> Some (Inl e)
         | Some (Inr p) \<Rightarrow> wrap_upper len ph (x - len) (phase_times pc p))
      else Some (Inr (x, pc)))"

declare wrap_upper.simps [code]

text \<open>\<open>while (site[dim] < 0) { site[dim] += length[dim]; phase_change /= ... }\<close>\<close>

partial_function (option) wrap_lower ::
  "int \<Rightarrow> (error + phase_t) option \<Rightarrow> int \<Rightarrow> phase_t \<Rightarrow> (error + int \<times> phase_t) option" where
  "wrap_lower len ph x pc =
     (if x < 0 then
        (case ph of
           None \<Rightarrow> wrap_lower len ph (x + len) pc
         | Some (Inl e) \<Rightarrow> Some (Inl e)
         | Some (Inr p) \<Rightarrow> wrap_lower len ph (x + len) (phase_divide pc p))
      else Some (Inr (x, pc)))"

declare wrap_lower.simps [code]

text \<open>\<open>while (site.basis_index < 0) site.basis_index += basis_indices;\<close>\<close>

partial_function (option) wrap_basis :: "int \<Rightarrow> int \<Rightarrow> int option" where
  "wrap_basis bi b = (if b < 0 then wrap_basis bi (b + bi) else Some b)"

declare wrap_basis.simps [code]

text \<open>The loop over the dimensions, from dimension \<open>d\<close> on.\<close>

fun enforce_dims ::
  "int list \<Rightarrow> BoundaryCondition list option \<Rightarrow> nat \<Rightarrow> int list \<Rightarrow> phase_t
   \<Rightarrow> (error + int list \<times> phase_t) option" where
  "enforce_dims (l # ls) bcs d (x # xs) pc =
     then_do (wrap_upper l (dim_phase bcs d) x pc) (\<lambda>(x1, pc1).
     then_do (wrap_lower l (dim_phase bcs d) x1 pc1) (\<lambda>(x2, pc2).
     then_do (enforce_dims ls bcs (Suc d) xs pc2) (\<lambda>(xs', pc').
     Some (Inr (x2 # xs', pc')))))"
| "enforce_dims _ bcs d _ pc = Some (Inr ([], pc))"

definition enforce_boundary ::
  "NDLattice \<Rightarrow> Site \<Rightarrow> BoundaryCondition list option \<Rightarrow> (error + Site \<times> phase_t) option" where
  "enforce_boundary lat site bcs =
     then_do (enforce_dims (length_d lat) bcs 0 (site_bs site) (Finite 1)) (\<lambda>(xs, phase_change).
       case wrap_basis (basis_indices lat) (basis_index site) of
         None \<Rightarrow> None
       | Some b \<Rightarrow>
           if basis_indices lat = 0 then Some (Inl UndefinedBehaviour)
           else
             (let site' = \<lparr>site_bs = xs, basis_index = c_rem b (basis_indices lat)\<rparr>
              in if \<not> site_is_valid lat site' then Some (Inl AssertionFailed)
                 else Some (Inr (site', phase_change))))"

text \<open>\<open>site[i] += other[i]\<close> and \<open>site[i] -= other[i]\<close> for every dimension.\<close>

fun add_vector :: "int list \<Rightarrow> int list \<Rightarrow> error + int list" where
  "add_vector (x # xs) (y # ys) =
     and_then (checked_int (x + y)) (\<lambda>z. and_then (add_vector xs ys) (\<lambda>zs. Inr (z # zs)))"
| "add_vector _ _ = Inr []"

fun subtract_vector :: "int list \<Rightarrow> int list \<Rightarrow> error + int list" where
  "subtract_vector (x # xs) (y # ys) =
     and_then (checked_int (x - y)) (\<lambda>z. and_then (subtract_vector xs ys) (\<lambda>zs. Inr (z # zs)))"
| "subtract_vector _ _ = Inr []"

definition asm_add_site_vector ::
  "NDLattice \<Rightarrow> Site \<Rightarrow> int list \<Rightarrow> BoundaryCondition list option
   \<Rightarrow> (error + Site \<times> phase_t) option" where
  "asm_add_site_vector lat site other bcs =
     (case add_vector (site_bs site) other of
        Inl e \<Rightarrow> Some (Inl e)
      | Inr xs \<Rightarrow> enforce_boundary lat (site\<lparr>site_bs := xs\<rparr>) bcs)"

definition asm_subtract_site_vector ::
  "NDLattice \<Rightarrow> Site \<Rightarrow> int list \<Rightarrow> BoundaryCondition list option
   \<Rightarrow> (error + Site \<times> phase_t) option" where
  "asm_subtract_site_vector lat site other bcs =
     (case subtract_vector (site_bs site) other of
        Inl e \<Rightarrow> Some (Inl e)
      | Inr xs \<Rightarrow> enforce_boundary lat (site\<lparr>site_bs := xs\<rparr>) bcs)"

definition move_axes_count :: "NDLattice \<Rightarrow> nat" where
  "move_axes_count lat = length (move_axes lat)"

text \<open>\<open>site[i] += step_direction * m.bravais_site[i]\<close> for every dimension.\<close>

fun step_vector :: "int \<Rightarrow> int list \<Rightarrow> int list \<Rightarrow> error + int list" where
  "step_vector dir (x # xs) (y # ys) =
     and_then (checked_int (dir * y)) (\<lambda>t.
     and_then (checked_int (x + t)) (\<lambda>z.
     and_then (step_vector dir xs ys) (\<lambda>zs. Inr (z # zs))))"
| "step_vector dir _ _ = Inr []"

definition move_site :: "NDLattice \<Rightarrow> Site \<Rightarrow> nat \<Rightarrow> int \<Rightarrow> (error + Site) option" where
  "move_site lat site move_axis step_direction =
     (if \<not> (move_axis < length (move_axes lat)) then Some (Inl AssertionFailed)
      else if \<not> (step_direction = - 1 \<or> step_direction = 1) then Some (Inl AssertionFailed)
      else
        (let m = move_axes lat ! move_axis in
         case step_vector step_direction (site_bs site) (bravais_site m) of
           Inl e \<Rightarrow> Some (Inl e)
         | Inr xs \<Rightarrow>
             (case and_then (checked_int (step_direction * move_basis_index m))
                     (\<lambda>t. checked_int (basis_index site + t)) of
                Inl e \<Rightarrow> Some (Inl e)
              | Inr b \<Rightarrow>
                  then_do (enforce_boundary lat \<lparr>site_bs = xs, basis_index = b\<rparr> None)
                    (\<lambda>(site', ph). Some (Inr site')))))"

subsection \<open>Positions and the nearby-empty-site proposer\<close>

text \<open>
  Modelled from the spec: \<open>PositionArguments\<close> (PositionArguments.hpp is not among the
  sources), in the single-species form that NDLattice.hpp and DensityDensityMeasurement.hpp
  use: the ordered list of the particles' site indices; \<open>r[i]\<close> reads it (asserting the
  index), \<open>get_N_filled\<close> is its length, and a site is occupied if and only if it is the
  position of some particle (the reverse occupancy map of the spec).
\<close>

record PositionArguments =
  r_vector :: "nat list"
  N_sites :: nat

definition get_N_filled :: "PositionArguments \<Rightarrow> nat" where
  "get_N_filled r = length (r_vector r)"

definition position_of :: "PositionArguments \<Rightarrow> nat \<Rightarrow> error + nat" where
  "position_of r i = (if i < length (r_vector r) then Inr (r_vector r ! i) else Inl AssertionFailed)"

definition is_occupied :: "PositionArguments \<Rightarrow> nat \<Rightarrow> bool" where
  "is_occupied r site_index = (site_index \<in> set (r_vector r))"

text \<open>
  The \<open>do ... while\<close> loop of \<open>plan_particle_move_to_nearby_empty_site_virtual\<close>;
  \<open>rp\<close> is the value of \<open>r[particle]\<close>.
\<close>

partial_function (option) plan_loop ::
  "NDLattice \<Rightarrow> PositionArguments \<Rightarrow> nat \<Rightarrow> nat \<Rightarrow> int \<Rightarrow> Site \<Rightarrow> (error + nat) option" where
  "plan_loop lat r rp move_axis step_direction site =
     (case move_site lat site move_axis step_direction of
        None \<Rightarrow> None
      | Some (Inl e) \<Rightarrow> Some (Inl e)
      | Some (Inr site') \<Rightarrow>
          (case site_to_index lat site' of
             Inl e \<Rightarrow> Some (Inl e)
           | Inr site_index \<Rightarrow>
               if is_occupied r site_index \<and> site_index \<noteq> rp
               then plan_loop lat r rp move_axis step_direction site'
               else Some (Inr site_index)))"

declare plan_loop.simps [code]

text \<open>
  The two random draws are arguments: \<open>axis_draw\<close> is the value of \<open>axis_gen ()\<close>, a
  number from 0 to \<open>move_axes_count () - 1\<close> (drawn only if there is more than one move
  axis), and \<open>direction_draw\<close> is the value of \<open>direction_gen ()\<close>, 0 or 1.
\<close>

definition plan_particle_move_to_nearby_empty_site_virtual ::
  "NDLattice \<Rightarrow> nat \<Rightarrow> PositionArguments \<Rightarrow> nat \<Rightarrow> int \<Rightarrow> (error + nat) option" where
  "plan_particle_move_to_nearby_empty_site_virtual lat particle r axis_draw direction_draw =
     (let move_axis = (if move_axes_count lat = 1 then 0 else axis_draw);
          step_direction = direction_draw * 2 - 1
      in case position_of r particle of
           Inl e \<Rightarrow> Some (Inl e)
         | Inr rp \<Rightarrow>
             (case site_from_index lat rp of
                Inl e \<Rightarrow> Some (Inl e)
              | Inr site \<Rightarrow> plan_loop lat r rp move_axis step_direction site))"

subsection \<open>Vocabulary for the properties of the lattice\<close>

text \<open>
  What the constructor builds when nothing overflows: the offsets are the partial products
  of the lengths, and \<open>lattice_of\<close> is the resulting object. \<open>lattice_ok\<close> says that
  the lengths and the number of basis indices are positive and that the number of sites
  fits into an \<open>int\<close>.
\<close>

fun radix_offsets :: "nat \<Rightarrow> int list \<Rightarrow> int list" where
  "radix_offsets c [] = []"
| "radix_offsets c (l # ls) = int c # radix_offsets (c * nat l) ls"

definition lattice_of :: "int list \<Rightarrow> int \<Rightarrow> NDLattice" where
  "lattice_of len bi =
     \<lparr>m_total_sites = nat (prod_list len * bi), length_d = len, basis_indices = bi,
      offset = radix_offsets 1 len, basis_offset = prod_list len,
      move_axes = default_move_axes (length len) bi\<rparr>"

definition lattice_ok :: "int list \<Rightarrow> int \<Rightarrow> bool" where
  "lattice_ok len bi = ((\<forall>l\<in>set len. 0 < l) \<and> 0 < bi \<and> prod_list len * bi < 2 ^ 31)"

text \<open>
  Mixed-radix packing: \<open>encode\<close> is the index of a list of coordinates, \<open>digits\<close> the
  coordinates of an index, \<open>index_of\<close> the index of a site. \<open>coords_ok\<close> holds of
  coordinates that lie in \<open>[0, length)\<close> in every dimension, \<open>site_wf\<close> of a site that
  has one coordinate per dimension and is valid.
\<close>

fun encode :: "int list \<Rightarrow> int list \<Rightarrow> int" where
  "encode (x # xs) (l # ls) = x + l * encode xs ls"
| "encode _ _ = 0"

fun digits :: "nat \<Rightarrow> int list \<Rightarrow> int list" where
  "digits n [] = []"
| "digits n (l # ls) = int (n mod nat l) # digits (n div nat l) ls"

definition index_of :: "NDLattice \<Rightarrow> Site \<Rightarrow> nat" where
  "index_of lat site =
     nat (encode (site_bs site) (length_d lat) + basis_index site * prod_list (length_d lat))"

definition coords_ok :: "int list \<Rightarrow> int list \<Rightarrow> bool" where
  "coords_ok xs ls = list_all2 (\<lambda>x l. 0 \<le> x \<and> x < l) xs ls"

definition site_wf :: "NDLattice \<Rightarrow> Site \<Rightarrow> bool" where
  "site_wf lat site = (length (site_bs site) = length (length_d lat) \<and> site_is_valid lat site)"

text \<open>
  The two wrapping loops in closed form: how often each runs on a coordinate and the
  coordinate it leaves, and what that many multiplications or divisions do to the phase.
\<close>

definition upper_count :: "int \<Rightarrow> int \<Rightarrow> nat" where
  "upper_count L x = (if x < L then 0 else nat (x div L))"

definition upper_value :: "int \<Rightarrow> int \<Rightarrow> int" where
  "upper_value L x = (if x < L then x else x mod L)"

definition lower_count :: "int \<Rightarrow> int \<Rightarrow> nat" where
  "lower_count L x = (if 0 \<le> x then 0 else nat (- (x div L)))"

definition lower_value :: "int \<Rightarrow> int \<Rightarrow> int" where
  "lower_value L x = (if 0 \<le> x then x else x mod L)"

fun phase_times_n :: "(error + phase_t) option \<Rightarrow> nat \<Rightarrow> phase_t \<Rightarrow> error + phase_t" where
  "phase_times_n ph 0 pc = Inr pc"
| "phase_times_n None (Suc n) pc = phase_times_n None n pc"
| "phase_times_n (Some (Inl e)) (Suc n) pc = Inl e"
| "phase_times_n (Some (Inr p)) (Suc n) pc = phase_times_n (Some (Inr p)) n (phase_times pc p)"

fun phase_divide_n :: "(error + phase_t) option \<Rightarrow> nat \<Rightarrow> phase_t \<Rightarrow> error + phase_t" where
  "phase_divide_n ph 0 pc = Inr pc"
| "phase_divide_n None (Suc n) pc = phase_divide_n None n pc"
| "phase_divide_n (Some (Inl e)) (Suc n) pc = Inl e"
| "phase_divide_n (Some (Inr p)) (Suc n) pc = phase_divide_n (Some (Inr p)) n (phase_divide pc p)"

definition wrap_coords :: "int list \<Rightarrow> int list \<Rightarrow> int list" where
  "wrap_coords xs ls = map2 (\<lambda>x l. x mod l) xs ls"

text \<open>
  Moves: \<open>unit_steps\<close> holds of a move axis whose entries are 0 or 1, as the default
  axes are; \<open>translate\<close> is the site reached from \<open>s\<close> by \<open>k\<close> steps along the axis
  \<open>m\<close> (negative \<open>k\<close> for steps backwards); \<open>move_site_repeat\<close> calls \<open>move_site\<close>
  \<open>n\<close> times in a row.
\<close>

definition unit_steps :: "nat \<Rightarrow> Move \<Rightarrow> bool" where
  "unit_steps n m =
     (length (bravais_site m) = n \<and> list_all (\<lambda>y. y = 0 \<or> y = 1) (bravais_site m)
      \<and> (move_basis_index m = 0 \<or> move_basis_index m = 1))"

definition translate :: "int list \<Rightarrow> int \<Rightarrow> Site \<Rightarrow> Move \<Rightarrow> int \<Rightarrow> Site" where
  "translate len bi s m k =
     \<lparr>site_bs = wrap_coords (map2 (\<lambda>x y. x + k * y) (site_bs s) (bravais_site m)) len,
      basis_index = (basis_index s + k * move_basis_index m) mod bi\<rparr>"

fun move_site_repeat :: "NDLattice \<Rightarrow> Site \<Rightarrow> nat \<Rightarrow> int \<Rightarrow> nat \<Rightarrow> (error + Site) option" where
  "move_site_repeat lat s a dir 0 = Some (Inr s)"
| "move_site_repeat lat s a dir (Suc n) =
     then_do (move_site lat s a dir) (\<lambda>s'. move_site_repeat lat s' a dir n)"

text \<open>
  Boundary conditions in the properties: \<open>bc_constructed\<close> holds of an object made by the
  constructor from a rational in \<open>[0, 1]\<close>; \<open>exact_twist\<close> holds of the periodic, the
  antiperiodic and the two quarter-twist boundary conditions, whose phases 1, -1, i and -i
  \<open>calculate_phase\<close> returns exactly; \<open>phase_of\<close> is the phase as a complex number
  where the model determines it; \<open>phase_power p w\<close> multiplies 1 by \<open>p\<close>, \<open>w\<close>
  times, as the code does; \<open>dims_phase\<close> is the product over the dimensions of the
  phase to the power of the number of wraps; \<open>bcs_ok\<close> says that every dimension has a
  constructed boundary condition, \<open>wrap_ok\<close> that each of them is an exact twist or is
  open with a coordinate that is not negative; \<open>fits_int\<close> bounds a vector so that
  adding it to a site or subtracting it from one stays inside \<open>int\<close>.
\<close>

definition bc_constructed :: "BoundaryCondition \<Rightarrow> bool" where
  "bc_constructed bc = (0 \<le> m_p bc \<and> m_p bc \<le> 1 \<and> m_phase bc = calculate_phase (m_p bc))"


definition phase_of :: "BoundaryCondition \<Rightarrow> complex" where
  "phase_of bc = (case m_phase bc of Finite z \<Rightarrow> z | Rounded \<Rightarrow> 0 | NonFinite \<Rightarrow> 0)"


fun dims_phase :: "BoundaryCondition list \<Rightarrow> nat \<Rightarrow> int list \<Rightarrow> int list \<Rightarrow> complex" where
  "dims_phase b d (x # xs) (l # ls) = phase_of (b ! d) powi (x div l) * dims_phase b (Suc d) xs ls"
| "dims_phase b d _ _ = 1"




section \<open>The density-density measurement (DensityDensityMeasurement.hpp)\<close>

text \<open>
  The four Eigen arrays of \<open>unsigned int\<close>: \<open>density_accum\<close> and
  \<open>current_density_accum\<close> have one row per basis index and one column per site index,
  \<open>denominator\<close> and \<open>current_denominator\<close> one entry per basis index.
\<close>

record DensityDensityMeasurement =
  density_accum :: "32 word list list"
  current_density_accum :: "32 word list list"
  denominator :: "32 word list"
  current_denominator :: "32 word list"

text \<open>
  \<open>initialize_\<close>. The two accumulators are set to zero. \<open>resizeLike\<close> gives the two
  \<open>current\<close> arrays their size and says nothing about their entries; the model fills
  them with zero, and \<open>measure_\<close> sets them to zero before anything reads them.
\<close>

definition initialize_measurement :: "NDLattice \<Rightarrow> error + DensityDensityMeasurement" where
  "initialize_measurement lat =
     (if \<not> (total_sites lat > 0) then Inl AssertionFailed
      else
        (let nb = u32_of_int (basis_indices lat);
             zero_accum = replicate nb (replicate (total_sites lat) 0);
             zero_denom = replicate nb 0
         in Inr \<lparr>density_accum = zero_accum, current_density_accum = zero_accum,
                 denominator = zero_denom, current_denominator = zero_denom\<rparr>))"

text \<open>\<open>++a (row, col)\<close> and \<open>++a (row)\<close>; Eigen asserts that the index is in range.\<close>

definition increment_at2 :: "nat \<Rightarrow> nat \<Rightarrow> 32 word list list \<Rightarrow> error + 32 word list list" where
  "increment_at2 row col a =
     (if row < length a \<and> col < length (a ! row)
      then Inr (a[row := (a ! row)[col := a ! row ! col + 1]])
      else Inl AssertionFailed)"

definition increment_at :: "nat \<Rightarrow> 32 word list \<Rightarrow> error + 32 word list" where
  "increment_at row a =
     (if row < length a then Inr (a[row := a ! row + 1]) else Inl AssertionFailed)"

text \<open>\<open>repeat_measurement_\<close>: the accumulators take the \<open>current\<close> arrays, entry by entry.\<close>

definition repeat_measurement :: "DensityDensityMeasurement \<Rightarrow> DensityDensityMeasurement" where
  "repeat_measurement m =
     m\<lparr>density_accum := map2 (map2 (+)) (density_accum m) (current_density_accum m),
       denominator := map2 (+) (denominator m) (current_denominator m)\<rparr>"

text \<open>
  The inner loop of \<open>measure_\<close> over the particles \<open>j\<close>, for the site \<open>site_i\<close> of
  particle \<open>i\<close>; \<open>rs\<close> are the positions still to visit.
\<close>

fun measure_inner ::
  "NDLattice \<Rightarrow> Site \<Rightarrow> nat list \<Rightarrow> DensityDensityMeasurement
   \<Rightarrow> (error + DensityDensityMeasurement) option" where
  "measure_inner lat site_i [] m = Some (Inr m)"
| "measure_inner lat site_i (rj # rs) m =
     then_do (Some (site_from_index lat rj)) (\<lambda>site_j.
     then_do (asm_subtract_site_vector lat site_j (site_bs site_i) None) (\<lambda>(site_j', ph).
     then_do (Some (site_to_index lat site_j')) (\<lambda>idx.
     then_do (Some (increment_at2 (nat (basis_index site_i)) idx (density_accum m))) (\<lambda>a.
     measure_inner lat site_i rs (m\<lparr>density_accum := a\<rparr>)))))"

text \<open>The outer loop over the particles \<open>i\<close>; \<open>r_all\<close> are the positions of all particles.\<close>

fun measure_outer ::
  "NDLattice \<Rightarrow> nat list \<Rightarrow> nat list \<Rightarrow> DensityDensityMeasurement
   \<Rightarrow> (error + DensityDensityMeasurement) option" where
  "measure_outer lat r_all [] m = Some (Inr m)"
| "measure_outer lat r_all (ri # rs) m =
     then_do (Some (site_from_index lat ri)) (\<lambda>site_i.
     then_do (measure_inner lat site_i r_all m) (\<lambda>m1.
     then_do (Some (increment_at (nat (basis_index site_i)) (denominator m1))) (\<lambda>d.
     measure_outer lat r_all rs (m1\<lparr>denominator := d\<rparr>))))"

text \<open>
  \<open>measure_\<close>: the \<open>current\<close> arrays are set to zero, the loops over all pairs of
  particles increment \<open>density_accum\<close> and \<open>denominator\<close>, and \<open>repeat_measurement_\<close>
  is called at the end.
\<close>

definition measure :: "NDLattice \<Rightarrow> PositionArguments \<Rightarrow> DensityDensityMeasurement
   \<Rightarrow> (error + DensityDensityMeasurement) option" where
  "measure lat r m =
     (let m0 = m\<lparr>current_density_accum := map (map (\<lambda>_. 0)) (current_density_accum m),
                 current_denominator := map (\<lambda>_. 0) (current_denominator m)\<rparr>
      in then_do (measure_outer lat (r_vector r) (r_vector r) m0) (\<lambda>m1.
           Some (Inr (repeat_measurement m1))))"

text \<open>
  Modelled from the spec: the base class \<open>Measurement\<close> (Measurement.hpp is not among the
  sources). The driver reports a step to a measurement as advanced or as repeated; an
  advanced step observes the new state (\<open>measure_\<close>), a repeated step repeats the previous
  contribution (\<open>repeat_measurement_\<close>).
\<close>

definition step_advanced :: "NDLattice \<Rightarrow> PositionArguments \<Rightarrow> DensityDensityMeasurement
   \<Rightarrow> (error + DensityDensityMeasurement) option" where
  "step_advanced lat r m = measure lat r m"

definition step_repeated :: "DensityDensityMeasurement \<Rightarrow> DensityDensityMeasurement" where
  "step_repeated m = repeat_measurement m"

text \<open>The chain of two sites with one basis index, as \<open>NDLattice<1>\<close> constructs it.\<close>

definition two_site_chain :: NDLattice where
  "two_site_chain =
     \<lparr>m_total_sites = 2, length_d = [2], basis_indices = 1, offset = [1], basis_offset = 2,
      move_axes = [\<lparr>bravais_site = [1], move_basis_index = 0\<rparr>]\<rparr>"

text \<open>
  The lattice that \<open>NDLattice<2>\<close> constructs from the lengths 65536 and 65537 and
  three basis indices. The product of the lengths, 65536 more than \<open>2 ^ 32\<close>, wraps to
  65536 in \<open>unsigned int\<close>, so the number of sites is 196608 and the basis offset is the
  offset of the second dimension.
\<close>

definition wide_lattice :: NDLattice where
  "wide_lattice =
     \<lparr>m_total_sites = 196608, length_d = [65536, 65537], basis_indices = 3,
      offset = [1, 65536], basis_offset = 65536,
      move_axes = [\<lparr>bravais_site = [1, 0], move_basis_index = 0\<rparr>,
                   \<lparr>bravais_site = [0, 1], move_basis_index = 0\<rparr>,
                   \<lparr>bravais_site = [0, 0], move_basis_index = 1\<rparr>]\<rparr>"

section \<open>The determinant engine (CeperleyMatrix.hpp)\<close>

subsection \<open>Dense matrices\<close>

text \<open>
  An \<open>Eigen::Matrix<T, Dynamic, Dynamic>\<close>: its two dimensions and its entries. The
  scalar type \<open>T\<close> is a type variable with the operations the code uses and with no laws
  assumed of them, as befits floating point. A vector (a row, a column, an
  \<open>Eigen::Matrix<T, Dynamic, 1>\<close>) is the list of its entries.
\<close>

record 'a Matrix =
  nrows :: nat
  ncols :: nat
  entry :: "nat \<Rightarrow> nat \<Rightarrow> 'a"

definition get_row :: "nat \<Rightarrow> 'a Matrix \<Rightarrow> 'a list" where
  "get_row r m = map (\<lambda>j. entry m r j) [0..<ncols m]"

definition get_col :: "nat \<Rightarrow> 'a Matrix \<Rightarrow> 'a list" where
  "get_col c m = map (\<lambda>i. entry m i c) [0..<nrows m]"

text \<open>\<open>m.row (r) = v\<close> and \<open>m.col (c) = v\<close>.\<close>

definition set_row :: "nat \<Rightarrow> 'a list \<Rightarrow> 'a Matrix \<Rightarrow> 'a Matrix" where
  "set_row r v m = m\<lparr>entry := \<lambda>i j. if i = r \<and> j < ncols m then v ! j else entry m i j\<rparr>"

definition set_col :: "nat \<Rightarrow> 'a list \<Rightarrow> 'a Matrix \<Rightarrow> 'a Matrix" where
  "set_col c v m = m\<lparr>entry := \<lambda>i j. if j = c \<and> i < nrows m then v ! i else entry m i j\<rparr>"

text \<open>
  \<open>m.resize (r, c)\<close> gives the matrix its dimensions and says nothing about its entries;
  the model leaves the entries as they are. Every entry of a resized matrix is assigned
  before the code reads it.
\<close>

definition resize :: "nat \<Rightarrow> nat \<Rightarrow> 'a Matrix \<Rightarrow> 'a Matrix" where
  "resize r c m = m\<lparr>nrows := r, ncols := c\<rparr>"

text \<open>
  The product of a row with a column, the difference and the sum of two vectors, and the
  product of a row with a matrix. Eigen does not fix the order of the additions of a
  product; the model adds from left to right.
\<close>

definition dot :: "'a::{zero,plus,times} list \<Rightarrow> 'a list \<Rightarrow> 'a" where
  "dot xs ys = foldl (+) 0 (map2 (*) xs ys)"

definition vec_sub :: "'a::minus list \<Rightarrow> 'a list \<Rightarrow> 'a list" where
  "vec_sub xs ys = map2 (-) xs ys"

definition vec_add :: "'a::plus list \<Rightarrow> 'a list \<Rightarrow> 'a list" where
  "vec_add xs ys = map2 (+) xs ys"

definition row_times_matrix :: "'a::{zero,plus,times} list \<Rightarrow> 'a Matrix \<Rightarrow> 'a list" where
  "row_times_matrix v m = map (\<lambda>j. dot v (get_col j m)) [0..<ncols m]"

subsection \<open>What the engine takes from outside\<close>

text \<open>
  \<open>Big<T>\<close> (Big.hpp, not among the sources) and the LU decompositions of Eigen are
  parameters of the model, collected in one record; so are the three comparisons of
  \<open>std::abs (det.get_base ())\<close> with the cutoffs, which are floating-point tests.
  \<open>'b\<close> is the type \<open>Big<T>\<close>.
  \<^item> \<open>big_times\<close> is \<open>det *= detrat\<close>, \<open>big_zero\<close> is \<open>Big<T> ()\<close>, \<open>big_is_zero\<close> is
    \<open>is_zero\<close> (and \<open>is_nonzero\<close> its negation).
  \<^item> \<open>full_piv_lu\<close> is the decomposition of \<open>calculate_inverse\<close> (\<open>MyFullPivLU\<close> with
    its threshold times 10): the rank, whether the matrix is invertible, the determinant as
    the \<open>Big<T>\<close> that \<open>calculate_inverse\<close> builds from the diagonal and the sign of the
    permutation, and the inverse.
  \<^item> \<open>small_lu\<close> is the decomposition of the ratio matrix \<open>detrat_m\<close>: whether it is
    invertible, its determinant and its inverse.
\<close>

record ('a, 'b) full_lu_result =
  lu_rank :: nat
  lu_invertible :: bool
  lu_big_det :: 'b
  lu_inverse :: "'a Matrix"

record 'a small_lu_result =
  slu_invertible :: bool
  slu_determinant :: 'a
  slu_inverse :: "'a Matrix"

record ('a, 'b) numerics =
  big_times :: "'b \<Rightarrow> 'a \<Rightarrow> 'b"
  big_zero :: 'b
  big_is_zero :: "'b \<Rightarrow> bool"
  base_below_safe_lower_cutoff :: "'b \<Rightarrow> bool"
  base_below_lower_cutoff :: "'b \<Rightarrow> bool"
  base_above_upper_cutoff :: "'b \<Rightarrow> bool"
  full_piv_lu :: "'a Matrix \<Rightarrow> ('a, 'b) full_lu_result"
  small_lu :: "'a Matrix \<Rightarrow> 'a small_lu_result"

subsection \<open>The state of the engine\<close>

datatype State =
    UNINITIALIZED
  | READY_FOR_UPDATE
  | ROW_UPDATE_IN_PROGRESS
  | COLUMN_UPDATE_IN_PROGRESS
  | COLUMNS_UPDATE_IN_PROGRESS
  | ROWCOL_UPDATE_IN_PROGRESS

record ('a, 'b) CeperleyMatrix =
  current_state :: State
  be_extra_careful :: bool
  mat :: "'a Matrix"
  invmat :: "'a Matrix"
  new_invmat :: "'a Matrix"
  detrat :: 'a
  det :: 'b
  old_det :: 'b
  pending_index :: nat
  nullity_lower_bound :: int
  new_nullity_lower_bound :: int
  inverse_recalculated_for_current_update :: bool
  detrat_inv_m :: "'a Matrix"
  old_cols_m :: "'a Matrix"
  old_rows_m :: "'a Matrix"
  cols_offset_m :: "'a Matrix"
  rows_offset_m :: "'a Matrix"
  pending_col_indices :: "nat list"
  pending_row_indices :: "nat list"

text \<open>
  \<open>calculate_inverse\<close>. The warning it may print is not part of the state.
\<close>

definition calculate_inverse ::
  "('a, 'b) numerics \<Rightarrow> bool \<Rightarrow> ('a, 'b) CeperleyMatrix \<Rightarrow> ('a, 'b) CeperleyMatrix" where
  "calculate_inverse nu update_in_progress s =
     (let lu_decomposition = full_piv_lu nu (mat s);
          nullity = int (ncols (mat s)) - int (lu_rank lu_decomposition);
          s1 = (if update_in_progress then s\<lparr>new_nullity_lower_bound := nullity\<rparr>
                else s\<lparr>nullity_lower_bound := nullity\<rparr>);
          s2 = (if \<not> lu_invertible lu_decomposition then s1\<lparr>det := big_zero nu\<rparr>
                else
                  (let s1' = s1\<lparr>det := lu_big_det lu_decomposition\<rparr>
                   in if update_in_progress
                      then s1'\<lparr>new_invmat := lu_inverse lu_decomposition\<rparr>
                      else s1'\<lparr>invmat := lu_inverse lu_decomposition\<rparr>))
      in s2\<lparr>inverse_recalculated_for_current_update := update_in_progress\<rparr>)"

text \<open>
  \<open>perform_singular_update\<close>. The subtraction \<open>new_nullity_lower_bound -= update_rank\<close>
  mixes \<open>int\<close> and \<open>unsigned int\<close>; on the small numbers of rows and columns of a move
  it is the subtraction of integers.
\<close>

definition perform_singular_update ::
  "('a, 'b) numerics \<Rightarrow> nat \<Rightarrow> ('a, 'b) CeperleyMatrix \<Rightarrow> error + ('a, 'b) CeperleyMatrix" where
  "perform_singular_update nu update_rank s =
     (if \<not> big_is_zero nu (det s) then Inl AssertionFailed
      else if \<not> (new_nullity_lower_bound s = nullity_lower_bound s) then Inl AssertionFailed
      else if \<not> (new_nullity_lower_bound s > 0) then Inl AssertionFailed
      else
        (let s1 = s\<lparr>new_nullity_lower_bound := new_nullity_lower_bound s - int update_rank\<rparr>
         in if new_nullity_lower_bound s1 \<le> 0 then Inr (calculate_inverse nu True s1)
            else Inr s1))"

text \<open>
  The end that the four updates share once the ratio \<open>detrat\<close> is known:
  \<open>det *= detrat\<close>, then the matrix is marked singular if the determinant is zero, and
  otherwise recomputed from scratch if the engine is extra careful and the determinant is
  small. (\<open>update_row\<close> and \<open>update_column\<close> test \<open>is_nonzero\<close> first, the other two
  \<open>is_zero\<close>; the branches are the same.)
\<close>

definition apply_detrat ::
  "('a, 'b) numerics \<Rightarrow> ('a, 'b) CeperleyMatrix \<Rightarrow> ('a, 'b) CeperleyMatrix" where
  "apply_detrat nu s =
     (let s1 = s\<lparr>det := big_times nu (det s) (detrat s)\<rparr>
      in if \<not> big_is_zero nu (det s1)
         then (if be_extra_careful s1 \<and> base_below_safe_lower_cutoff nu (det s1)
               then calculate_inverse nu True s1 else s1)
         else s1\<lparr>new_nullity_lower_bound := 1\<rparr>)"

definition update_row ::
  "('a::{zero,plus,times}, 'b) numerics \<Rightarrow> nat \<Rightarrow> 'a list \<Rightarrow> ('a, 'b) CeperleyMatrix
   \<Rightarrow> error + ('a, 'b) CeperleyMatrix" where
  "update_row nu r row s =
     (if \<not> (r < nrows (mat s)) then Inl AssertionFailed
      else if \<not> (length row = ncols (mat s)) then Inl AssertionFailed
      else if \<not> (current_state s = READY_FOR_UPDATE) then Inl AssertionFailed
      else if inverse_recalculated_for_current_update s then Inl AssertionFailed
      else
        (let s1 = s\<lparr>old_cols_m := set_col 0 (get_row r (mat s)) (resize (nrows (mat s)) 1 (old_cols_m s)),
                     old_det := det s,
                     new_nullity_lower_bound := nullity_lower_bound s\<rparr>;
             s2 = s1\<lparr>mat := set_row r row (mat s1), pending_index := r\<rparr>
         in and_then
              (if nullity_lower_bound s2 = 0
               then Inr (apply_detrat nu
                      (s2\<lparr>detrat := dot (get_row (pending_index s2) (mat s2))
                                        (get_col (pending_index s2) (invmat s2))\<rparr>))
               else perform_singular_update nu 1 s2)
              (\<lambda>s3. Inr (s3\<lparr>current_state := ROW_UPDATE_IN_PROGRESS\<rparr>))))"

definition update_column ::
  "('a::{zero,plus,times}, 'b) numerics \<Rightarrow> nat \<Rightarrow> 'a list \<Rightarrow> ('a, 'b) CeperleyMatrix
   \<Rightarrow> error + ('a, 'b) CeperleyMatrix" where
  "update_column nu c col s =
     (if \<not> (c < ncols (mat s)) then Inl AssertionFailed
      else if \<not> (length col = nrows (mat s)) then Inl AssertionFailed
      else if \<not> (current_state s = READY_FOR_UPDATE) then Inl AssertionFailed
      else if inverse_recalculated_for_current_update s then Inl AssertionFailed
      else
        (let s1 = s\<lparr>old_cols_m := set_col 0 (get_col c (mat s)) (resize (nrows (mat s)) 1 (old_cols_m s)),
                     old_det := det s,
                     new_nullity_lower_bound := nullity_lower_bound s\<rparr>;
             s2 = s1\<lparr>mat := set_col c col (mat s1), pending_index := c\<rparr>
         in and_then
              (if nullity_lower_bound s2 = 0
               then Inr (apply_detrat nu
                      (s2\<lparr>detrat := dot (get_row (pending_index s2) (invmat s2))
                                        (get_col (pending_index s2) (mat s2))\<rparr>))
               else perform_singular_update nu 1 s2)
              (\<lambda>s3. Inr (s3\<lparr>current_state := COLUMN_UPDATE_IN_PROGRESS\<rparr>))))"

text \<open>
  The loop of \<open>update_columns\<close> from index \<open>i\<close> on, over the pairs (column of the
  matrix, column of \<open>srcmat\<close>) still to do. Its assertion that the column differs from
  those of the earlier pairs reads them from \<open>pending_col_indices\<close>, which holds exactly
  the columns of the earlier pairs at that point.
\<close>

fun update_columns_loop ::
  "nat \<Rightarrow> (nat \<times> nat) list \<Rightarrow> 'a::{plus,minus} Matrix \<Rightarrow> ('a, 'b) CeperleyMatrix
   \<Rightarrow> error + ('a, 'b) CeperleyMatrix" where
  "update_columns_loop i [] srcmat s = Inr s"
| "update_columns_loop i (p # ps) srcmat s =
     (if \<not> (snd p < ncols srcmat) then Inl AssertionFailed
      else if \<not> (fst p < ncols (mat s)) then Inl AssertionFailed
      else if fst p \<in> set (pending_col_indices s) then Inl AssertionFailed
      else
        (let s1 = s\<lparr>old_cols_m := set_col i (get_col (fst p) (mat s)) (old_cols_m s),
                     pending_col_indices := pending_col_indices s @ [fst p]\<rparr>;
             s2 = s1\<lparr>cols_offset_m :=
                        set_col i (vec_sub (get_col (snd p) srcmat) (get_col (fst p) (mat s1)))
                          (cols_offset_m s1)\<rparr>;
             s3 = s2\<lparr>mat := set_col (fst p)
                        (vec_add (get_col (fst p) (mat s2)) (get_col i (cols_offset_m s2)))
                        (mat s2)\<rparr>
         in update_columns_loop (Suc i) ps srcmat s3))"

text \<open>The ratio matrix \<open>detrat_m\<close> of \<open>update_columns\<close>, with the identity added.\<close>

definition columns_ratio_matrix ::
  "nat list \<Rightarrow> 'a::{zero,one,plus,times} Matrix \<Rightarrow> 'a Matrix \<Rightarrow> 'a Matrix" where
  "columns_ratio_matrix cs inv_m coff =
     \<lparr>nrows = length cs, ncols = length cs,
      entry = \<lambda>i j. let d = dot (get_row (cs ! i) inv_m) (get_col j coff)
                     in if i = j then d + 1 else d\<rparr>"

text \<open>
  The determinant and the inverse of the ratio matrix: read off directly for a 1 by 1
  matrix, taken from the LU decomposition otherwise.
\<close>

definition decompose_ratio_matrix ::
  "('a::{zero,one,inverse}, 'b) numerics \<Rightarrow> 'a Matrix \<Rightarrow> ('a, 'b) CeperleyMatrix
   \<Rightarrow> ('a, 'b) CeperleyMatrix" where
  "decompose_ratio_matrix nu detrat_m s =
     (if ncols detrat_m = 1 then
        (let s1 = s\<lparr>detrat := entry detrat_m 0 0\<rparr>
         in if detrat s1 \<noteq> 0
            then s1\<lparr>detrat_inv_m :=
                      (resize 1 1 (detrat_inv_m s1))
                        \<lparr>entry := \<lambda>i j. if i = 0 \<and> j = 0 then 1 / detrat s1
                                        else entry (detrat_inv_m s1) i j\<rparr>\<rparr>
            else s1)
      else
        (let lu_decomposition = small_lu nu detrat_m
         in if slu_invertible lu_decomposition
            then s\<lparr>detrat := slu_determinant lu_decomposition,
                   detrat_inv_m := slu_inverse lu_decomposition\<rparr>
            else s\<lparr>detrat := 0\<rparr>))"

definition update_columns ::
  "('a::{zero,one,plus,minus,times,inverse}, 'b) numerics \<Rightarrow> (nat \<times> nat) list \<Rightarrow> 'a Matrix
   \<Rightarrow> ('a, 'b) CeperleyMatrix \<Rightarrow> error + ('a, 'b) CeperleyMatrix" where
  "update_columns nu cs srcmat s =
     (if \<not> (length cs > 0) then Inl AssertionFailed
      else if \<not> (length cs \<le> ncols (mat s)) then Inl AssertionFailed
      else if \<not> (nrows srcmat = nrows (mat s)) then Inl AssertionFailed
      else if \<not> (current_state s = READY_FOR_UPDATE) then Inl AssertionFailed
      else if inverse_recalculated_for_current_update s then Inl AssertionFailed
      else if \<not> (nullity_lower_bound s \<ge> 0) then Inl AssertionFailed
      else
        and_then
          (update_columns_loop 0 cs srcmat
             (s\<lparr>old_cols_m := resize (nrows (mat s)) (length cs) (old_cols_m s),
                cols_offset_m := resize (nrows (mat s)) (length cs) (cols_offset_m s),
                pending_col_indices := []\<rparr>))
          (\<lambda>s1.
             let s2 = s1\<lparr>old_det := det s1, new_nullity_lower_bound := nullity_lower_bound s1\<rparr>
             in and_then
                  (if nullity_lower_bound s2 \<noteq> 0
                   then perform_singular_update nu (length cs) s2
                   else Inr (apply_detrat nu
                          (decompose_ratio_matrix nu
                             (columns_ratio_matrix (map fst cs) (invmat s2) (cols_offset_m s2))
                             s2)))
                  (\<lambda>s3. Inr (s3\<lparr>current_state := COLUMNS_UPDATE_IN_PROGRESS\<rparr>))))"

text \<open>
  The two loops of \<open>update_rows_and_columns\<close>. \<open>earlier\<close> are the indices before
  \<open>rows[i]\<close> (before \<open>cols[i]\<close>), which the assertion compares it with.
\<close>

fun update_rows_loop ::
  "nat \<Rightarrow> nat list \<Rightarrow> nat list \<Rightarrow> 'a::{plus,minus} Matrix \<Rightarrow> ('a, 'b) CeperleyMatrix
   \<Rightarrow> error + ('a, 'b) CeperleyMatrix" where
  "update_rows_loop i earlier [] srcmat s = Inr s"
| "update_rows_loop i earlier (r # rs) srcmat s =
     (if \<not> (r < nrows (mat s)) then Inl AssertionFailed
      else if r \<in> set earlier then Inl AssertionFailed
      else
        (let s1 = s\<lparr>old_rows_m := set_row i (get_row r (mat s)) (old_rows_m s)\<rparr>;
             s2 = s1\<lparr>rows_offset_m :=
                        set_row i (vec_sub (get_row r srcmat) (get_row r (mat s1)))
                          (rows_offset_m s1)\<rparr>;
             s3 = s2\<lparr>mat := set_row r
                        (vec_add (get_row r (mat s2)) (get_row i (rows_offset_m s2))) (mat s2)\<rparr>
         in update_rows_loop (Suc i) (earlier @ [r]) rs srcmat s3))"

fun update_cols_loop ::
  "nat \<Rightarrow> nat list \<Rightarrow> nat list \<Rightarrow> 'a::{plus,minus} Matrix \<Rightarrow> ('a, 'b) CeperleyMatrix
   \<Rightarrow> error + ('a, 'b) CeperleyMatrix" where
  "update_cols_loop i earlier [] srcmat s = Inr s"
| "update_cols_loop i earlier (c # cs) srcmat s =
     (if \<not> (c < ncols (mat s)) then Inl AssertionFailed
      else if c \<in> set earlier then Inl AssertionFailed
      else
        (let s1 = s\<lparr>old_cols_m := set_col i (get_col c (mat s)) (old_cols_m s)\<rparr>;
             s2 = s1\<lparr>cols_offset_m :=
                        set_col i (vec_sub (get_col c srcmat) (get_col c (mat s1)))
                          (cols_offset_m s1)\<rparr>;
             s3 = s2\<lparr>mat := set_col c
                        (vec_add (get_col c (mat s2)) (get_col i (cols_offset_m s2))) (mat s2)\<rparr>
         in update_cols_loop (Suc i) (earlier @ [c]) cs srcmat s3))"

text \<open>
  The ratio matrix of \<open>update_rows_and_columns\<close>: \<open>nc\<close> columns and rows for the
  replaced columns, then \<open>nr\<close> for the replaced rows.
\<close>

definition rowcol_ratio_matrix ::
  "nat list \<Rightarrow> nat list \<Rightarrow> 'a::{zero,one,plus,times} Matrix \<Rightarrow> 'a Matrix \<Rightarrow> 'a Matrix
   \<Rightarrow> 'a Matrix" where
  "rowcol_ratio_matrix rs cs inv_m roff coff =
     (let nr = length rs; nc = length cs
      in \<lparr>nrows = nc + nr, ncols = nc + nr,
          entry = \<lambda>i j.
            let d = (if i < nc then
                       (if j < nc then dot (get_row (cs ! i) inv_m) (get_col j coff)
                        else entry inv_m (cs ! i) (rs ! (j - nc)))
                     else
                       (if j < nc
                        then dot (row_times_matrix (get_row (i - nc) roff) inv_m) (get_col j coff)
                        else dot (get_row (i - nc) roff) (get_col (rs ! (j - nc)) inv_m)))
            in if i = j then d + 1 else d\<rparr>)"

definition update_rows_and_columns ::
  "('a::{zero,one,plus,minus,times,inverse}, 'b) numerics \<Rightarrow> nat list \<Rightarrow> nat list \<Rightarrow> 'a Matrix
   \<Rightarrow> ('a, 'b) CeperleyMatrix \<Rightarrow> error + ('a, 'b) CeperleyMatrix" where
  "update_rows_and_columns nu rs cs srcmat s =
     (if \<not> (length cs > 0 \<or> length rs > 0) then Inl AssertionFailed
      else if \<not> (length cs \<le> ncols (mat s)) then Inl AssertionFailed
      else if \<not> (length rs \<le> nrows (mat s)) then Inl AssertionFailed
      else if \<not> (nrows srcmat = nrows (mat s)) then Inl AssertionFailed
      else if \<not> (ncols srcmat = ncols (mat s)) then Inl AssertionFailed
      else if \<not> (current_state s = READY_FOR_UPDATE) then Inl AssertionFailed
      else if inverse_recalculated_for_current_update s then Inl AssertionFailed
      else if \<not> (nullity_lower_bound s \<ge> 0) then Inl AssertionFailed
      else
        and_then
          (update_rows_loop 0 [] rs srcmat
             (s\<lparr>old_rows_m := resize (length rs) (ncols (mat s)) (old_rows_m s),
                rows_offset_m := resize (length rs) (ncols (mat s)) (rows_offset_m s),
                pending_row_indices := rs\<rparr>))
          (\<lambda>s1.
        and_then
          (update_cols_loop 0 [] cs srcmat
             (s1\<lparr>old_cols_m := resize (nrows (mat s1)) (length cs) (old_cols_m s1),
                 cols_offset_m := resize (nrows (mat s1)) (length cs) (cols_offset_m s1),
                 pending_col_indices := cs\<rparr>))
          (\<lambda>s2.
             let s3 = s2\<lparr>old_det := det s2, new_nullity_lower_bound := nullity_lower_bound s2\<rparr>
             in and_then
                  (if nullity_lower_bound s3 \<noteq> 0
                   then perform_singular_update nu (length cs) s3
                   else Inr (apply_detrat nu
                          (decompose_ratio_matrix nu
                             (rowcol_ratio_matrix rs cs (invmat s3) (rows_offset_m s3)
                                (cols_offset_m s3))
                             s3)))
                  (\<lambda>s4. Inr (s4\<lparr>current_state := ROWCOL_UPDATE_IN_PROGRESS\<rparr>)))))"

subsection \<open>Cancelling an update\<close>

definition cancel_row_update :: "('a, 'b) CeperleyMatrix \<Rightarrow> error + ('a, 'b) CeperleyMatrix" where
  "cancel_row_update s =
     (if \<not> (current_state s = ROW_UPDATE_IN_PROGRESS) then Inl AssertionFailed
      else Inr (s\<lparr>mat := set_row (pending_index s) (get_col 0 (old_cols_m s)) (mat s),
                  det := old_det s,
                  inverse_recalculated_for_current_update := False,
                  current_state := READY_FOR_UPDATE\<rparr>))"

definition cancel_column_update :: "('a, 'b) CeperleyMatrix \<Rightarrow> error + ('a, 'b) CeperleyMatrix" where
  "cancel_column_update s =
     (if \<not> (current_state s = COLUMN_UPDATE_IN_PROGRESS) then Inl AssertionFailed
      else Inr (s\<lparr>mat := set_col (pending_index s) (get_col 0 (old_cols_m s)) (mat s),
                  det := old_det s,
                  inverse_recalculated_for_current_update := False,
                  current_state := READY_FOR_UPDATE\<rparr>))"

text \<open>
  \<open>for (i = 0; i < pending_col_indices.size (); ++i)
  mat.col (pending_col_indices[i]) = old_cols_m.col (i);\<close> from index \<open>i\<close> on, and the
  same loop for the rows.
\<close>

fun restore_cols :: "nat \<Rightarrow> nat list \<Rightarrow> 'a Matrix \<Rightarrow> 'a Matrix \<Rightarrow> 'a Matrix" where
  "restore_cols i [] old m = m"
| "restore_cols i (c # cs) old m = restore_cols (Suc i) cs old (set_col c (get_col i old) m)"

fun restore_rows :: "nat \<Rightarrow> nat list \<Rightarrow> 'a Matrix \<Rightarrow> 'a Matrix \<Rightarrow> 'a Matrix" where
  "restore_rows i [] old m = m"
| "restore_rows i (r # rs) old m = restore_rows (Suc i) rs old (set_row r (get_row i old) m)"

definition cancel_columns_update :: "('a, 'b) CeperleyMatrix \<Rightarrow> error + ('a, 'b) CeperleyMatrix" where
  "cancel_columns_update s =
     (if \<not> (current_state s = COLUMNS_UPDATE_IN_PROGRESS) then Inl AssertionFailed
      else Inr (s\<lparr>mat := restore_cols 0 (pending_col_indices s) (old_cols_m s) (mat s),
                  det := old_det s,
                  inverse_recalculated_for_current_update := False,
                  current_state := READY_FOR_UPDATE\<rparr>))"

definition cancel_rows_and_columns_update ::
  "('a, 'b) CeperleyMatrix \<Rightarrow> error + ('a, 'b) CeperleyMatrix" where
  "cancel_rows_and_columns_update s =
     (if \<not> (current_state s = ROWCOL_UPDATE_IN_PROGRESS) then Inl AssertionFailed
      else Inr (s\<lparr>mat := restore_rows 0 (pending_row_indices s) (old_rows_m s)
                           (restore_cols 0 (pending_col_indices s) (old_cols_m s) (mat s)),
                  det := old_det s,
                  inverse_recalculated_for_current_update := False,
                  current_state := READY_FOR_UPDATE\<rparr>))"

text \<open>The constructor. \<open>uninit\<close> holds the members it leaves uninitialised.\<close>

definition CeperleyMatrix_of ::
  "('a, 'b) numerics \<Rightarrow> 'a Matrix \<Rightarrow> bool \<Rightarrow> ('a, 'b) CeperleyMatrix
   \<Rightarrow> error + ('a, 'b) CeperleyMatrix" where
  "CeperleyMatrix_of nu initial_mat careful uninit =
     (if \<not> (nrows initial_mat = ncols initial_mat) then Inl AssertionFailed
      else Inr (calculate_inverse nu False
                  (uninit\<lparr>current_state := READY_FOR_UPDATE,
                          be_extra_careful := careful,
                          mat := initial_mat,
                          inverse_recalculated_for_current_update := False\<rparr>)))"

subsection \<open>Vocabulary for the claims about the determinant engine\<close>

text \<open>One pending update of any of the four kinds, with its arguments.\<close>

datatype 'a pending_update =
    UpdateRow nat "'a list"
  | UpdateColumn nat "'a list"
  | UpdateColumns "(nat \<times> nat) list" "'a Matrix"
  | UpdateRowsAndColumns "nat list" "nat list" "'a Matrix"

fun perform_update ::
  "('a::{zero,one,plus,minus,times,inverse}, 'b) numerics \<Rightarrow> 'a pending_update
   \<Rightarrow> ('a, 'b) CeperleyMatrix \<Rightarrow> error + ('a, 'b) CeperleyMatrix" where
  "perform_update nu (UpdateRow r row) s = update_row nu r row s"
| "perform_update nu (UpdateColumn c col) s = update_column nu c col s"
| "perform_update nu (UpdateColumns cs srcmat) s = update_columns nu cs srcmat s"
| "perform_update nu (UpdateRowsAndColumns rs cs srcmat) s =
     update_rows_and_columns nu rs cs srcmat s"

fun cancel_pending ::
  "'a pending_update \<Rightarrow> ('a, 'b) CeperleyMatrix \<Rightarrow> error + ('a, 'b) CeperleyMatrix" where
  "cancel_pending (UpdateRow r row) s = cancel_row_update s"
| "cancel_pending (UpdateColumn c col) s = cancel_column_update s"
| "cancel_pending (UpdateColumns cs srcmat) s = cancel_columns_update s"
| "cancel_pending (UpdateRowsAndColumns rs cs srcmat) s = cancel_rows_and_columns_update s"

text \<open>What each update asserts of its arguments.\<close>

fun arguments_ok :: "'a pending_update \<Rightarrow> ('a, 'b) CeperleyMatrix \<Rightarrow> bool" where
  "arguments_ok (UpdateRow r row) s = (r < nrows (mat s) \<and> length row = ncols (mat s))"
| "arguments_ok (UpdateColumn c col) s = (c < ncols (mat s) \<and> length col = nrows (mat s))"
| "arguments_ok (UpdateColumns cs srcmat) s =
     (0 < length cs \<and> length cs \<le> ncols (mat s) \<and> nrows srcmat = nrows (mat s)
      \<and> list_all (\<lambda>p. snd p < ncols srcmat \<and> fst p < ncols (mat s)) cs
      \<and> distinct (map fst cs))"
| "arguments_ok (UpdateRowsAndColumns rs cs srcmat) s =
     ((0 < length cs \<or> 0 < length rs) \<and> length cs \<le> ncols (mat s)
      \<and> length rs \<le> nrows (mat s)
      \<and> nrows srcmat = nrows (mat s) \<and> ncols srcmat = ncols (mat s)
      \<and> list_all (\<lambda>r. r < nrows (mat s)) rs \<and> distinct rs
      \<and> list_all (\<lambda>c. c < ncols (mat s)) cs \<and> distinct cs)"

text \<open>
  The engine between two updates: in the state \<open>READY_FOR_UPDATE\<close>, with a square matrix,
  no recomputed inverse pending, and a zero determinant whenever the nullity bound is
  positive.
\<close>

definition ready :: "('a, 'b) numerics \<Rightarrow> ('a, 'b) CeperleyMatrix \<Rightarrow> bool" where
  "ready nu s =
     (current_state s = READY_FOR_UPDATE \<and> \<not> inverse_recalculated_for_current_update s
      \<and> nrows (mat s) = ncols (mat s) \<and> 0 \<le> nullity_lower_bound s
      \<and> (0 < nullity_lower_bound s \<longrightarrow> big_is_zero nu (det s)))"

definition restored :: "('a, 'b) CeperleyMatrix \<Rightarrow> ('a, 'b) CeperleyMatrix \<Rightarrow> bool" where
  "restored s s' =
     (mat s' = mat s \<and> det s' = det s \<and> invmat s' = invmat s
      \<and> nullity_lower_bound s' = nullity_lower_bound s
      \<and> current_state s' = READY_FOR_UPDATE)"

text \<open>What the end of an update leaves as it is: all that a cancellation reads, and the
  inverse and the nullity bound.\<close>

definition kept :: "('a, 'b) CeperleyMatrix \<Rightarrow> ('a, 'b) CeperleyMatrix \<Rightarrow> bool" where
  "kept s s' =
     (mat s' = mat s \<and> invmat s' = invmat s \<and> nullity_lower_bound s' = nullity_lower_bound s
      \<and> old_det s' = old_det s \<and> old_cols_m s' = old_cols_m s \<and> old_rows_m s' = old_rows_m s
      \<and> pending_index s' = pending_index s \<and> pending_col_indices s' = pending_col_indices s
      \<and> pending_row_indices s' = pending_row_indices s)"

subsection \<open>Exact numerics for small matrices\<close>

definition matrix_of_rows :: "'a list list \<Rightarrow> 'a Matrix" where
  "matrix_of_rows rows =
     \<lparr>nrows = length rows, ncols = (if rows = [] then 0 else length (hd rows)),
      entry = \<lambda>i j. rows ! i ! j\<rparr>"

text \<open>
  Determinant, rank and inverse of a matrix of at most two rows over the rationals, and
  the numerics they give: a \<open>Big<T>\<close> is the number it stands for, and no determinant is
  beyond a cutoff.
\<close>

definition det2 :: "rat Matrix \<Rightarrow> rat" where
  "det2 m = (if nrows m = 0 then 1
             else if nrows m = 1 then entry m 0 0
             else entry m 0 0 * entry m 1 1 - entry m 0 1 * entry m 1 0)"

definition rank2 :: "rat Matrix \<Rightarrow> nat" where
  "rank2 m = (if nrows m = 0 then 0
              else if nrows m = 1 then (if entry m 0 0 = 0 then 0 else 1)
              else if det2 m \<noteq> 0 then 2
              else if entry m 0 0 = 0 \<and> entry m 0 1 = 0 \<and> entry m 1 0 = 0 \<and> entry m 1 1 = 0
                   then 0 else 1)"

definition inverse2 :: "rat Matrix \<Rightarrow> rat Matrix" where
  "inverse2 m = (if nrows m = 0 then matrix_of_rows []
                 else if nrows m = 1 then matrix_of_rows [[1 / entry m 0 0]]
                 else matrix_of_rows
                        [[entry m 1 1 / det2 m, - entry m 0 1 / det2 m],
                         [- entry m 1 0 / det2 m, entry m 0 0 / det2 m]])"

definition exact_numerics :: "(rat, rat) numerics" where
  "exact_numerics =
     \<lparr>big_times = (*), big_zero = 0, big_is_zero = (\<lambda>x. x = 0),
      base_below_safe_lower_cutoff = (\<lambda>x. False),
      base_below_lower_cutoff = (\<lambda>x. False),
      base_above_upper_cutoff = (\<lambda>x. False),
      full_piv_lu = (\<lambda>m. \<lparr>lu_rank = rank2 m, lu_invertible = (det2 m \<noteq> 0),
                            lu_big_det = det2 m, lu_inverse = inverse2 m\<rparr>),
      small_lu = (\<lambda>m. \<lparr>slu_invertible = (det2 m \<noteq> 0), slu_determinant = det2 m,
                         slu_inverse = inverse2 m\<rparr>)\<rparr>"

definition blank_engine :: "(rat, rat) CeperleyMatrix" where
  "blank_engine =
     \<lparr>current_state = UNINITIALIZED, be_extra_careful = False,
      mat = matrix_of_rows [], invmat = matrix_of_rows [], new_invmat = matrix_of_rows [],
      detrat = 0, det = 0, old_det = 0, pending_index = 0,
      nullity_lower_bound = 0, new_nullity_lower_bound = 0,
      inverse_recalculated_for_current_update = False,
      detrat_inv_m = matrix_of_rows [], old_cols_m = matrix_of_rows [],
      old_rows_m = matrix_of_rows [], cols_offset_m = matrix_of_rows [],
      rows_offset_m = matrix_of_rows [],
      pending_col_indices = [], pending_row_indices = []\<rparr>"

definition engine_of :: "rat list list \<Rightarrow> (rat, rat) CeperleyMatrix" where
  "engine_of rows = projr (CeperleyMatrix_of exact_numerics (matrix_of_rows rows) False blank_engine)"

section \<open>The swapped system (SwappedSystem.cpp)\<close>

subsection \<open>Particles, positions and amplitudes\<close>

record Particle =
  index :: nat
  species :: nat

text \<open>
  Modelled from the spec: \<open>PositionArguments\<close> with several species
  (PositionArguments.hpp is not among the sources). \<open>r_vectors\<close> holds for each species
  the ordered list of the site indices of its particles; \<open>r[particle]\<close> is
  \<open>position_at\<close>; \<open>update_position\<close> fails with \<open>InvalidMove\<close> if another particle of
  the species is on the new site; \<open>swap_particles\<close> exchanges two entries of the list of
  a species; \<open>reset\<close> replaces the lists.
\<close>

record SpeciesPositions =
  r_vectors :: "nat list list"
  all_N_sites :: nat

definition get_N_species :: "SpeciesPositions \<Rightarrow> nat" where
  "get_N_species r = length (r_vectors r)"

definition get_N_filled_of :: "SpeciesPositions \<Rightarrow> nat \<Rightarrow> nat" where
  "get_N_filled_of r sp = length (r_vectors r ! sp)"

definition particle_is_valid :: "SpeciesPositions \<Rightarrow> Particle \<Rightarrow> bool" where
  "particle_is_valid r p = (species p < get_N_species r \<and> index p < get_N_filled_of r (species p))"

definition position_at :: "SpeciesPositions \<Rightarrow> Particle \<Rightarrow> nat" where
  "position_at r p = r_vectors r ! species p ! index p"

definition update_position :: "SpeciesPositions \<Rightarrow> Particle \<Rightarrow> nat \<Rightarrow> error + SpeciesPositions" where
  "update_position r p new_site =
     (if \<not> particle_is_valid r p then Inl AssertionFailed
      else if \<exists>j < get_N_filled_of r (species p).
                j \<noteq> index p \<and> r_vectors r ! species p ! j = new_site
           then Inl InvalidMove
      else Inr (r\<lparr>r_vectors :=
                    (r_vectors r)[species p := (r_vectors r ! species p)[index p := new_site]]\<rparr>))"

definition swap_position_entries ::
  "SpeciesPositions \<Rightarrow> nat \<Rightarrow> nat \<Rightarrow> nat \<Rightarrow> error + SpeciesPositions" where
  "swap_position_entries r i j sp =
     (if \<not> (sp < get_N_species r \<and> i < get_N_filled_of r sp \<and> j < get_N_filled_of r sp)
      then Inl AssertionFailed
      else Inr (r\<lparr>r_vectors :=
                    (r_vectors r)[sp := (r_vectors r ! sp)[i := r_vectors r ! sp ! j,
                                                          j := r_vectors r ! sp ! i]]\<rparr>))"

definition reset_positions :: "SpeciesPositions \<Rightarrow> nat list list \<Rightarrow> SpeciesPositions" where
  "reset_positions r new_r = r\<lparr>r_vectors := new_r\<rparr>"

text \<open>
  Modelled from the spec: the part of \<open>Wavefunction::Amplitude\<close> that the swapped system
  uses (Wavefunction.hpp is not among the sources): the positions, and the positions to
  roll back to while a move is in progress. \<open>perform_move\<close> applies the entries of a move
  one after the other, \<open>finish_move\<close> commits and \<open>cancel_move\<close> rolls back,
  \<open>swap_particles\<close> exchanges the labels of two particles of a species, \<open>reset\<close> gives
  the amplitude new positions, and \<open>clone\<close> is a copy. The value of the amplitude plays
  no part in the swapped system and is not modelled.
\<close>

record Amplitude =
  amp_r :: SpeciesPositions
  amp_old_r :: SpeciesPositions
  move_in_progress :: bool

definition get_positions :: "Amplitude \<Rightarrow> SpeciesPositions" where
  "get_positions a = amp_r a"

fun apply_move :: "(Particle \<times> nat) list \<Rightarrow> SpeciesPositions \<Rightarrow> error + SpeciesPositions" where
  "apply_move [] r = Inr r"
| "apply_move ((p, destination) # mv) r =
     and_then (update_position r p destination) (apply_move mv)"

definition perform_move :: "Amplitude \<Rightarrow> (Particle \<times> nat) list \<Rightarrow> error + Amplitude" where
  "perform_move a mv =
     (if move_in_progress a then Inl AssertionFailed
      else and_then (apply_move mv (amp_r a))
             (\<lambda>r. Inr (a\<lparr>amp_r := r, amp_old_r := amp_r a, move_in_progress := True\<rparr>)))"

definition finish_move :: "Amplitude \<Rightarrow> error + Amplitude" where
  "finish_move a =
     (if \<not> move_in_progress a then Inl AssertionFailed
      else Inr (a\<lparr>move_in_progress := False\<rparr>))"

definition cancel_move :: "Amplitude \<Rightarrow> error + Amplitude" where
  "cancel_move a =
     (if \<not> move_in_progress a then Inl AssertionFailed
      else Inr (a\<lparr>amp_r := amp_old_r a, move_in_progress := False\<rparr>))"

definition swap_particles :: "Amplitude \<Rightarrow> nat \<Rightarrow> nat \<Rightarrow> nat \<Rightarrow> error + Amplitude" where
  "swap_particles a i j sp =
     (if move_in_progress a then Inl AssertionFailed
      else and_then (swap_position_entries (amp_r a) i j sp) (\<lambda>r. Inr (a\<lparr>amp_r := r\<rparr>)))"

definition reset_amplitude :: "Amplitude \<Rightarrow> SpeciesPositions \<Rightarrow> Amplitude" where
  "reset_amplitude a r = a\<lparr>amp_r := r, move_in_progress := False\<rparr>"

definition clone :: "Amplitude \<Rightarrow> Amplitude" where
  "clone a = a"

text \<open>
  Modelled from the spec: a \<open>Subsystem\<close> (Subsystem.hpp is not among the sources) is a
  predicate on the site indices of the lattice of the two copies, with the test whether it
  makes sense for that lattice.
\<close>

record Subsystem =
  position_is_within :: "nat \<Rightarrow> bool"
  lattice_makes_sense :: bool

subsection \<open>The state of the swapped system\<close>

datatype SwappedState = SW_UNINITIALIZED | SW_READY | SW_UPDATE_IN_PROGRESS

text \<open>
  The two handles \<open>phibeta1\<close> and \<open>phibeta2\<close> are shared pointers that are cloned before
  the first write if they are not unique; the model holds the amplitudes themselves, so
  that every write is to a copy of its own.
\<close>

record SwappedSystem =
  copy1_subsystem_indices :: "nat list list"
  copy2_subsystem_indices :: "nat list list"
  phibeta1 :: Amplitude
  phibeta2 :: Amplitude
  phibeta1_dirty :: bool
  phibeta2_dirty :: bool
  swapped_state :: SwappedState
  recent_delta :: int
  recent_particle1 :: Particle
  recent_particle2 :: Particle

fun vector_find_from :: "nat \<Rightarrow> 'a list \<Rightarrow> 'a \<Rightarrow> int" where
  "vector_find_from i [] val = - 1"
| "vector_find_from i (x # xs) val = (if x = val then int i else vector_find_from (Suc i) xs val)"

definition vector_find :: "'a list \<Rightarrow> 'a \<Rightarrow> int" where
  "vector_find vec val = vector_find_from 0 vec val"

text \<open>The constructor; \<open>uninit\<close> holds the members it leaves uninitialised.\<close>

definition SwappedSystem_of :: "SwappedSystem \<Rightarrow> SwappedSystem" where
  "SwappedSystem_of uninit =
     uninit\<lparr>copy1_subsystem_indices := [], copy2_subsystem_indices := [],
            phibeta1_dirty := False, phibeta2_dirty := False,
            swapped_state := SW_UNINITIALIZED\<rparr>"

definition subsystem_particle_counts_match :: "SwappedSystem \<Rightarrow> error + bool" where
  "subsystem_particle_counts_match sw =
     (if \<not> (length (copy1_subsystem_indices sw) = length (copy2_subsystem_indices sw))
      then Inl AssertionFailed
      else Inr (\<forall>i < length (copy1_subsystem_indices sw).
                  length (copy1_subsystem_indices sw ! i) = length (copy2_subsystem_indices sw ! i)))"

text \<open>\<open>BOOST_ASSERT (subsystem_particle_counts_match ())\<close>.\<close>

definition assert_counts_match :: "SwappedSystem \<Rightarrow> error + unit" where
  "assert_counts_match sw =
     and_then (subsystem_particle_counts_match sw)
       (\<lambda>b. if b then Inr () else Inl AssertionFailed)"

text \<open>
  The assertions that two position objects have the same number of species and, for each
  species, of particles.
\<close>

definition same_shape :: "SpeciesPositions \<Rightarrow> SpeciesPositions \<Rightarrow> bool" where
  "same_shape r1 r2 =
     (get_N_species r1 = get_N_species r2
      \<and> (\<forall>i < get_N_species r1. get_N_filled_of r1 i = get_N_filled_of r2 i))"

subsection \<open>\<open>swap_positions\<close>\<close>

text \<open>
  The inner loop of \<open>swap_positions\<close> over the pairs of one species, on the vectors
  \<open>v1[species]\<close> and \<open>v2[species]\<close>. An index beyond a vector is undefined behaviour.
\<close>

fun swap_loop :: "nat list \<Rightarrow> nat list \<Rightarrow> nat list \<Rightarrow> nat list \<Rightarrow> error + (nat list \<times> nat list)" where
  "swap_loop [] c2s v1 v2 = Inr (v1, v2)"
| "swap_loop (i1 # c1s) [] v1 v2 = Inl UndefinedBehaviour"
| "swap_loop (i1 # c1s) (i2 # c2s) v1 v2 =
     (if \<not> (i1 < length v1 \<and> i2 < length v2) then Inl UndefinedBehaviour
      else swap_loop c1s c2s (v1[i1 := v2 ! i2]) (v2[i2 := v1 ! i1]))"

text \<open>
  The loop over the species, from the species \<open>ss\<close> still to do: the vectors \<open>v1\<close> and
  \<open>v2\<close> of these species after the swaps, and whether some particles have been swapped.
\<close>

fun swap_species_loop ::
  "SwappedSystem \<Rightarrow> SpeciesPositions \<Rightarrow> SpeciesPositions \<Rightarrow> nat list
   \<Rightarrow> error + (nat list list \<times> nat list list \<times> bool)" where
  "swap_species_loop sw r1 r2 [] = Inr ([], [], False)"
| "swap_species_loop sw r1 r2 (sp # ss) =
     (if \<not> (length (copy1_subsystem_indices sw ! sp) = length (copy2_subsystem_indices sw ! sp))
      then Inl AssertionFailed
      else
        and_then (swap_loop (copy1_subsystem_indices sw ! sp) (copy2_subsystem_indices sw ! sp)
                    (r_vectors r1 ! sp) (r_vectors r2 ! sp))
          (\<lambda>(w1, w2).
             and_then (swap_species_loop sw r1 r2 ss)
               (\<lambda>(v1, v2, some_particles_have_been_swapped).
                  Inr (w1 # v1, w2 # v2,
                       some_particles_have_been_swapped
                       \<or> length (copy1_subsystem_indices sw ! sp) \<noteq> 0))))"

definition swap_positions ::
  "SwappedSystem \<Rightarrow> SpeciesPositions \<Rightarrow> SpeciesPositions
   \<Rightarrow> error + (SpeciesPositions \<times> SpeciesPositions)" where
  "swap_positions sw r1 r2 =
     (if \<not> (get_N_species r1 = get_N_species r2) then Inl AssertionFailed
      else if \<not> (get_N_species r1 = length (copy1_subsystem_indices sw)) then Inl AssertionFailed
      else if \<not> (get_N_species r1 = length (copy2_subsystem_indices sw)) then Inl AssertionFailed
      else if \<not> same_shape r1 r2 then Inl AssertionFailed
      else
        and_then (swap_species_loop sw r1 r2 [0..<get_N_species r1])
          (\<lambda>(v1, v2, some_particles_have_been_swapped).
             if some_particles_have_been_swapped
             then Inr (reset_positions r1 v1, reset_positions r2 v2)
             else Inr (r1, r2)))"

definition reinitialize_phibetas ::
  "Amplitude \<Rightarrow> Amplitude \<Rightarrow> SwappedSystem \<Rightarrow> error + SwappedSystem" where
  "reinitialize_phibetas phialpha1 phialpha2 sw =
     and_then (assert_counts_match sw) (\<lambda>_.
     and_then (swap_positions sw (get_positions phialpha1) (get_positions phialpha2))
       (\<lambda>(swapped_r1, swapped_r2).
          Inr (sw\<lparr>phibeta1 := reset_amplitude (clone phialpha1) swapped_r1,
                  phibeta1_dirty := False,
                  phibeta2 := reset_amplitude (clone phialpha2) swapped_r2,
                  phibeta2_dirty := False\<rparr>)))"

subsection \<open>\<open>initialize\<close>\<close>

text \<open>
  \<open>resize\<close> of a vector of vectors, and the indices of the particles of a species that
  are within the subsystem, in the order in which the loop appends them. The lattices of
  the two amplitudes are asserted to be the same object; the model has one lattice, the
  one the subsystem refers to.
\<close>

definition resize_vectors :: "nat \<Rightarrow> 'a list list \<Rightarrow> 'a list list" where
  "resize_vectors n vs = take n vs @ replicate (n - length vs) []"

definition indices_within :: "Subsystem \<Rightarrow> SpeciesPositions \<Rightarrow> nat \<Rightarrow> nat \<Rightarrow> nat list" where
  "indices_within subsystem r sp N =
     filter (\<lambda>i. position_is_within subsystem (position_at r \<lparr>index = i, species = sp\<rparr>)) [0..<N]"

definition initialize ::
  "Subsystem \<Rightarrow> Amplitude \<Rightarrow> Amplitude \<Rightarrow> SwappedSystem \<Rightarrow> error + SwappedSystem" where
  "initialize subsystem phialpha1 phialpha2 sw =
     (let r1 = get_positions phialpha1; r2 = get_positions phialpha2
      in if \<not> (swapped_state sw = SW_UNINITIALIZED) then Inl AssertionFailed
         else if \<not> same_shape r1 r2 then Inl AssertionFailed
         else if \<not> (all_N_sites r1 = all_N_sites r2) then Inl AssertionFailed
         else if \<not> lattice_makes_sense subsystem then Inl AssertionFailed
         else
           (let N_species = get_N_species r1;
                sw1 = sw\<lparr>copy1_subsystem_indices :=
                           map (\<lambda>sp. resize_vectors N_species (copy1_subsystem_indices sw) ! sp
                                      @ indices_within subsystem r1 sp (get_N_filled_of r1 sp))
                             [0..<N_species],
                         copy2_subsystem_indices :=
                           map (\<lambda>sp. resize_vectors N_species (copy2_subsystem_indices sw) ! sp
                                      @ indices_within subsystem r2 sp (get_N_filled_of r1 sp))
                             [0..<N_species]\<rparr>
            in and_then (assert_counts_match sw1) (\<lambda>_.
               and_then (reinitialize_phibetas phialpha1 phialpha2 sw1) (\<lambda>sw2.
                 Inr (sw2\<lparr>swapped_state := SW_READY\<rparr>)))))"

subsection \<open>\<open>update\<close>\<close>

text \<open>
  The branch \<open>delta == -1\<close>: a particle of the same species leaves the subsystem in each
  copy. \<open>c1_s[max_pairing_index] = c1_s[c1_s.size () - 1]; c1_s.pop_back ();\<close> is
  \<open>remove_slot\<close>.
\<close>

definition remove_slot :: "nat \<Rightarrow> 'a list \<Rightarrow> 'a list" where
  "remove_slot k xs = butlast (xs[k := last xs])"

definition update_both_left ::
  "Particle \<Rightarrow> Particle \<Rightarrow> int \<Rightarrow> int \<Rightarrow> bool \<Rightarrow> bool \<Rightarrow> SpeciesPositions \<Rightarrow> SpeciesPositions
   \<Rightarrow> SwappedSystem \<Rightarrow> error + SwappedSystem" where
  "update_both_left particle1 particle2 pairing_index1 pairing_index2
       particle1_now_in_subsystem particle2_now_in_subsystem r1 r2 sw =
     (if \<not> (pairing_index1 \<ge> 0 \<and> pairing_index2 \<ge> 0) then Inl AssertionFailed
      else if particle1_now_in_subsystem then Inl AssertionFailed
      else if particle2_now_in_subsystem then Inl AssertionFailed
      else
        (let sp = species particle1;
             c1_s = copy1_subsystem_indices sw ! sp;
             c2_s = copy2_subsystem_indices sw ! sp;
             p1 = nat pairing_index1;
             p2 = nat pairing_index2
         in if \<not> (sp < length (copy1_subsystem_indices sw)
                   \<and> sp < length (copy2_subsystem_indices sw)) then Inl UndefinedBehaviour
            else
              and_then
                (if pairing_index1 \<noteq> pairing_index2 then
                   (if \<not> (p1 < length c1_s \<and> p2 < length c1_s) then Inl UndefinedBehaviour
                    else
                      and_then (swap_particles (phibeta1 sw) (c1_s ! p1) (c1_s ! p2) sp) (\<lambda>b1.
                      if \<not> (p1 < length c2_s \<and> p2 < length c2_s) then Inl UndefinedBehaviour
                      else
                      and_then (swap_particles (phibeta2 sw) (c2_s ! p1) (c2_s ! p2) sp) (\<lambda>b2.
                        if pairing_index1 < pairing_index2
                        then Inr (b1, b2, c1_s[p1 := c1_s ! p2, p2 := c1_s ! p1], c2_s)
                        else Inr (b1, b2, c1_s, c2_s[p1 := c2_s ! p2, p2 := c2_s ! p1]))))
                 else Inr (phibeta1 sw, phibeta2 sw, c1_s, c2_s))
                (\<lambda>(b1, b2, c1_s, c2_s).
                   let max_pairing_index = nat (max pairing_index1 pairing_index2)
                   in if \<not> (\<not> phibeta1_dirty sw \<and> \<not> phibeta2_dirty sw) then Inl AssertionFailed
                      else if \<not> (max_pairing_index < length c1_s
                                   \<and> max_pairing_index < length c2_s) then Inl UndefinedBehaviour
                      else
                        and_then (perform_move b1
                                    [(\<lparr>index = c1_s ! max_pairing_index, species = sp\<rparr>,
                                      position_at r1 particle1)]) (\<lambda>b1'.
                        and_then (perform_move b2
                                    [(\<lparr>index = c2_s ! max_pairing_index, species = sp\<rparr>,
                                      position_at r2 particle2)]) (\<lambda>b2'.
                          Inr (sw\<lparr>phibeta1 := b1', phibeta2 := b2',
                                  phibeta1_dirty := True, phibeta2_dirty := True,
                                  copy1_subsystem_indices :=
                                    (copy1_subsystem_indices sw)
                                      [sp := remove_slot max_pairing_index c1_s],
                                  copy2_subsystem_indices :=
                                    (copy2_subsystem_indices sw)
                                      [sp := remove_slot max_pairing_index c2_s]\<rparr>))))))"

text \<open>
  The two blocks at the end of the other branch, for a particle moved in copy 1 and for a
  particle moved in copy 2: one move in the phibeta that holds the particle.
\<close>

definition update_phibeta_for_particle1 ::
  "Particle \<Rightarrow> int \<Rightarrow> bool \<Rightarrow> SpeciesPositions \<Rightarrow> SwappedSystem \<Rightarrow> error + SwappedSystem" where
  "update_phibeta_for_particle1 particle1 pairing_index1 particle1_now_in_subsystem r1 sw =
     (if particle1_now_in_subsystem then
        (if \<not> (species particle1 < length (copy2_subsystem_indices sw) \<and> 0 \<le> pairing_index1
                \<and> nat pairing_index1 < length (copy2_subsystem_indices sw ! species particle1))
         then Inl UndefinedBehaviour
         else if phibeta2_dirty sw then Inl AssertionFailed
         else
           and_then (perform_move (phibeta2 sw)
                       [(\<lparr>index = copy2_subsystem_indices sw ! species particle1
                                     ! nat pairing_index1,
                          species = species particle1\<rparr>,
                         position_at r1 particle1)])
             (\<lambda>b. Inr (sw\<lparr>phibeta2 := b, phibeta2_dirty := True\<rparr>)))
      else
        (if phibeta1_dirty sw then Inl AssertionFailed
         else
           and_then (perform_move (phibeta1 sw) [(particle1, position_at r1 particle1)])
             (\<lambda>b. Inr (sw\<lparr>phibeta1 := b, phibeta1_dirty := True\<rparr>))))"

definition update_phibeta_for_particle2 ::
  "Particle \<Rightarrow> int \<Rightarrow> bool \<Rightarrow> SpeciesPositions \<Rightarrow> SwappedSystem \<Rightarrow> error + SwappedSystem" where
  "update_phibeta_for_particle2 particle2 pairing_index2 particle2_now_in_subsystem r2 sw =
     (if particle2_now_in_subsystem then
        (if \<not> (species particle2 < length (copy1_subsystem_indices sw) \<and> 0 \<le> pairing_index2
                \<and> nat pairing_index2 < length (copy1_subsystem_indices sw ! species particle2))
         then Inl UndefinedBehaviour
         else if phibeta1_dirty sw then Inl AssertionFailed
         else
           and_then (perform_move (phibeta1 sw)
                       [(\<lparr>index = copy1_subsystem_indices sw ! species particle2
                                     ! nat pairing_index2,
                          species = species particle2\<rparr>,
                         position_at r2 particle2)])
             (\<lambda>b. Inr (sw\<lparr>phibeta1 := b, phibeta1_dirty := True\<rparr>)))
      else
        (if phibeta2_dirty sw then Inl AssertionFailed
         else
           and_then (perform_move (phibeta2 sw) [(particle2, position_at r2 particle2)])
             (\<lambda>b. Inr (sw\<lparr>phibeta2 := b, phibeta2_dirty := True\<rparr>))))"

text \<open>
  The other branch, \<open>delta == 0\<close> or \<open>delta == 1\<close>. For \<open>delta == 1\<close> both particles are
  given (asserted before), and they are appended to the lists of their species.
\<close>

definition update_otherwise ::
  "Particle option \<Rightarrow> Particle option \<Rightarrow> int \<Rightarrow> int \<Rightarrow> int \<Rightarrow> bool \<Rightarrow> bool
   \<Rightarrow> SpeciesPositions \<Rightarrow> SpeciesPositions \<Rightarrow> SwappedSystem \<Rightarrow> error + SwappedSystem" where
  "update_otherwise particle1 particle2 delta pairing_index1 pairing_index2
       particle1_now_in_subsystem particle2_now_in_subsystem r1 r2 sw =
     (if \<not> (delta = 0 \<or> delta = 1) then Inl AssertionFailed
      else
        and_then
          (if delta = 1 then
             (case (particle1, particle2) of
                (Some p1, Some p2) \<Rightarrow>
                  if \<not> (species p1 < length (copy1_subsystem_indices sw)
                         \<and> species p2 < length (copy2_subsystem_indices sw))
                  then Inl UndefinedBehaviour
                  else
                    (let c1_s = copy1_subsystem_indices sw ! species p1 @ [index p1];
                         c2_s = copy2_subsystem_indices sw ! species p2 @ [index p2]
                     in Inr (sw\<lparr>copy1_subsystem_indices :=
                                   (copy1_subsystem_indices sw)[species p1 := c1_s],
                                 copy2_subsystem_indices :=
                                   (copy2_subsystem_indices sw)[species p2 := c2_s]\<rparr>,
                             int (length c1_s) - 1, int (length c2_s) - 1))
              | _ \<Rightarrow> Inl AssertionFailed)
           else Inr (sw, pairing_index1, pairing_index2))
          (\<lambda>(sw1, pairing_index1, pairing_index2).
             and_then (assert_counts_match sw1) (\<lambda>_.
             and_then
               (case particle1 of
                  None \<Rightarrow> Inr sw1
                | Some p1 \<Rightarrow>
                    update_phibeta_for_particle1 p1 pairing_index1 particle1_now_in_subsystem
                      r1 sw1)
               (\<lambda>sw2.
                  case particle2 of
                    None \<Rightarrow> Inr sw2
                  | Some p2 \<Rightarrow>
                      update_phibeta_for_particle2 p2 pairing_index2 particle2_now_in_subsystem
                        r2 sw2))))"

text \<open>
  \<open>update\<close>. A null pointer \<open>particle1\<close> or \<open>particle2\<close> is \<open>None\<close>. The pairing index
  of a particle is read from the list of its species, which exists if the lists are as
  many as the species.
\<close>

definition pairing_index_of :: "nat list list \<Rightarrow> Particle option \<Rightarrow> error + int" where
  "pairing_index_of copy_subsystem_indices particle =
     (case particle of
        None \<Rightarrow> Inr (- 2)
      | Some p \<Rightarrow>
          if \<not> (species p < length copy_subsystem_indices) then Inl UndefinedBehaviour
          else Inr (vector_find (copy_subsystem_indices ! species p) (index p)))"

definition now_in_subsystem :: "Subsystem \<Rightarrow> SpeciesPositions \<Rightarrow> Particle option \<Rightarrow> bool" where
  "now_in_subsystem subsystem r particle =
     (case particle of
        None \<Rightarrow> False
      | Some p \<Rightarrow> position_is_within subsystem (position_at r p))"

definition update ::
  "Subsystem \<Rightarrow> Particle option \<Rightarrow> Particle option \<Rightarrow> Amplitude \<Rightarrow> Amplitude \<Rightarrow> SwappedSystem
   \<Rightarrow> error + SwappedSystem" where
  "update subsystem particle1 particle2 phialpha1 phialpha2 sw0 =
     (if \<not> (swapped_state sw0 = SW_READY) then Inl AssertionFailed
      else
        (let sw = sw0\<lparr>swapped_state := SW_UPDATE_IN_PROGRESS\<rparr>;
             r1 = get_positions phialpha1;
             r2 = get_positions phialpha2
         in if \<not> same_shape r1 r2 then Inl AssertionFailed
            else if \<not> (case particle1 of None \<Rightarrow> True | Some p \<Rightarrow> particle_is_valid r1 p)
              then Inl AssertionFailed
            else if \<not> (case particle2 of None \<Rightarrow> True | Some p \<Rightarrow> particle_is_valid r2 p)
              then Inl AssertionFailed
            else
              and_then (pairing_index_of (copy1_subsystem_indices sw) particle1)
                (\<lambda>pairing_index1.
              and_then (pairing_index_of (copy2_subsystem_indices sw) particle2)
                (\<lambda>pairing_index2.
                 let particle1_now_in_subsystem = now_in_subsystem subsystem r1 particle1;
                     particle2_now_in_subsystem = now_in_subsystem subsystem r2 particle2;
                     delta1 = (if particle1_now_in_subsystem then 1 else 0)
                              + (if pairing_index1 \<ge> 0 then - 1 else 0);
                     delta2 = (if particle2_now_in_subsystem then 1 else 0)
                              + (if pairing_index2 \<ge> 0 then - 1 else 0)
                 in if \<not> (particle1 \<noteq> None \<or> delta1 = 0) then Inl AssertionFailed
                    else if \<not> (particle2 \<noteq> None \<or> delta2 = 0) then Inl AssertionFailed
                    else if \<not> (delta1 = delta2) then Inl AssertionFailed
                    else
                      (let delta = delta1
                       in if \<not> (delta = 0
                                 \<or> (case (particle1, particle2) of
                                       (Some p1, Some p2) \<Rightarrow> species p1 = species p2
                                     | _ \<Rightarrow> False))
                            then Inl AssertionFailed
                          else if \<not> (delta = 0
                                 \<or> particle1_now_in_subsystem = particle2_now_in_subsystem)
                            then Inl AssertionFailed
                          else if \<not> (delta \<noteq> 0 \<or> \<not> (particle1 \<noteq> None \<and> particle2 \<noteq> None))
                            then Inl AssertionFailed
                          else
                            (let sw1 = sw\<lparr>recent_delta := delta,
                                          recent_particle1 :=
                                            (case particle1 of None \<Rightarrow> recent_particle1 sw
                                             | Some p \<Rightarrow> p),
                                          recent_particle2 :=
                                            (case particle2 of None \<Rightarrow> recent_particle2 sw
                                             | Some p \<Rightarrow> p)\<rparr>
                             in if delta = - 1 then
                                  (case (particle1, particle2) of
                                     (Some p1, Some p2) \<Rightarrow>
                                       update_both_left p1 p2 pairing_index1 pairing_index2
                                         particle1_now_in_subsystem particle2_now_in_subsystem
                                         r1 r2 sw1
                                   | _ \<Rightarrow> Inl AssertionFailed)
                                else
                                  update_otherwise particle1 particle2 delta
                                    pairing_index1 pairing_index2
                                    particle1_now_in_subsystem particle2_now_in_subsystem
                                    r1 r2 sw1))))))"

subsection \<open>\<open>finish_update\<close> and \<open>cancel_update\<close>\<close>

text \<open>
  Both without \<open>VMC_CAREFUL\<close>, so that \<open>verify_phibetas\<close> is not called and the two
  amplitudes passed in are not read.
\<close>

definition finish_update :: "Amplitude \<Rightarrow> Amplitude \<Rightarrow> SwappedSystem \<Rightarrow> error + SwappedSystem" where
  "finish_update phialpha1 phialpha2 sw0 =
     (if \<not> (swapped_state sw0 = SW_UPDATE_IN_PROGRESS) then Inl AssertionFailed
      else
        (let sw = sw0\<lparr>swapped_state := SW_READY\<rparr>
         in and_then (assert_counts_match sw) (\<lambda>_.
            and_then (if phibeta1_dirty sw then finish_move (phibeta1 sw) else Inr (phibeta1 sw))
              (\<lambda>b1.
            and_then (if phibeta2_dirty sw then finish_move (phibeta2 sw) else Inr (phibeta2 sw))
              (\<lambda>b2.
               Inr (sw\<lparr>phibeta1 := b1, phibeta1_dirty := False,
                       phibeta2 := b2, phibeta2_dirty := False\<rparr>))))))"

definition pop_back :: "'a list \<Rightarrow> error + 'a list" where
  "pop_back xs = (if xs = [] then Inl UndefinedBehaviour else Inr (butlast xs))"

definition cancel_update :: "Amplitude \<Rightarrow> Amplitude \<Rightarrow> SwappedSystem \<Rightarrow> error + SwappedSystem" where
  "cancel_update phialpha1 phialpha2 sw0 =
     (if \<not> (swapped_state sw0 = SW_UPDATE_IN_PROGRESS) then Inl AssertionFailed
      else
        (let sw = sw0\<lparr>swapped_state := SW_READY\<rparr>
         in and_then (assert_counts_match sw) (\<lambda>_.
            and_then (if phibeta1_dirty sw then cancel_move (phibeta1 sw) else Inr (phibeta1 sw))
              (\<lambda>b1.
            and_then (if phibeta2_dirty sw then cancel_move (phibeta2 sw) else Inr (phibeta2 sw))
              (\<lambda>b2.
               let sw1 = sw\<lparr>phibeta1 := b1, phibeta1_dirty := False,
                            phibeta2 := b2, phibeta2_dirty := False\<rparr>
               in if recent_delta sw1 \<noteq> 0 then
                    (if \<not> (species (recent_particle1 sw1) = species (recent_particle2 sw1))
                     then Inl AssertionFailed
                     else
                       (let sp = species (recent_particle1 sw1)
                        in if \<not> (sp < length (copy1_subsystem_indices sw1)
                                  \<and> sp < length (copy2_subsystem_indices sw1))
                           then Inl UndefinedBehaviour
                           else if recent_delta sw1 = 1 then
                             and_then (pop_back (copy1_subsystem_indices sw1 ! sp)) (\<lambda>c1_s.
                             and_then (pop_back (copy2_subsystem_indices sw1 ! sp)) (\<lambda>c2_s.
                               Inr (sw1\<lparr>copy1_subsystem_indices :=
                                          (copy1_subsystem_indices sw1)[sp := c1_s],
                                        copy2_subsystem_indices :=
                                          (copy2_subsystem_indices sw1)[sp := c2_s]\<rparr>)))
                           else if \<not> (recent_delta sw1 = - 1) then Inl AssertionFailed
                           else
                             Inr (sw1\<lparr>copy1_subsystem_indices :=
                                        (copy1_subsystem_indices sw1)
                                          [sp := copy1_subsystem_indices sw1 ! sp
                                                 @ [index (recent_particle1 sw1)]],
                                      copy2_subsystem_indices :=
                                        (copy2_subsystem_indices sw1)
                                          [sp := copy2_subsystem_indices sw1 ! sp
                                                 @ [index (recent_particle2 sw1)]]\<rparr>)))
                  else Inr sw1)))))"

subsection \<open>\<open>verify_phibetas\<close>\<close>

text \<open>
  The checks of \<open>verify_phibetas\<close> on the index lists of one species: \<open>b1\<close> and \<open>b2\<close>
  say whether a particle is in the list of a copy, \<open>c1\<close> and \<open>c2\<close> count these particles.
\<close>

definition lists_verified ::
  "Subsystem \<Rightarrow> SpeciesPositions \<Rightarrow> SpeciesPositions \<Rightarrow> SwappedSystem \<Rightarrow> nat \<Rightarrow> bool" where
  "lists_verified subsystem r1 r2 sw sp =
     (let N = get_N_filled_of r1 sp;
          b1 = (\<lambda>i. vector_find (copy1_subsystem_indices sw ! sp) i \<noteq> - 1);
          b2 = (\<lambda>i. vector_find (copy2_subsystem_indices sw ! sp) i \<noteq> - 1);
          c1 = length (filter b1 [0..<N]);
          c2 = length (filter b2 [0..<N])
      in N = get_N_filled_of r2 sp
         \<and> (\<forall>i < N. b1 i = position_is_within subsystem (position_at r1 \<lparr>index = i, species = sp\<rparr>)
                   \<and> b2 i = position_is_within subsystem (position_at r2 \<lparr>index = i, species = sp\<rparr>))
         \<and> c1 = c2
         \<and> c1 = length (copy1_subsystem_indices sw ! sp)
         \<and> c2 = length (copy2_subsystem_indices sw ! sp))"

text \<open>
  \<open>verify_phibetas\<close> with assertions enabled: every assertion that fails gives the same
  failure. Reading the position of a particle that a position object does not have is a
  failed assertion.
\<close>

definition verify_phibetas ::
  "Subsystem \<Rightarrow> Amplitude \<Rightarrow> Amplitude \<Rightarrow> SwappedSystem \<Rightarrow> error + unit" where
  "verify_phibetas subsystem phialpha1 phialpha2 sw =
     (let r1 = get_positions phialpha1; r2 = get_positions phialpha2
      in if \<not> (get_N_species r1 = get_N_species r2) then Inl AssertionFailed
         else if \<not> (all_N_sites r1 = all_N_sites r2) then Inl AssertionFailed
         else if \<not> (length (copy1_subsystem_indices sw) = get_N_species r1) then Inl AssertionFailed
         else if \<not> (length (copy2_subsystem_indices sw) = get_N_species r1) then Inl AssertionFailed
         else if \<not> (\<forall>sp < get_N_species r1. lists_verified subsystem r1 r2 sw sp)
           then Inl AssertionFailed
         else
           and_then (swap_positions sw r1 r2) (\<lambda>(swapped_r1, swapped_r2).
             if \<not> (\<forall>sp < get_N_species r1. \<forall>i < get_N_filled_of r1 sp.
                      particle_is_valid swapped_r1 \<lparr>index = i, species = sp\<rparr>
                      \<and> particle_is_valid (get_positions (phibeta1 sw)) \<lparr>index = i, species = sp\<rparr>
                      \<and> position_at swapped_r1 \<lparr>index = i, species = sp\<rparr>
                          = position_at (get_positions (phibeta1 sw)) \<lparr>index = i, species = sp\<rparr>
                      \<and> particle_is_valid swapped_r2 \<lparr>index = i, species = sp\<rparr>
                      \<and> particle_is_valid (get_positions (phibeta2 sw)) \<lparr>index = i, species = sp\<rparr>
                      \<and> position_at swapped_r2 \<lparr>index = i, species = sp\<rparr>
                          = position_at (get_positions (phibeta2 sw)) \<lparr>index = i, species = sp\<rparr>)
             then Inl AssertionFailed
             else Inr ()))"

subsection \<open>Vocabulary for the claims about the swapped system\<close>

text \<open>
  For one species: \<open>w1\<close> and \<open>w2\<close> are the positions \<open>v1\<close> and \<open>v2\<close> of the two copies
  with the particles of the two index lists exchanged pair by pair.
\<close>

definition paired_with ::
  "nat list \<Rightarrow> nat list \<Rightarrow> nat list \<Rightarrow> nat list \<Rightarrow> nat list \<Rightarrow> nat list \<Rightarrow> bool" where
  "paired_with c1s c2s v1 v2 w1 w2 =
     (length w1 = length v1 \<and> length w2 = length v2
      \<and> (\<forall>k < length c1s. w1 ! (c1s ! k) = v2 ! (c2s ! k) \<and> w2 ! (c2s ! k) = v1 ! (c1s ! k))
      \<and> (\<forall>i < length v1. i \<notin> set c1s \<longrightarrow> w1 ! i = v1 ! i)
      \<and> (\<forall>i < length v2. i \<notin> set c2s \<longrightarrow> w2 ! i = v2 ! i))"

text \<open>
  For one species: the two index lists have the same length and no duplicates, and an
  index is in the list of a copy if and only if the particle is within the subsystem in
  that copy.
\<close>

definition lists_ok ::
  "(nat \<Rightarrow> bool) \<Rightarrow> nat list \<Rightarrow> nat list \<Rightarrow> nat list \<Rightarrow> nat list \<Rightarrow> bool" where
  "lists_ok inside c1s c2s v1 v2 =
     (length c1s = length c2s \<and> distinct c1s \<and> distinct c2s \<and> length v1 = length v2
      \<and> (\<forall>i. i \<in> set c1s \<longleftrightarrow> i < length v1 \<and> inside (v1 ! i))
      \<and> (\<forall>i. i \<in> set c2s \<longleftrightarrow> i < length v2 \<and> inside (v2 ! i)))"

text \<open>
  The swapped invariant of a system at rest, with the positions \<open>r1\<close> and \<open>r2\<close> of
  the two copies: the system is ready and no move is pending, the index lists of every
  species are in order, and the positions of the two phibetas are what \<open>swap_positions\<close>
  makes of \<open>r1\<close> and \<open>r2\<close>.
\<close>

definition swapped_invariant ::
  "Subsystem \<Rightarrow> SwappedSystem \<Rightarrow> SpeciesPositions \<Rightarrow> SpeciesPositions \<Rightarrow> bool" where
  "swapped_invariant subsystem sw r1 r2 =
     (swapped_state sw = SW_READY \<and> \<not> phibeta1_dirty sw \<and> \<not> phibeta2_dirty sw
      \<and> \<not> move_in_progress (phibeta1 sw) \<and> \<not> move_in_progress (phibeta2 sw)
      \<and> get_N_species r2 = get_N_species r1
      \<and> length (copy1_subsystem_indices sw) = get_N_species r1
      \<and> length (copy2_subsystem_indices sw) = get_N_species r1
      \<and> (\<forall>sp < get_N_species r1.
            lists_ok (position_is_within subsystem)
              (copy1_subsystem_indices sw ! sp) (copy2_subsystem_indices sw ! sp)
              (r_vectors r1 ! sp) (r_vectors r2 ! sp))
      \<and> swap_positions sw r1 r2
          = Inr (get_positions (phibeta1 sw), get_positions (phibeta2 sw)))"

text \<open>
  The lists \<open>C1\<close> and \<open>C2\<close> of all species are in order for the positions \<open>R1\<close> and
  \<open>R2\<close> of the two copies, and \<open>Q1\<close> and \<open>Q2\<close> are these positions with the paired
  particles exchanged.
\<close>

definition system_ok ::
  "(nat \<Rightarrow> bool) \<Rightarrow> nat list list \<Rightarrow> nat list list \<Rightarrow> nat list list \<Rightarrow> nat list list
   \<Rightarrow> nat list list \<Rightarrow> nat list list \<Rightarrow> bool" where
  "system_ok W C1 C2 R1 R2 Q1 Q2 =
     (length C1 = length R1 \<and> length C2 = length R1 \<and> length R2 = length R1
      \<and> length Q1 = length R1 \<and> length Q2 = length R1
      \<and> (\<forall>sp < length R1.
            lists_ok W (C1 ! sp) (C2 ! sp) (R1 ! sp) (R2 ! sp)
            \<and> paired_with (C1 ! sp) (C2 ! sp) (R1 ! sp) (R2 ! sp) (Q1 ! sp) (Q2 ! sp)))"

text \<open>
  \<open>set_position\<close> puts a particle on a site, whatever is there. \<open>moved particle r r'\<close>
  relates the positions of a copy before and after the move that the caller has applied
  to it: \<open>r'\<close> is \<open>r\<close> with the position of that particle changed and of no other, and
  \<open>r\<close> itself if there is no particle.
\<close>

definition set_position :: "SpeciesPositions \<Rightarrow> Particle \<Rightarrow> nat \<Rightarrow> SpeciesPositions" where
  "set_position r p x =
     r\<lparr>r_vectors := (r_vectors r)[species p := (r_vectors r ! species p)[index p := x]]\<rparr>"

definition moved :: "Particle option \<Rightarrow> SpeciesPositions \<Rightarrow> SpeciesPositions \<Rightarrow> bool" where
  "moved particle r r' =
     (case particle of
        None \<Rightarrow> r' = r
      | Some p \<Rightarrow> particle_is_valid r p \<and> r' = set_position r p (position_at r' p))"

text \<open>
  The system while an update is in progress: its lists and phibetas fit the new positions,
  and the lists and positions that a cancellation restores fit the old ones.
\<close>

definition cancel_lists :: "SwappedSystem \<Rightarrow> nat list list \<Rightarrow> Particle \<Rightarrow> nat list list" where
  "cancel_lists sw C p =
     (if recent_delta sw = 0 then C
      else if recent_delta sw = 1
      then C[species (recent_particle1 sw) := butlast (C ! species (recent_particle1 sw))]
      else C[species (recent_particle1 sw) := C ! species (recent_particle1 sw) @ [index p]])"

definition rollback :: "Amplitude \<Rightarrow> SpeciesPositions" where
  "rollback a = (if move_in_progress a then amp_old_r a else amp_r a)"

definition pending_ok ::
  "(nat \<Rightarrow> bool) \<Rightarrow> SwappedSystem \<Rightarrow> SpeciesPositions \<Rightarrow> SpeciesPositions
   \<Rightarrow> SpeciesPositions \<Rightarrow> SpeciesPositions \<Rightarrow> bool" where
  "pending_ok W sw r1 r2 r1' r2' =
     (swapped_state sw = SW_UPDATE_IN_PROGRESS
      \<and> phibeta1_dirty sw = move_in_progress (phibeta1 sw)
      \<and> phibeta2_dirty sw = move_in_progress (phibeta2 sw)
      \<and> all_N_sites (amp_r (phibeta1 sw)) = all_N_sites r1'
      \<and> all_N_sites (amp_r (phibeta2 sw)) = all_N_sites r2'
      \<and> all_N_sites (rollback (phibeta1 sw)) = all_N_sites r1
      \<and> all_N_sites (rollback (phibeta2 sw)) = all_N_sites r2
      \<and> system_ok W (copy1_subsystem_indices sw) (copy2_subsystem_indices sw)
          (r_vectors r1') (r_vectors r2')
          (r_vectors (amp_r (phibeta1 sw))) (r_vectors (amp_r (phibeta2 sw)))
      \<and> (recent_delta sw = 0 \<or> recent_delta sw = 1 \<or> recent_delta sw = - 1)
      \<and> (recent_delta sw \<noteq> 0 \<longrightarrow>
            species (recent_particle1 sw) = species (recent_particle2 sw)
            \<and> species (recent_particle1 sw) < length (r_vectors r1))
      \<and> (recent_delta sw = 1 \<longrightarrow>
            copy1_subsystem_indices sw ! species (recent_particle1 sw) \<noteq> []
            \<and> copy2_subsystem_indices sw ! species (recent_particle1 sw) \<noteq> [])
      \<and> system_ok W
          (cancel_lists sw (copy1_subsystem_indices sw) (recent_particle1 sw))
          (cancel_lists sw (copy2_subsystem_indices sw) (recent_particle2 sw))
          (r_vectors r1) (r_vectors r2)
          (r_vectors (rollback (phibeta1 sw))) (r_vectors (rollback (phibeta2 sw))))"

text \<open>
  The systems at rest, each with the positions of the two copies it belongs to: a system
  that the constructor has made and \<open>initialize\<close> has set up; and a system at rest after
  a complete update, by which the swapped system follows the move of at most one particle
  in each copy, followed by \<open>finish_update\<close>, with the new positions, or by
  \<open>cancel_update\<close>, with the old ones.
\<close>

inductive at_rest :: "Subsystem \<Rightarrow> SwappedSystem \<Rightarrow> SpeciesPositions \<Rightarrow> SpeciesPositions \<Rightarrow> bool"
  for subsystem :: Subsystem where
  initialized:
    "initialize subsystem phialpha1 phialpha2 (SwappedSystem_of uninit) = Inr sw \<Longrightarrow>
     at_rest subsystem sw (get_positions phialpha1) (get_positions phialpha2)"
| finished:
    "at_rest subsystem sw r1 r2 \<Longrightarrow>
     moved particle1 r1 (get_positions phialpha1) \<Longrightarrow>
     moved particle2 r2 (get_positions phialpha2) \<Longrightarrow>
     update subsystem particle1 particle2 phialpha1 phialpha2 sw = Inr sw' \<Longrightarrow>
     finish_update phialpha1 phialpha2 sw' = Inr sw'' \<Longrightarrow>
     at_rest subsystem sw'' (get_positions phialpha1) (get_positions phialpha2)"
| cancelled:
    "at_rest subsystem sw r1 r2 \<Longrightarrow>
     moved particle1 r1 (get_positions phialpha1) \<Longrightarrow>
     moved particle2 r2 (get_positions phialpha2) \<Longrightarrow>
     update subsystem particle1 particle2 phialpha1 phialpha2 sw = Inr sw' \<Longrightarrow>
     get_positions old1 = r1 \<Longrightarrow> get_positions old2 = r2 \<Longrightarrow>
     cancel_update old1 old2 sw' = Inr sw'' \<Longrightarrow>
     at_rest subsystem sw'' r1 r2"

text \<open>
  An example on a chain of four sites whose first two sites are the subsystem, with one
  species of two particles: \<open>amplitude_at\<close> is an amplitude at rest with the particles
  on the given sites, \<open>blank_system\<close> the members that the constructor leaves as they
  are. In copy 1 the particles are on the sites 0 and 1, in copy 2 on the sites 1 and 0:
  \<open>example_ready\<close> is the system that \<open>initialize\<close> sets up. Then particle 0 of copy
  1 moves to site 2 and particle 1 of copy 2 to site 3: \<open>example_pending\<close> is the
  system after \<open>update\<close> and \<open>example_finished\<close> the system after \<open>finish_update\<close>.
\<close>

definition left_half :: Subsystem where
  "left_half = \<lparr>position_is_within = (\<lambda>site. site < 2), lattice_makes_sense = True\<rparr>"

definition amplitude_at :: "nat list list \<Rightarrow> Amplitude" where
  "amplitude_at rs =
     \<lparr>amp_r = \<lparr>r_vectors = rs, all_N_sites = 4\<rparr>,
      amp_old_r = \<lparr>r_vectors = rs, all_N_sites = 4\<rparr>, move_in_progress = False\<rparr>"

definition blank_system :: SwappedSystem where
  "blank_system =
     \<lparr>copy1_subsystem_indices = [], copy2_subsystem_indices = [],
      phibeta1 = amplitude_at [], phibeta2 = amplitude_at [],
      phibeta1_dirty = False, phibeta2_dirty = False, swapped_state = SW_UNINITIALIZED,
      recent_delta = 0, recent_particle1 = \<lparr>index = 0, species = 0\<rparr>,
      recent_particle2 = \<lparr>index = 0, species = 0\<rparr>\<rparr>"

definition example_ready :: SwappedSystem where
  "example_ready =
     blank_system
       \<lparr>copy1_subsystem_indices := [[0, 1]], copy2_subsystem_indices := [[0, 1]],
        phibeta1 := (amplitude_at [[0, 1]])\<lparr>amp_r := \<lparr>r_vectors = [[1, 0]], all_N_sites = 4\<rparr>\<rparr>,
        phibeta2 := (amplitude_at [[1, 0]])\<lparr>amp_r := \<lparr>r_vectors = [[0, 1]], all_N_sites = 4\<rparr>\<rparr>,
        swapped_state := SW_READY\<rparr>"

definition example_pending :: SwappedSystem where
  "example_pending =
     blank_system
       \<lparr>copy1_subsystem_indices := [[1]], copy2_subsystem_indices := [[0]],
        phibeta1 := \<lparr>amp_r = \<lparr>r_vectors = [[2, 1]], all_N_sites = 4\<rparr>,
                     amp_old_r = \<lparr>r_vectors = [[0, 1]], all_N_sites = 4\<rparr>,
                     move_in_progress = True\<rparr>,
        phibeta2 := \<lparr>amp_r = \<lparr>r_vectors = [[1, 3]], all_N_sites = 4\<rparr>,
                     amp_old_r = \<lparr>r_vectors = [[1, 0]], all_N_sites = 4\<rparr>,
                     move_in_progress = True\<rparr>,
        phibeta1_dirty := True, phibeta2_dirty := True,
        swapped_state := SW_UPDATE_IN_PROGRESS,
        recent_delta := - 1, recent_particle1 := \<lparr>index = 0, species = 0\<rparr>,
        recent_particle2 := \<lparr>index = 1, species = 0\<rparr>\<rparr>"


section \<open>Properties of BinnedEstimate\<close>

subsection \<open>Bit-level facts about the tests of \<open>add_value\<close>\<close>

lemma nat_and_succ_pow2_ex: "(n AND (n + 1) = 0) = (\<exists>m. n + 1 = 2 ^ m)" for n :: nat
proof (induction n rule: less_induct)
  case (less n)
  show ?case
  proof (cases "even n")
    case True
    then obtain j where j: "n = 2 * j" by (elim evenE)
    have a: "n AND (n + 1) = n"
      unfolding j by (subst and_nat_rec) simp
    have "(\<exists>m. n + 1 = 2 ^ m) = (n = 0)"
    proof
      assume "\<exists>m. n + 1 = 2 ^ m"
      then obtain m where m: "n + 1 = 2 ^ m" by blast
      have "odd (n + 1)" using True by simp
      then have "m = 0" unfolding m by (cases m) auto
      with m show "n = 0" by simp
    next
      assume "n = 0"
      then have "n + 1 = 2 ^ 0" by simp
      then show "\<exists>m. n + 1 = 2 ^ m" by blast
    qed
    with a show ?thesis by simp
  next
    case False
    then obtain j where j: "n = 2 * j + 1" by (elim oddE)
    have a: "n AND (n + 1) = 2 * (j AND (j + 1))"
      unfolding j by (subst and_nat_rec) simp
    have ih: "(j AND (j + 1) = 0) = (\<exists>m. j + 1 = 2 ^ m)"
      using less.IH [of j] j by simp
    have "(\<exists>m. n + 1 = 2 ^ m) = (\<exists>m. j + 1 = 2 ^ m)"
    proof
      assume "\<exists>m. n + 1 = 2 ^ m"
      then obtain m where m: "n + 1 = 2 ^ m" by blast
      have "m \<noteq> 0" using m j by (cases m) auto
      then obtain m' where "m = Suc m'" by (cases m) auto
      with m j have "j + 1 = 2 ^ m'" by simp
      then show "\<exists>m. j + 1 = 2 ^ m" by blast
    next
      assume "\<exists>m. j + 1 = 2 ^ m"
      then obtain m where "j + 1 = 2 ^ m" by blast
      then have "n + 1 = 2 ^ Suc m" using j by simp
      then show "\<exists>m. n + 1 = 2 ^ m" by blast
    qed
    with a ih show ?thesis by simp
  qed
qed

lemma nat_and_succ_pow2: "(n AND (n + 1) = 0) = is_power_of_two (n + 1)" for n :: nat
  unfolding is_power_of_two_def by (rule nat_and_succ_pow2_ex)

lemma unat_of_nat32: "n < 2 ^ 32 \<Longrightarrow> unat (word_of_nat n :: 32 word) = n"
  by (simp add: unat_of_nat)

lemma unat_and_succ32:
  assumes "n + 1 < 2 ^ 32"
  shows  "unat ((word_of_nat n :: 32 word) AND (word_of_nat n + 1)) = n AND (n + 1)"
proof -
  have 1: "(word_of_nat n :: 32 word) + 1 = word_of_nat (n + 1)" by simp
  have 2: "unat (word_of_nat (n + 1) :: 32 word) = n + 1"
    using assms by (rule unat_of_nat32)
  have 3: "unat (word_of_nat n :: 32 word) = n"
    using assms by (intro unat_of_nat32) simp
  show ?thesis
    unfolding 1 unsigned_and_eq 2 3 ..
qed

lemma just_below_iff:
  assumes "n + 1 < 2 ^ 32"
  shows "is_just_below_a_power_of_two (word_of_nat n) = is_power_of_two (n + 1)"
proof -
  have "((word_of_nat n :: 32 word) AND (word_of_nat n + 1) = 0)
        = (unat ((word_of_nat n :: 32 word) AND (word_of_nat n + 1)) = 0)"
    by (simp add: unat_eq_0)
  also have "\<dots> = (n AND (n + 1) = 0)"
    by (simp only: unat_and_succ32 [OF assms])
  finally show ?thesis
    by (simp only: is_just_below_a_power_of_two_def nat_and_succ_pow2)
qed

lemma some_bit_below: "n < 2 ^ k \<Longrightarrow> n \<noteq> 0 \<Longrightarrow> \<exists>j<k. bit n j" for n :: nat
proof (rule ccontr)
  assume n: "n < 2 ^ k" "n \<noteq> 0" and c: "\<not> (\<exists>j<k. bit n j)"
  have "take_bit k n = 0"
    by (rule bit_eqI) (use c in \<open>auto simp: bit_take_bit_iff\<close>)
  moreover have "take_bit k n = n" using n by (simp add: take_bit_nat_eq_self)
  ultimately show False using n by simp
qed

lemma and_shl_one_iff: "i < 31 \<Longrightarrow> ((word_of_nat n :: 32 word) AND push_bit i 1 \<noteq> 0) = bit n i"
  by (simp add: and_exp_eq_0_iff_not_bit bit_of_nat_iff)

lemma unat_shl_one: "i < 31 \<Longrightarrow> unat (push_bit i 1 :: 32 word) = 2 ^ i"
proof -
  assume i: "i < 31"
  have "(2::nat) ^ i < 2 ^ LENGTH(32)" using i by (intro power_strict_increasing) simp_all
  then have "unat (word_of_nat (2 ^ i) :: 32 word) = 2 ^ i"
    unfolding unat_of_nat by (rule mod_less)
  then show ?thesis by simp
qed

lemma shl_one_le_iff:
  "n < 2 ^ 32 \<Longrightarrow> i < 31 \<Longrightarrow> ((push_bit i 1 :: 32 word) \<le> word_of_nat n) = (2 ^ i \<le> n)"
  by (simp add: word_le_nat_alt unat_shl_one unat_of_nat32 del: push_bit_of_1)

lemma shl_one_gr_iff:
  "n < 2 ^ 32 \<Longrightarrow> i < 31 \<Longrightarrow> ((push_bit i 1 :: 32 word) > word_of_nat n) = (2 ^ i > n)"
  by (simp add: word_less_nat_alt unat_shl_one unat_of_nat32 del: push_bit_of_1)

lemma binning_loop_ok:
  "i \<le> j \<Longrightarrow> j < length bs \<Longrightarrow> j < 31 \<Longrightarrow> bit n j \<Longrightarrow>
   \<exists>bs'. binning_loop (word_of_nat n) i bs = Inr bs' \<and> length bs' = length bs"
proof (induction "j - i" arbitrary: i bs)
  case 0
  then have ij: "i = j" by simp
  show ?case
    using 0 unfolding ij
    by (subst binning_loop.simps) (simp add: shl_one_def Let_def and_shl_one_iff del: push_bit_of_1 binning_loop.simps)
next
  case (Suc d)
  then have lt: "i < j" by simp
  have "\<exists>bs'. binning_loop (word_of_nat n) (Suc i) (bs[i := fold_bin (bs ! i)]) = Inr bs'
          \<and> length bs' = length (bs[i := fold_bin (bs ! i)])"
    using Suc by (intro Suc.hyps) auto
  then show ?case
    using Suc.prems lt
    by (subst binning_loop.simps) (auto simp add: shl_one_def Let_def simp del: push_bit_of_1 binning_loop.simps)
qed

lemma pow2_between:
  assumes "is_power_of_two (Suc n)" "2 ^ (l - 1) \<le> n" "n < 2 ^ l" "0 < l"
  shows "Suc n = 2 ^ l"
proof -
  from assms(1) obtain m where m: "Suc n = 2 ^ m" by (auto simp: is_power_of_two_def)
  have "(2::nat) ^ (l - 1) < Suc n" using assms(2) by simp
  then have "(2::nat) ^ (l - 1) < 2 ^ m" unfolding m .
  then have "l - 1 < m" by (rule power_less_imp_less_exp [rotated]) simp
  moreover have "Suc n \<le> 2 ^ l" using assms(3) by simp
  then have "(2::nat) ^ m \<le> 2 ^ l" unfolding m .
  then have "m \<le> l" by (rule power_le_imp_le_exp [rotated]) simp
  ultimately have "m = l" using assms(4) by simp
  with m show ?thesis by simp
qed

lemma add_value_ok:
  fixes e :: "'a::{zero,plus,times} BinnedEstimate"
  assumes inv: "binned_inv e" and small: "Suc (num_values e) < 2 ^ 30"
  shows "\<exists>e'. add_value v e = Inr e' \<and> binned_inv e' \<and> num_values e' = Suc (num_values e)
           \<and> length (binlevel_data e') =
               (if is_power_of_two (Suc (num_values e)) then Suc (length (binlevel_data e))
                else length (binlevel_data e))"
proof -
  define n where "n = num_values e"
  define l where "l = length (binlevel_data e)"
  define l' where "l' = (if is_power_of_two (Suc n) then Suc l else l)"
  define e1 where "e1 = (if is_just_below_a_power_of_two (get_num_values e)
                then e\<lparr>binlevel_data := binlevel_data e @ [BinnedSum_init (get_total_value e)]\<rparr>
                else e)"
  define e2 where "e2 = running_add_value v e1"
  have n32: "n + 1 < 2 ^ 32" using small unfolding n_def by simp
  have jb: "is_just_below_a_power_of_two (get_num_values e) = is_power_of_two (Suc n)"
    using just_below_iff [OF n32] by (simp add: get_num_values_def n_def num_values_def)
  have len2: "length (binlevel_data e2) = l'"
    by (simp add: e2_def e1_def jb l'_def l_def running_add_value_def)
  have num2: "get_num_values e2 = word_of_nat (Suc n)"
    by (simp add: e2_def e1_def running_add_value_def get_num_values_def accumulate_def
        n_def num_values_def)
  have nv2: "num_values e2 = Suc n"
    by (simp add: e2_def e1_def running_add_value_def accumulate_def n_def num_values_def)
  have inv': "(n = 0 \<and> l = 0) \<or> (0 < l \<and> 2 ^ (l - 1) \<le> n \<and> n < 2 ^ l)"
    using inv by (simp add: binned_inv_def Let_def n_def l_def)
  have bounds: "0 < l' \<and> 2 ^ (l' - 1) \<le> Suc n \<and> Suc n < 2 ^ l'"
  proof (cases "is_power_of_two (Suc n)")
    case True
    have "Suc n = 2 ^ l"
    proof (cases "n = 0")
      case True
      with inv' have "l = 0" by auto
      with True show ?thesis by simp
    next
      case False
      with inv' have "0 < l" "2 ^ (l - 1) \<le> n" "n < 2 ^ l" by auto
      with True show ?thesis by (intro pow2_between)
    qed
    then show ?thesis using True by (simp add: l'_def)
  next
    case False
    have "n \<noteq> 0"
    proof
      assume "n = 0"
      then have "Suc n = 2 ^ 0" by simp
      then have "is_power_of_two (Suc n)" unfolding is_power_of_two_def by blast
      with False show False by simp
    qed
    with inv' have l: "0 < l" "2 ^ (l - 1) \<le> n" "n < 2 ^ l" by auto
    have "Suc n \<noteq> 2 ^ l" using False unfolding is_power_of_two_def by blast
    with l show ?thesis using False by (simp add: l'_def)
  qed
  have l'31: "l' < 31"
  proof -
    have "(2::nat) ^ (l' - 1) < 2 ^ 30" using bounds small n_def by simp
    then have "l' - 1 < 30" by (rule power_less_imp_less_exp [rotated]) simp
    then show ?thesis by simp
  qed
  have sn32: "Suc n < 2 ^ 32" using n32 by simp
  obtain j where j: "j < l'" "bit (Suc n) j"
    using some_bit_below [of "Suc n" l'] bounds by auto
  have "\<exists>bs'. binning_loop (word_of_nat (Suc n)) 0 (map (add_to_current v) (binlevel_data e2)) = Inr bs'
          \<and> length bs' = length (map (add_to_current v) (binlevel_data e2))"
    using j l'31 by (intro binning_loop_ok [of 0 j]) (simp_all add: len2)
  then obtain bs' where bs':
    "binning_loop (word_of_nat (Suc n)) 0 (map (add_to_current v) (binlevel_data e2)) = Inr bs'"
    "length bs' = l'"
    by (auto simp: len2)
  have res: "add_value v e = Inr (e2\<lparr>binlevel_data := bs'\<rparr>)"
    unfolding add_value_def e1_def [symmetric] Let_def e2_def [symmetric] len2 num2
    using bounds l'31 bs'(1) shl_one_gr_iff [OF sn32, of l'] shl_one_le_iff [OF sn32, of "l' - 1"]
    by (simp add: shl_one_def del: push_bit_of_1)
  have "binned_inv (e2\<lparr>binlevel_data := bs'\<rparr>)"
    using bounds bs'(2) nv2 by (simp add: binned_inv_def Let_def num_values_def)
  moreover have "num_values (e2\<lparr>binlevel_data := bs'\<rparr>) = Suc (num_values e)"
    using nv2 by (simp add: num_values_def n_def)
  moreover have "length (binlevel_data (e2\<lparr>binlevel_data := bs'\<rparr>)) =
               (if is_power_of_two (Suc (num_values e)) then Suc (length (binlevel_data e))
                else length (binlevel_data e))"
    using bs'(2) by (simp add: l'_def n_def l_def)
  ultimately show ?thesis using res by blast
qed

lemma add_values_ok:
  fixes e :: "'a::{zero,plus,times} BinnedEstimate"
  shows "binned_inv e \<Longrightarrow> num_values e + length vs < 2 ^ 30 \<Longrightarrow>
    \<exists>e'. add_values vs e = Inr e' \<and> binned_inv e' \<and> num_values e' = num_values e + length vs"
proof (induction vs arbitrary: e)
  case Nil
  then show ?case by simp
next
  case (Cons v vs)
  have "Suc (num_values e) < 2 ^ 30" using Cons.prems by simp
  from add_value_ok [OF Cons.prems(1) this, of v]
  obtain e1 where e1: "add_value v e = Inr e1" "binned_inv e1" "num_values e1 = Suc (num_values e)"
    by blast
  have "\<exists>e'. add_values vs e1 = Inr e' \<and> binned_inv e' \<and> num_values e' = num_values e1 + length vs"
    using Cons.prems e1 by (intro Cons.IH) simp_all
  then show ?case using e1 by auto
qed

lemma binned_inv_init: "binned_inv BinnedEstimate_init"
  by (simp add: binned_inv_def BinnedEstimate_init_def num_values_def accumulator_init_def)

lemma num_values_init: "num_values BinnedEstimate_init = 0"
  by (simp add: BinnedEstimate_init_def num_values_def accumulator_init_def)

text \<open>
  Claim C6, as amended. For every \<open>k\<close> with \<open>1 \<le> k < 2 ^ 30\<close> (the range in which
  the shifts \<open>1 << size\<close> of \<open>add_value\<close> stay inside \<open>int\<close>): starting from a fresh
  estimator, the first \<open>k - 1\<close> calls of \<open>add_value\<close> succeed, the \<open>k\<close>-th call
  succeeds, and it appends a new bin level exactly when \<open>k\<close> itself is a power of two
  (that is, when the number \<open>k - 1\<close> of values already present is just below a power of
  two); otherwise the number of bin levels is unchanged.
\<close>

theorem add_value_new_bin_level_iff_power_of_two:
  fixes v :: "'a::{zero,plus,times}"
  assumes "1 \<le> k" and "k < 2 ^ 30" and "length vs = k - 1"
  shows "\<exists>e e'. add_values vs BinnedEstimate_init = Inr e \<and> add_value v e = Inr e'
           \<and> length (binlevel_data e') =
               (if is_power_of_two k then Suc (length (binlevel_data e))
                else length (binlevel_data e))"
proof -
  have "num_values (BinnedEstimate_init :: 'a BinnedEstimate) + length vs < 2 ^ 30"
    using assms by (simp add: num_values_init)
  from add_values_ok [OF binned_inv_init this]
  obtain e where e: "add_values vs BinnedEstimate_init = Inr e" "binned_inv e"
    "num_values e = k - 1"
    using assms by (auto simp: num_values_init)
  have k: "Suc (num_values e) = k" using e assms by simp
  then have "Suc (num_values e) < 2 ^ 30" using assms by simp
  from add_value_ok [OF e(2) this, of v] show ?thesis
    using e(1) unfolding k by blast
qed

theorem add_value_new_bin_level_witness:
  "\<exists>e e'. add_values [1, 2 :: int] BinnedEstimate_init = Inr e \<and> add_value 3 e = Inr e'
     \<and> length (binlevel_data e') =
         (if is_power_of_two 3 then Suc (length (binlevel_data e)) else length (binlevel_data e))"
  using add_value_new_bin_level_iff_power_of_two [of 3 "[1, 2 :: int]" 3] by simp

text \<open>
  Claim C6 as stated (a level is appended exactly when \<open>k + 1\<close> is a power of two) fails
  at \<open>k = 2\<close>: the second value appends the second bin level, and \<open>3\<close> is not a power of
  two.
\<close>

theorem add_value_second_value_counterexample:
  "add_values [1 :: int] BinnedEstimate_init =
     Inr \<lparr>m_recent_acc = \<lparr>acc_sum = 1, acc_count = 1\<rparr>,
          m_cumulative_acc = \<lparr>acc_sum = 1, acc_count = 1\<rparr>,
          binlevel_data =
            [\<lparr>current_sum = 0, cumulative_sum = 1, cumulative_sum_squared = 1\<rparr>]\<rparr>
   \<and> add_value 2
        \<lparr>m_recent_acc = \<lparr>acc_sum = 1, acc_count = 1\<rparr>,
         m_cumulative_acc = \<lparr>acc_sum = 1, acc_count = 1\<rparr>,
         binlevel_data =
           [\<lparr>current_sum = 0, cumulative_sum = 1, cumulative_sum_squared = 1 :: int\<rparr>]\<rparr> =
     Inr \<lparr>m_recent_acc = \<lparr>acc_sum = 3, acc_count = 2\<rparr>,
          m_cumulative_acc = \<lparr>acc_sum = 3, acc_count = 2\<rparr>,
          binlevel_data =
            [\<lparr>current_sum = 0, cumulative_sum = 3, cumulative_sum_squared = 5\<rparr>,
             \<lparr>current_sum = 0, cumulative_sum = 3, cumulative_sum_squared = 9\<rparr>]\<rparr>
   \<and> \<not> is_power_of_two (2 + 1)"
proof -
  have "\<not> is_power_of_two (2 + 1)"
  proof
    assume "is_power_of_two (2 + 1)"
    then obtain m where m: "(3::nat) = 2 ^ m" by (auto simp: is_power_of_two_def)
    show False
    proof (cases m)
      case 0
      with m show False by simp
    next
      case (Suc m')
      with m have e: "(3::nat) = 2 * 2 ^ m'" by simp
      have "even (2 * 2 ^ m' :: nat)" by simp
      then have "even (3::nat)" unfolding e [symmetric] .
      then show False by simp
    qed
  qed
  then show ?thesis
    by (simp add: add_value_def BinnedEstimate_init_def accumulator_init_def
        is_just_below_a_power_of_two_def get_num_values_def get_total_value_def
        running_add_value_def accumulate_def BinnedSum_init_def shl_one_def
        add_to_current_def fold_bin_def Let_def)
qed

section \<open>Properties of the driver's input validation\<close>

lemma scan_keys_not_null: "scan_keys name keys j \<noteq> NullPtr"
  by (induction keys arbitrary: j) auto

lemma ensure_only_loop_accepts: "ensure_only_loop ms keys = Inr ()"
  by (induction ms) (auto simp: Let_def scan_keys_not_null)

text \<open>
  \<open>ensure_only\<close> never throws: the pointer it compares with \<open>NULL\<close> always points into
  the key table.
\<close>

lemma ensure_only_accepts: "isObject v \<Longrightarrow> ensure_only v keys = Inr ()"
  by (simp add: ensure_only_def ensure_only_loop_accepts)

text \<open>
  Claim C7 (an unrecognized key in a validated object makes the program exit with code 1
  and one line on stderr) against the code: the input \<open>input_with_unrecognized_key\<close> has
  the key \<open>bogus\<close> in its top-level object, which is none of the keys \<open>rng\<close> and
  \<open>system\<close> that \<open>main\<close> passes to \<open>ensure_only\<close>; the driver does not throw and goes on
  to the simulation.
\<close>

theorem unrecognized_key_is_accepted:
  "isMember input_with_unrecognized_key ''bogus''
   \<and> ''bogus'' \<notin> set [''rng'', ''system'']
   \<and> main_outcome input_with_unrecognized_key =
       Simulates
         \<lparr>seed = 1, lattice_size = [4],
          orbitals = \<lparr>boundary_conditions = [\<lparr>m_p = 1, m_phase = Finite 1\<rparr>],
                      filled_momenta = [[0]]\<rparr>\<rparr>"
  by (simp add: input_with_unrecognized_key_def main_outcome_def main_input_def and_then_def
      ensure_object_def ensure_required_def ensure_only_def  isMember_def member_def
      ensure_array_def ensure_array_length_def ensure_string_def do_simulation_input_def
      parse_json_orbitals_def parse_boundary_condition_def parse_momentum_index_def
      BoundaryCondition_of_def calculate_phase_def Let_def)

text \<open>
  Claim C8 (every positive integer \<open>n\<close> of the boundary-conditions array yields a
  boundary condition with twist \<open>1 / n\<close>) against the code: for \<open>n = 2\<close> the driver
  passes the validation of the entry and then constructs the boundary condition from the
  rational \<open>2\<close>, which fails the constructor's assertion \<open>p_ <= 1\<close>; the twist
  \<open>1 / 2\<close> that the claim names would have given the antiperiodic boundary condition.
\<close>

theorem denominator_two_fails_assertion:
  "parse_boundary_condition (JInt 2) = Inl AssertionFailed
   \<and> BoundaryCondition_of (1 / 2) = Inr antiperiodic_bc"
  by (simp add: parse_boundary_condition_def and_then_def BoundaryCondition_of_def
      antiperiodic_bc_def)

text \<open>Only the denominator 1 gets through: every other positive integer fails it.\<close>

lemma parse_boundary_condition_positive:
  "0 < n \<Longrightarrow> n < 2 ^ 31 \<Longrightarrow>
   parse_boundary_condition (JInt n) = (if n = 1 then Inr periodic_bc else Inl AssertionFailed)"
  by (auto simp add: parse_boundary_condition_def and_then_def BoundaryCondition_of_def
      periodic_bc_def)

section \<open>Properties of the lattice\<close>

text \<open>The equations that evaluate the lattice functions on concrete inputs.\<close>

lemmas lattice_eval =
  NDLattice_init_def count_total_sites_def u32_def u32_of_int_def int_of_u32_def and_then_def
  unit_move_def default_move_axes_def then_do_def site_from_index_def site_to_index_def
  total_sites_def site_is_valid_def checked_int_def c_rem_def enforce_boundary_def
  asm_subtract_site_vector_def asm_add_site_vector_def dim_phase_def
  wrap_upper.simps wrap_lower.simps wrap_basis.simps Let_def

lemma u32_of_int_pos: "0 \<le> l \<Longrightarrow> l < 2 ^ 32 \<Longrightarrow> u32_of_int l = nat l"
  by (simp add: u32_of_int_def)

lemma int_of_u32_small: "n < 2 ^ 31 \<Longrightarrow> int_of_u32 n = int n"
  by (simp add: int_of_u32_def)

lemma u32_small: "n < 2 ^ 32 \<Longrightarrow> u32 n = n"
  by (simp add: u32_def)

lemma nat_less_32: "int n < 2 ^ 31 \<Longrightarrow> n < 2 ^ 32"
  by simp

lemma nat_less_31: "int n < 2 ^ 31 \<Longrightarrow> n < 2 ^ 31"
  by simp

lemma nat_of_less_32: "i < 2 ^ 31 \<Longrightarrow> nat i < 2 ^ 32" for i :: int
  by simp

lemma nat_of_less_31: "i < 2 ^ 31 \<Longrightarrow> nat i < 2 ^ 31" for i :: int
  by simp

lemma prod_list_pos: "\<forall>l\<in>set ls. 0 < l \<Longrightarrow> 0 < prod_list ls" for ls :: "int list"
  by (induction ls) auto

lemma count_loop_pos:
  "count_total_sites_loop rv ls = Inr x \<Longrightarrow> \<forall>l\<in>set ls. 0 < l"
  by (induction ls arbitrary: rv) (auto split: if_splits)

lemma le_mult_prod:
  fixes l p :: int
  assumes "0 < l" "0 < p" "0 \<le> c"
  shows "c * l \<le> c * (l * p)"
proof -
  have "l * 1 \<le> l * p" using assms by (intro mult_left_mono) auto
  then show ?thesis using assms by (intro mult_left_mono) auto
qed

lemma count_loop_eq:
  "\<forall>l\<in>set ls. 0 < l \<Longrightarrow> 0 < rv \<Longrightarrow> int rv * prod_list ls < 2 ^ 31 \<Longrightarrow>
   count_total_sites_loop rv ls = Inr (rv * nat (prod_list ls))"
proof (induction ls arbitrary: rv)
  case Nil
  then show ?case by simp
next
  case (Cons l ls)
  have l: "0 < l" and ls: "\<forall>l\<in>set ls. 0 < l" using Cons.prems by auto
  have p: "0 < prod_list ls" using ls by (rule prod_list_pos)
  have b: "int rv * (l * prod_list ls) < 2 ^ 31" using Cons.prems by simp
  have "int rv * l \<le> int rv * (l * prod_list ls)" using l p by (intro le_mult_prod) auto
  then have rl: "int rv * l < 2 ^ 31" using b by simp
  have "1 * l \<le> int rv * l" using Cons.prems(2) l by (intro mult_right_mono) auto
  then have l31: "l < 2 ^ 31" using rl by simp
  have ul: "u32_of_int l = nat l" using l l31 by (intro u32_of_int_pos) auto
  have "int (rv * nat l) = int rv * l" using l by simp
  then have rvl: "int (rv * nat l) < 2 ^ 31" using rl by simp
  then have "rv * nat l < 2 ^ 32" by (rule nat_less_32)
  then have u: "u32 (rv * nat l) = rv * nat l" by (rule u32_small)
  have ih: "count_total_sites_loop (rv * nat l) ls = Inr (rv * nat l * nat (prod_list ls))"
  proof (rule Cons.IH [OF ls])
    show "0 < rv * nat l" using Cons.prems(2) l by simp
    show "int (rv * nat l) * prod_list ls < 2 ^ 31"
      using b l by (simp add: mult.assoc)
  qed
  have "nat (l * prod_list ls) = nat l * nat (prod_list ls)"
    using l p by (simp add: nat_mult_distrib)
  then show ?case using l ul u ih by (simp add: mult.assoc)
qed

lemma offsets_loop_eq:
  "\<forall>l\<in>set ls. 0 < l \<Longrightarrow> 0 < c \<Longrightarrow> int c * prod_list ls < 2 ^ 31 \<Longrightarrow>
   offsets_loop c ls = (radix_offsets c ls, c * nat (prod_list ls))"
proof (induction ls arbitrary: c)
  case Nil
  then show ?case by simp
next
  case (Cons l ls)
  have l: "0 < l" and ls: "\<forall>l\<in>set ls. 0 < l" using Cons.prems by auto
  have p: "0 < prod_list ls" using ls by (rule prod_list_pos)
  have b: "int c * (l * prod_list ls) < 2 ^ 31" using Cons.prems by simp
  have "int c * l \<le> int c * (l * prod_list ls)" using l p by (intro le_mult_prod) auto
  then have rl: "int c * l < 2 ^ 31" using b by simp
  have "1 * l \<le> int c * l" using Cons.prems(2) l by (intro mult_right_mono) auto
  then have l31: "l < 2 ^ 31" using rl by simp
  have ul: "u32_of_int l = nat l" using l l31 by (intro u32_of_int_pos) auto
  have cl: "int (c * nat l) = int c * l" using l by simp
  then have rvl: "int (c * nat l) < 2 ^ 31" using rl by simp
  then have "c * nat l < 2 ^ 32" by (rule nat_less_32)
  then have u: "u32 (c * nat l) = c * nat l" by (rule u32_small)
  have "int c * 1 \<le> int c * l" using l by (intro mult_left_mono) auto
  then have "int c < 2 ^ 31" using rl by simp
  then have c31: "c < 2 ^ 31" by (rule nat_less_31)
  have ih: "offsets_loop (c * nat l) ls = (radix_offsets (c * nat l) ls, c * nat l * nat (prod_list ls))"
  proof (rule Cons.IH [OF ls])
    show "0 < c * nat l" using Cons.prems(2) l by simp
    show "int (c * nat l) * prod_list ls < 2 ^ 31"
      using b l by (simp add: mult.assoc)
  qed
  have "nat (l * prod_list ls) = nat l * nat (prod_list ls)"
    using l p by (simp add: nat_mult_distrib)
  then show ?case using ul u ih c31 by (simp add: mult.assoc int_of_u32_small)
qed

lemma NDLattice_init_eq:
  assumes "NDLattice_init len bi = Inr lat" and "prod_list len * bi < 2 ^ 31"
  shows "lat = lattice_of len bi \<and> (\<forall>l\<in>set len. 0 < l) \<and> 0 < bi"
proof -
  from assms(1) obtain ts where ts: "count_total_sites len bi = Inr ts"
    by (auto simp: NDLattice_init_def and_then_def split: sum.splits)
  then obtain rv where rv: "count_total_sites_loop 1 len = Inr rv" and bi: "0 < bi"
    by (auto simp: count_total_sites_def and_then_def split: sum.splits if_splits)
  have pos: "\<forall>l\<in>set len. 0 < l" using rv by (rule count_loop_pos)
  have p: "0 < prod_list len" using pos by (rule prod_list_pos)
  have "prod_list len * 1 \<le> prod_list len * bi" using p bi by (intro mult_left_mono) auto
  then have p31: "prod_list len < 2 ^ 31" using assms(2) by simp
  have "1 * bi \<le> prod_list len * bi" using p bi by (intro mult_right_mono) auto
  then have bi31: "bi < 2 ^ 31" using assms(2) by simp
  have rv_eq: "rv = nat (prod_list len)"
    using count_loop_eq [OF pos, of 1] p31 rv by simp
  have ubi: "u32_of_int bi = nat bi" using bi bi31 by (intro u32_of_int_pos) auto
  have "nat (prod_list len) * nat bi = nat (prod_list len * bi)"
    using p bi by (simp add: nat_mult_distrib)
  moreover have "nat (prod_list len * bi) < 2 ^ 32" using assms(2) by (rule nat_of_less_32)
  ultimately have ts_eq: "ts = nat (prod_list len * bi)"
    using ts rv bi ubi by (simp add: count_total_sites_def and_then_def rv_eq u32_small)
  have off: "offsets_loop 1 len = (radix_offsets 1 len, nat (prod_list len))"
    using offsets_loop_eq [OF pos, of 1] p31 by simp
  have "nat (prod_list len) < 2 ^ 31" using p31 by (rule nat_of_less_31)
  then have "int_of_u32 (nat (prod_list len)) = prod_list len"
    using p by (simp add: int_of_u32_small)
  then have "lat = lattice_of len bi"
    using assms(1) ts off by (simp add: NDLattice_init_def and_then_def lattice_of_def ts_eq)
  then show ?thesis using pos bi by simp
qed

lemma coords_ok_Nil [simp]: "coords_ok [] []"
  by (simp add: coords_ok_def)

lemma coords_ok_Cons [simp]:
  "coords_ok (x # xs) (l # ls) = (0 \<le> x \<and> x < l \<and> coords_ok xs ls)"
  by (simp add: coords_ok_def)

lemma coords_ok_length: "coords_ok xs ls \<Longrightarrow> length xs = length ls"
  by (simp add: coords_ok_def list_all2_lengthD)

lemma coords_ok_iff_valid:
  "length xs = length ls \<Longrightarrow> coords_ok xs ls = coords_valid xs ls"
  by (induction xs ls rule: list_induct2) auto

lemma coords_ok_pos: "coords_ok xs ls \<Longrightarrow> \<forall>l\<in>set ls. 0 < l"
  unfolding coords_ok_def by (induction rule: list_all2_induct) auto

lemma encode_bounds: "coords_ok xs ls \<Longrightarrow> 0 \<le> encode xs ls \<and> encode xs ls < prod_list ls"
  unfolding coords_ok_def
proof (induction rule: list_all2_induct)
  case Nil
  then show ?case by simp
next
  case (Cons x xs l ls)
  have e: "0 \<le> encode xs ls" "encode xs ls + 1 \<le> prod_list ls" using Cons.IH by auto
  have "l * (encode xs ls + 1) \<le> l * prod_list ls"
    using e(2) Cons.hyps(1) by (intro mult_left_mono) auto
  then have "x + l * encode xs ls < l * prod_list ls"
    using Cons.hyps(1) by (simp add: algebra_simps)
  moreover have "0 \<le> l * encode xs ls" using e(1) Cons.hyps(1) by simp
  ultimately show ?case using Cons.hyps(1) by simp
qed

lemma site_to_index_loop_eq:
  "coords_ok xs ls \<Longrightarrow> n < c \<Longrightarrow> int c * prod_list ls < 2 ^ 31 \<Longrightarrow>
   site_to_index_loop n xs (radix_offsets c ls) = Inr (n + c * nat (encode xs ls))"
  unfolding coords_ok_def
proof (induction arbitrary: n c rule: list_all2_induct)
  case Nil
  then show ?case by simp
next
  case (Cons x xs l ls)
  have ok: "coords_ok xs ls" using Cons.hyps(2) by (simp add: coords_ok_def)
  have x: "0 \<le> x" "x < l" and l: "0 < l" using Cons.hyps(1) by auto
  have p: "0 < prod_list ls" using coords_ok_pos [OF ok] by (rule prod_list_pos)
  have enc: "0 \<le> encode xs ls" using encode_bounds [OF ok] by simp
  have b: "int c * (l * prod_list ls) < 2 ^ 31" using Cons.prems by simp
  have "int c * l \<le> int c * (l * prod_list ls)" using l p by (intro le_mult_prod) auto
  then have cl: "int c * l < 2 ^ 31" using b by simp
  have "x * int c \<le> l * int c" using x by (intro mult_right_mono) auto
  then have xc: "x * int c < 2 ^ 31" using cl by (simp add: mult.commute)
  have xc0: "0 \<le> x * int c" using x by simp
  have chk: "checked_int (x * int c) = Inr (x * int c)"
    using xc xc0 by (simp add: checked_int_def)
  have "nat (x * int c) = nat x * c" using x(1) by (simp add: nat_mult_distrib)
  then have u1: "u32_of_int (x * int c) = nat x * c"
    using xc xc0 by (simp add: u32_of_int_pos)
  have "nat x + 1 \<le> nat l" using x by simp
  then have "(nat x + 1) * c \<le> nat l * c" by (intro mult_right_mono) auto
  then have lt: "n + nat x * c < c * nat l"
    using Cons.prems(1) by (simp add: algebra_simps)
  have "int (c * nat l) = int c * l" using l by simp
  then have "int (c * nat l) < 2 ^ 31" using cl by simp
  then have "int (n + nat x * c) < 2 ^ 31" using lt by linarith
  then have u2: "u32 (n + nat x * c) = n + nat x * c"
    by (intro u32_small nat_less_32)
  have ih: "site_to_index_loop (n + nat x * c) xs (radix_offsets (c * nat l) ls)
            = Inr (n + nat x * c + c * nat l * nat (encode xs ls))"
  proof (rule Cons.IH)
    show "n + nat x * c < c * nat l" by (rule lt)
    show "int (c * nat l) * prod_list ls < 2 ^ 31" using b l by (simp add: mult.assoc)
  qed
  have "nat (x + l * encode xs ls) = nat x + nat l * nat (encode xs ls)"
    using x l enc by (simp add: nat_add_distrib nat_mult_distrib)
  then show ?case using chk u1 u2 ih by (simp add: and_then_def algebra_simps)
qed

lemma site_from_index_loop_eq:
  "\<forall>l\<in>set ls. 0 < l \<and> l < 2 ^ 31 \<Longrightarrow>
   site_from_index_loop n ls = Inr (digits n ls, n div nat (prod_list ls))"
proof (induction ls arbitrary: n)
  case Nil
  then show ?case by simp
next
  case (Cons l ls)
  have l: "0 < l" "l < 2 ^ 31" and ls: "\<forall>l\<in>set ls. 0 < l \<and> l < 2 ^ 31"
    using Cons.prems by auto
  have ul: "u32_of_int l = nat l" using l by (intro u32_of_int_pos) auto
  have "n mod nat l < nat l" using l by simp
  moreover have "nat l < 2 ^ 31" using l(2) by (rule nat_of_less_31)
  ultimately have "n mod nat l < 2 ^ 31" by simp
  then have m: "int_of_u32 (n mod nat l) = int (n mod nat l)" by (rule int_of_u32_small)
  have p: "0 < prod_list ls" using ls by (intro prod_list_pos) auto
  have "nat (l * prod_list ls) = nat l * nat (prod_list ls)"
    using l p by (simp add: nat_mult_distrib)
  then have d: "n div nat l div nat (prod_list ls) = n div nat (l * prod_list ls)"
    by (simp add: div_mult2_eq)
  show ?case using l ul m d Cons.IH [OF ls] by (simp add: and_then_def)
qed

lemma int_mod_nat_less: "0 < a \<Longrightarrow> int (n mod nat a) < a"
proof -
  assume a: "0 < a"
  then have "n mod nat a < nat a" by simp
  then have "int (n mod nat a) < int (nat a)" by (simp only: of_nat_less_iff)
  then show ?thesis using a by simp
qed

lemma digits_ok: "\<forall>l\<in>set ls. 0 < l \<Longrightarrow> coords_ok (digits n ls) ls"
  by (induction ls arbitrary: n) (auto simp: int_mod_nat_less)

lemma encode_digits:
  "\<forall>l\<in>set ls. 0 < l \<Longrightarrow>
   encode (digits n ls) ls + int (n div nat (prod_list ls)) * prod_list ls = int n"
proof (induction ls arbitrary: n)
  case Nil
  then show ?case by simp
next
  case (Cons l ls)
  have l: "0 < l" and ls: "\<forall>l\<in>set ls. 0 < l" using Cons.prems by auto
  have p: "0 < prod_list ls" using ls by (rule prod_list_pos)
  have np: "nat (l * prod_list ls) = nat l * nat (prod_list ls)"
    using l p by (simp add: nat_mult_distrib)
  have d: "n div nat (l * prod_list ls) = n div nat l div nat (prod_list ls)"
    unfolding np by (simp add: div_mult2_eq)
  have ih: "encode (digits (n div nat l) ls) ls
            + int (n div nat l div nat (prod_list ls)) * prod_list ls = int (n div nat l)"
    by (rule Cons.IH [OF ls])
  define A where "A = encode (digits (n div nat l) ls) ls"
  define B where "B = int (n div nat l div nat (prod_list ls))"
  define m where "m = int (n mod nat l)"
  have "n = n mod nat l + nat l * (n div nat l)" by simp
  then have "int n = int (n mod nat l) + int (nat l) * int (n div nat l)"
    by (metis of_nat_add of_nat_mult)
  then have "int n = m + l * int (n div nat l)" using l by (simp add: m_def)
  also have "\<dots> = m + l * (A + B * prod_list ls)"
    using ih by (simp add: A_def B_def)
  also have "\<dots> = m + l * A + B * (l * prod_list ls)"
    by (simp add: algebra_simps)
  finally have "m + l * A + B * (l * prod_list ls) = int n" by simp
  then show ?case
    unfolding digits.simps encode.simps prod_list.Cons d A_def B_def m_def .
qed

lemma digits_encode:
  "coords_ok xs ls \<Longrightarrow> 0 \<le> b \<Longrightarrow>
   digits (nat (encode xs ls + b * prod_list ls)) ls = xs
   \<and> nat (encode xs ls + b * prod_list ls) div nat (prod_list ls) = nat b"
  unfolding coords_ok_def
proof (induction rule: list_all2_induct)
  case Nil
  then show ?case by simp
next
  case (Cons x xs l ls)
  have ok: "coords_ok xs ls" using Cons.hyps(2) by (simp add: coords_ok_def)
  have x: "0 \<le> x" "x < l" and l: "0 < l" using Cons.hyps(1) by auto
  have p: "0 < prod_list ls" using coords_ok_pos [OF ok] by (rule prod_list_pos)
  have enc: "0 \<le> encode xs ls" using encode_bounds [OF ok] by simp
  define q where "q = encode xs ls + b * prod_list ls"
  have q0: "0 \<le> q" using enc Cons.prems p by (simp add: q_def)
  have n: "x + l * encode xs ls + b * (l * prod_list ls) = x + l * q"
    by (simp add: q_def algebra_simps)
  have nn: "nat (x + l * q) = nat x + nat l * nat q"
    using x l q0 by (simp add: nat_add_distrib nat_mult_distrib)
  have m: "nat (x + l * q) mod nat l = nat x" unfolding nn using x by simp
  have dv: "nat (x + l * q) div nat l = nat q" unfolding nn using x l by simp
  have np: "nat (l * prod_list ls) = nat l * nat (prod_list ls)"
    using l p by (simp add: nat_mult_distrib)
  have ih: "digits (nat q) ls = xs \<and> nat q div nat (prod_list ls) = nat b"
    unfolding q_def using Cons.IH Cons.prems by simp
  have "nat (x + l * q) div nat (l * prod_list ls) = nat q div nat (prod_list ls)"
    unfolding np by (simp add: div_mult2_eq dv)
  then show ?case using m dv ih x unfolding encode.simps prod_list.Cons n digits.simps by simp
qed

lemma le_prod_list: "\<forall>l\<in>set ls. 0 < l \<Longrightarrow> l \<in> set ls \<Longrightarrow> l \<le> prod_list ls" for l :: int
proof (induction ls)
  case Nil
  then show ?case by simp
next
  case (Cons a ls)
  have a: "0 < a" and ls: "\<forall>l\<in>set ls. 0 < l" using Cons.prems by auto
  have p: "0 < prod_list ls" using ls by (rule prod_list_pos)
  show ?case
  proof (cases "l = a")
    case True
    have "a * 1 \<le> a * prod_list ls" using a p by (intro mult_left_mono) auto
    then show ?thesis using True by simp
  next
    case False
    then have "l \<le> prod_list ls" using Cons by auto
    moreover have "1 * prod_list ls \<le> a * prod_list ls" using a p by (intro mult_right_mono) auto
    ultimately show ?thesis by simp
  qed
qed

lemma lattice_ok_facts:
  assumes "lattice_ok len bi"
  shows "\<forall>l\<in>set len. 0 < l \<and> l < 2 ^ 31" "0 < prod_list len" "prod_list len < 2 ^ 31"
    "0 < bi" "bi < 2 ^ 31"
proof -
  have pos: "\<forall>l\<in>set len. 0 < l" and bi: "0 < bi" and b: "prod_list len * bi < 2 ^ 31"
    using assms by (auto simp: lattice_ok_def)
  show p: "0 < prod_list len" using pos by (rule prod_list_pos)
  have "prod_list len * 1 \<le> prod_list len * bi" using p bi by (intro mult_left_mono) auto
  then show p31: "prod_list len < 2 ^ 31" using b by simp
  have "1 * bi \<le> prod_list len * bi" using p bi by (intro mult_right_mono) auto
  then show "bi < 2 ^ 31" using b by simp
  show "0 < bi" by (rule bi)
  show "\<forall>l\<in>set len. 0 < l \<and> l < 2 ^ 31"
  proof
    fix l assume l: "l \<in> set len"
    have "l \<le> prod_list len" using pos l by (rule le_prod_list)
    then show "0 < l \<and> l < 2 ^ 31" using p31 pos l by auto
  qed
qed

lemma site_wf_iff:
  "site_wf (lattice_of len bi) site =
   (coords_ok (site_bs site) len \<and> 0 \<le> basis_index site \<and> basis_index site < bi)"
proof (cases "length (site_bs site) = length len")
  case True
  then show ?thesis
    by (auto simp: site_wf_def site_is_valid_def lattice_of_def coords_ok_iff_valid)
next
  case False
  then show ?thesis
    by (auto simp: site_wf_def lattice_of_def dest: coords_ok_length)
qed

lemma site_from_index_eq:
  assumes ok: "lattice_ok len bi" and n: "n < nat (prod_list len * bi)"
  shows "site_from_index (lattice_of len bi) n =
           Inr \<lparr>site_bs = digits n len, basis_index = int (n div nat (prod_list len))\<rparr>"
    and "site_wf (lattice_of len bi)
           \<lparr>site_bs = digits n len, basis_index = int (n div nat (prod_list len))\<rparr>"
proof -
  note f = lattice_ok_facts [OF ok]
  have pos: "\<forall>l\<in>set len. 0 < l" using f(1) by auto
  have np: "nat (prod_list len * bi) = nat bi * nat (prod_list len)"
    using f by (simp add: nat_mult_distrib mult.commute)
  have "n div nat (prod_list len) < nat bi"
    using n f(2) unfolding np by (simp add: less_mult_imp_div_less)
  then have q: "int (n div nat (prod_list len)) < bi" by simp
  then have "int (n div nat (prod_list len)) < 2 ^ 31" using f(5) by simp
  then have q31: "n div nat (prod_list len) < 2 ^ 31" by (rule nat_less_31)
  show wf: "site_wf (lattice_of len bi)
           \<lparr>site_bs = digits n len, basis_index = int (n div nat (prod_list len))\<rparr>"
    using q digits_ok [OF pos] by (simp add: site_wf_iff)
  then have v: "site_is_valid (lattice_of len bi)
           \<lparr>site_bs = digits n len, basis_index = int (n div nat (prod_list len))\<rparr>"
    by (simp add: site_wf_def)
  have loop: "site_from_index_loop n (length_d (lattice_of len bi))
          = Inr (digits n len, n div nat (prod_list len))"
    using site_from_index_loop_eq [OF f(1)] by (simp add: lattice_of_def)
  have ts: "total_sites (lattice_of len bi) = nat (prod_list len * bi)"
    by (simp add: total_sites_def lattice_of_def)
  show "site_from_index (lattice_of len bi) n =
           Inr \<lparr>site_bs = digits n len, basis_index = int (n div nat (prod_list len))\<rparr>"
    unfolding site_from_index_def loop ts using n v
    by (simp add: and_then_def int_of_u32_small [OF q31])
qed

lemma index_of_less:
  assumes ok: "lattice_ok len bi" and wf: "site_wf (lattice_of len bi) site"
  shows "index_of (lattice_of len bi) site < nat (prod_list len * bi)"
proof -
  note f = lattice_ok_facts [OF ok]
  have c: "coords_ok (site_bs site) len" and b: "0 \<le> basis_index site" "basis_index site < bi"
    using wf by (auto simp: site_wf_iff)
  have e: "0 \<le> encode (site_bs site) len" "encode (site_bs site) len < prod_list len"
    using encode_bounds [OF c] by auto
  have "(basis_index site + 1) * prod_list len \<le> bi * prod_list len"
    using b f(2) by (intro mult_right_mono) auto
  then have "encode (site_bs site) len + basis_index site * prod_list len < prod_list len * bi"
    using e by (simp add: algebra_simps)
  moreover have "0 \<le> encode (site_bs site) len + basis_index site * prod_list len"
    using e b f(2) by simp
  ultimately show ?thesis by (simp add: index_of_def lattice_of_def)
qed

lemma site_to_index_eq:
  assumes ok: "lattice_ok len bi" and wf: "site_wf (lattice_of len bi) site"
  shows "site_to_index (lattice_of len bi) site = Inr (index_of (lattice_of len bi) site)"
proof -
  note f = lattice_ok_facts [OF ok]
  let ?lat = "lattice_of len bi"
  let ?e = "encode (site_bs site) len"
  let ?b = "basis_index site"
  let ?P = "prod_list len"
  have c: "coords_ok (site_bs site) len" and b: "0 \<le> ?b" "?b < bi"
    using wf by (auto simp: site_wf_iff)
  have e: "0 \<le> ?e" "?e < ?P" using encode_bounds [OF c] by auto
  have v: "site_is_valid ?lat site" using wf by (simp add: site_wf_def)
  have loop: "site_to_index_loop 0 (site_bs site) (offset ?lat) = Inr (nat ?e)"
    using site_to_index_loop_eq [OF c, of 0 1] f(3) by (simp add: lattice_of_def)
  have bp0: "0 \<le> ?b * ?P" using b f(2) by simp
  have "?b * ?P \<le> bi * ?P" using b f(2) by (intro mult_right_mono) auto
  then have bp: "?b * ?P < 2 ^ 31" using ok by (simp add: lattice_ok_def mult.commute)
  have chk: "checked_int (?b * basis_offset ?lat) = Inr (?b * ?P)"
    using bp bp0 by (simp add: checked_int_def lattice_of_def)
  have il: "index_of ?lat site < nat (?P * bi)" using ok wf by (rule index_of_less)
  have idx: "index_of ?lat site = nat ?e + nat (?b * ?P)"
    using e bp0 by (simp add: index_of_def lattice_of_def nat_add_distrib)
  have "?P * bi < 2 ^ 31" using ok by (simp add: lattice_ok_def)
  then have "nat (?P * bi) < 2 ^ 32" by (rule nat_of_less_32)
  then have "index_of ?lat site < 2 ^ 32" using il by simp
  then have u: "u32 (nat ?e + u32_of_int (?b * ?P)) = index_of ?lat site"
    using bp bp0 by (simp add: idx u32_of_int_pos u32_small)
  have de: "digits (index_of ?lat site) len = site_bs site
            \<and> index_of ?lat site div nat ?P = nat ?b"
    using digits_encode [OF c b(1)] by (simp add: index_of_def lattice_of_def)
  have rt: "site_from_index ?lat (index_of ?lat site) = Inr site"
    using site_from_index_eq(1) [OF ok il] de b by simp
  show ?thesis
    unfolding site_to_index_def loop
    using v chk u rt by (simp add: and_then_def)
qed

lemma site_to_from_index:
  assumes ok: "lattice_ok len bi" and n: "n < nat (prod_list len * bi)"
  shows "site_to_index (lattice_of len bi)
           \<lparr>site_bs = digits n len, basis_index = int (n div nat (prod_list len))\<rparr> = Inr n"
proof -
  note f = lattice_ok_facts [OF ok]
  have pos: "\<forall>l\<in>set len. 0 < l" using f(1) by auto
  have "index_of (lattice_of len bi)
           \<lparr>site_bs = digits n len, basis_index = int (n div nat (prod_list len))\<rparr> = n"
    using encode_digits [OF pos, of n] by (simp add: index_of_def lattice_of_def)
  then show ?thesis
    using site_to_index_eq [OF ok site_from_index_eq(2) [OF ok n]] by simp
qed

lemma upper_step:
  assumes "0 < L" "L \<le> x"
  shows "upper_count L x = Suc (upper_count L (x - L))" "upper_value L x = upper_value L (x - L)"
proof -
  define q where "q = (x - L) div L"
  define r where "r = (x - L) mod L"
  have d: "x div L = q + 1" unfolding q_def using assms div_pos_geq by blast
  have m: "x mod L = r" unfolding r_def by simp
  have nx: "\<not> x < L" using assms by simp
  show "upper_count L x = Suc (upper_count L (x - L))"
  proof (cases "x - L < L")
    case True
    then have "q = 0" unfolding q_def using assms by (intro div_pos_pos_trivial) auto
    then have "nat (q + 1) = Suc 0" by simp
    then show ?thesis
      unfolding upper_count_def d using True nx by (simp only: if_True if_False)
  next
    case False
    then have "0 \<le> q" unfolding q_def using assms by (simp add: pos_imp_zdiv_nonneg_iff)
    then have "nat (q + 1) = Suc (nat q)" by simp
    then show ?thesis
      unfolding upper_count_def d q_def [symmetric] using False nx by (simp only: if_False)
  qed
  show "upper_value L x = upper_value L (x - L)"
  proof (cases "x - L < L")
    case True
    then have "r = x - L" unfolding r_def using assms by (intro mod_pos_pos_trivial) auto
    then show ?thesis
      unfolding upper_value_def m using True nx by (simp only: if_True if_False)
  next
    case False
    then show ?thesis
      unfolding upper_value_def m r_def [symmetric] using nx by (simp only: if_False)
  qed
qed

lemma lower_step:
  assumes "0 < L" "x < 0"
  shows "lower_count L x = Suc (lower_count L (x + L))" "lower_value L x = lower_value L (x + L)"
proof -
  define q where "q = (x + L) div L"
  define r where "r = (x + L) mod L"
  have d: "x div L = q - 1" unfolding q_def using assms by (simp add: add.commute div_add_self1)
  have m: "x mod L = r" unfolding r_def by simp
  have nx: "\<not> 0 \<le> x" using assms by simp
  show "lower_count L x = Suc (lower_count L (x + L))"
  proof (cases "0 \<le> x + L")
    case True
    then have "q = 0" unfolding q_def using assms by (intro div_pos_pos_trivial) auto
    then have "nat (- (q - 1)) = Suc 0" by simp
    then show ?thesis
      unfolding lower_count_def d using True nx by (simp only: if_True if_False)
  next
    case False
    then have "q < 0" unfolding q_def using assms by (intro div_neg_pos_less0) auto
    then have "nat (- (q - 1)) = Suc (nat (- q))" by simp
    then show ?thesis
      unfolding lower_count_def d q_def [symmetric] using False nx by (simp only: if_False)
  qed
  show "lower_value L x = lower_value L (x + L)"
  proof (cases "0 \<le> x + L")
    case True
    then have "r = x + L" unfolding r_def using assms by (intro mod_pos_pos_trivial) auto
    then show ?thesis
      unfolding lower_value_def m using True nx by (simp only: if_True if_False)
  next
    case False
    then show ?thesis
      unfolding lower_value_def m r_def [symmetric] using nx by (simp only: if_False)
  qed
qed

lemma wrap_upper_eq:
  "0 < L \<Longrightarrow>
   wrap_upper L ph x pc =
     Some (case phase_times_n ph (upper_count L x) pc of
             Inl e \<Rightarrow> Inl e
           | Inr pc' \<Rightarrow> Inr (upper_value L x, pc'))"
proof (induction "nat x" arbitrary: x pc rule: less_induct)
  case less
  show ?case
  proof (cases "L \<le> x")
    case False
    then show ?thesis
      by (subst wrap_upper.simps) (simp add: upper_count_def upper_value_def)
  next
    case True
    note st = upper_step [OF less.prems True]
    have lt: "nat (x - L) < nat x" using True less.prems by simp
    note ih = less.hyps [OF lt less.prems]
    show ?thesis
    proof (cases ph)
      case None
      then show ?thesis using True ih [of pc]
        by (subst wrap_upper.simps) (simp add: st cong: sum.case_cong)
    next
      case (Some a)
      then show ?thesis
      proof (cases a)
        case (Inl e)
        then show ?thesis using True Some
          by (subst wrap_upper.simps) (simp add: st cong: sum.case_cong)
      next
        case (Inr p)
        then show ?thesis using True Some ih [of "phase_times pc p"]
          by (subst wrap_upper.simps) (simp add: st cong: sum.case_cong)
      qed
    qed
  qed
qed

lemma wrap_lower_eq:
  "0 < L \<Longrightarrow>
   wrap_lower L ph x pc =
     Some (case phase_divide_n ph (lower_count L x) pc of
             Inl e \<Rightarrow> Inl e
           | Inr pc' \<Rightarrow> Inr (lower_value L x, pc'))"
proof (induction "nat (- x)" arbitrary: x pc rule: less_induct)
  case less
  show ?case
  proof (cases "x < 0")
    case False
    then show ?thesis
      by (subst wrap_lower.simps) (simp add: lower_count_def lower_value_def)
  next
    case True
    note st = lower_step [OF less.prems True]
    have lt: "nat (- (x + L)) < nat (- x)" using True less.prems by simp
    note ih = less.hyps [OF lt less.prems]
    show ?thesis
    proof (cases ph)
      case None
      then show ?thesis using True ih [of pc]
        by (subst wrap_lower.simps) (simp add: st cong: sum.case_cong)
    next
      case (Some a)
      then show ?thesis
      proof (cases a)
        case (Inl e)
        then show ?thesis using True Some
          by (subst wrap_lower.simps) (simp add: st cong: sum.case_cong)
      next
        case (Inr p)
        then show ?thesis using True Some ih [of "phase_divide pc p"]
          by (subst wrap_lower.simps) (simp add: st cong: sum.case_cong)
      qed
    qed
  qed
qed

lemma wrap_basis_eq: "0 < bi \<Longrightarrow> wrap_basis bi b = Some (lower_value bi b)"
proof (induction "nat (- b)" arbitrary: b rule: less_induct)
  case less
  show ?case
  proof (cases "b < 0")
    case False
    then show ?thesis by (subst wrap_basis.simps) (simp add: lower_value_def)
  next
    case True
    have lt: "nat (- (b + bi)) < nat (- b)" using True less.prems by simp
    show ?thesis using True less.hyps [OF lt less.prems] lower_step(2) [OF less.prems True]
      by (subst wrap_basis.simps) simp
  qed
qed

lemma upper_lower_value: "0 < L \<Longrightarrow> lower_value L (upper_value L x) = x mod L"
  by (auto simp: lower_value_def upper_value_def)

lemma c_rem_nonneg: "0 \<le> v \<Longrightarrow> 0 < bi \<Longrightarrow> c_rem v bi = v mod bi"
  by (cases "v = 0") (simp_all add: c_rem_def)

lemma c_rem_lower_value: "0 < bi \<Longrightarrow> c_rem (lower_value bi b) bi = b mod bi"
proof -
  assume bi: "0 < bi"
  have "0 \<le> lower_value bi b" using bi by (simp add: lower_value_def)
  then have "c_rem (lower_value bi b) bi = lower_value bi b mod bi"
    using bi by (rule c_rem_nonneg)
  then show ?thesis by (simp add: lower_value_def)
qed

lemma wrap_coords_simps [simp]:
  "wrap_coords [] ls = []" "wrap_coords xs [] = []"
  "wrap_coords (x # xs) (l # ls) = (x mod l) # wrap_coords xs ls"
  by (simp_all add: wrap_coords_def)

lemma phase_times_n_None [simp]: "phase_times_n None n pc = Inr pc"
  by (induction n) auto

lemma phase_divide_n_None [simp]: "phase_divide_n None n pc = Inr pc"
  by (induction n) auto

lemma enforce_dims_None:
  "\<forall>l\<in>set ls. 0 < l \<Longrightarrow>
   enforce_dims ls None d xs pc = Some (Inr (wrap_coords xs ls, pc))"
proof (induction ls arbitrary: d xs pc)
  case Nil
  then show ?case by simp
next
  case (Cons l ls)
  have l: "0 < l" and ls: "\<forall>l\<in>set ls. 0 < l" using Cons.prems by auto
  show ?case
  proof (cases xs)
    case Nil
    then show ?thesis by simp
  next
    case (Cons x xs')
    have u: "wrap_upper l None x pc = Some (Inr (upper_value l x, pc))"
      by (simp add: wrap_upper_eq [OF l])
    have lo: "wrap_lower l None (upper_value l x) pc = Some (Inr (x mod l, pc))"
      by (simp add: wrap_lower_eq [OF l] upper_lower_value [OF l])
    show ?thesis
      using u lo Cons.IH [OF ls] Cons by (simp add: dim_phase_def then_do_def)
  qed
qed

lemma coords_ok_wrap: "coords_ok xs ls \<Longrightarrow> wrap_coords xs ls = xs"
  unfolding coords_ok_def by (induction rule: list_all2_induct) auto

lemma wrap_coords_ok:
  "length xs = length ls \<Longrightarrow> \<forall>l\<in>set ls. 0 < l \<Longrightarrow> coords_ok (wrap_coords xs ls) ls"
  by (induction xs ls rule: list_induct2) auto

lemma enforce_boundary_None:
  assumes ok: "lattice_ok len bi" and len: "length (site_bs site) = length len"
  shows "enforce_boundary (lattice_of len bi) site None =
    Some (Inr (\<lparr>site_bs = wrap_coords (site_bs site) len,
                 basis_index = basis_index site mod bi\<rparr>, Finite 1))"
proof -
  note f = lattice_ok_facts [OF ok]
  have pos: "\<forall>l\<in>set len. 0 < l" using f(1) by auto
  have wf: "site_wf (lattice_of len bi) \<lparr>site_bs = wrap_coords (site_bs site) len,
                 basis_index = basis_index site mod bi\<rparr>"
    using wrap_coords_ok [OF len pos] f(4) by (simp add: site_wf_iff)
  then have v: "site_is_valid (lattice_of len bi) \<lparr>site_bs = wrap_coords (site_bs site) len,
                 basis_index = basis_index site mod bi\<rparr>"
    by (simp add: site_wf_def)
  have bi0: "bi \<noteq> 0" using f(4) by simp
  show ?thesis
    unfolding enforce_boundary_def
    using v bi0
    by (simp add: lattice_of_def enforce_dims_None [OF pos] then_do_def wrap_basis_eq [OF f(4)]
        c_rem_lower_value [OF f(4)])
qed

lemma list_all_replicate_update:
  "list_all (\<lambda>y. y = 0 \<or> y = 1) ((replicate n (0::int))[i := 1])"
  by (auto simp: list_all_iff dest!: set_update_subset_insert [THEN subsetD])

lemma default_move_axes_unit:
  assumes "a < length (default_move_axes n bi)"
  shows "unit_steps n (default_move_axes n bi ! a)"
proof (cases "a < n")
  case True
  then have "default_move_axes n bi ! a = unit_move n a"
    by (simp add: default_move_axes_def nth_append)
  then show ?thesis
    by (simp add: unit_steps_def unit_move_def list_all_replicate_update)
next
  case False
  then have "default_move_axes n bi ! a = \<lparr>bravais_site = replicate n 0, move_basis_index = 1\<rparr>"
    using assms by (auto simp: default_move_axes_def nth_append split: if_splits)
  then show ?thesis by (simp add: unit_steps_def list_all_iff)
qed

lemma step_vector_eq:
  assumes "dir = - 1 \<or> dir = 1"
  shows "length xs = length ys \<Longrightarrow> list_all (\<lambda>x. 0 \<le> x \<and> x < 2 ^ 31 - 1) xs \<Longrightarrow>
    list_all (\<lambda>y. y = 0 \<or> y = 1) ys \<Longrightarrow>
    step_vector dir xs ys = Inr (map2 (\<lambda>x y. x + dir * y) xs ys)"
proof (induction xs ys rule: list_induct2)
  case Nil
  then show ?case by simp
next
  case (Cons x xs y ys)
  have ih: "step_vector dir xs ys = Inr (map2 (\<lambda>x y. x + dir * y) xs ys)"
    using Cons by simp
  have x: "0 \<le> x" "x < 2 ^ 31 - 1" and y: "y = 0 \<or> y = 1" using Cons.prems by auto
  have c1: "checked_int (dir * y) = Inr (dir * y)"
    using assms y by (auto simp: checked_int_def)
  have c2: "checked_int (x + dir * y) = Inr (x + dir * y)"
    using assms x y by (auto simp: checked_int_def)
  show ?case using c1 c2 ih by (simp add: and_then_def)
qed

lemma coords_ok_small:
  "coords_ok xs ls \<Longrightarrow> \<forall>l\<in>set ls. l < 2 ^ 31 \<Longrightarrow> list_all (\<lambda>x. 0 \<le> x \<and> x < 2 ^ 31 - 1) xs"
  unfolding coords_ok_def by (induction rule: list_all2_induct) auto

lemma move_site_eq:
  assumes ok: "lattice_ok len bi" and wf: "site_wf (lattice_of len bi) s"
    and a: "a < length (default_move_axes (length len) bi)"
    and dir: "dir = - 1 \<or> dir = 1"
  shows "move_site (lattice_of len bi) s a dir =
    Some (Inr \<lparr>site_bs = wrap_coords (map2 (\<lambda>x y. x + dir * y) (site_bs s)
                    (bravais_site (default_move_axes (length len) bi ! a))) len,
                basis_index = (basis_index s
                    + dir * move_basis_index (default_move_axes (length len) bi ! a)) mod bi\<rparr>)"
proof -
  note f = lattice_ok_facts [OF ok]
  let ?m = "default_move_axes (length len) bi ! a"
  have u: "unit_steps (length len) ?m" using a by (rule default_move_axes_unit)
  have c: "coords_ok (site_bs s) len" and b: "0 \<le> basis_index s" "basis_index s < bi"
    using wf by (auto simp: site_wf_iff)
  have ln: "length (site_bs s) = length (bravais_site ?m)"
    using coords_ok_length [OF c] u by (simp add: unit_steps_def)
  have sm: "list_all (\<lambda>x. 0 \<le> x \<and> x < 2 ^ 31 - 1) (site_bs s)"
    using c f(1) by (intro coords_ok_small) auto
  have sv: "step_vector dir (site_bs s) (bravais_site ?m)
            = Inr (map2 (\<lambda>x y. x + dir * y) (site_bs s) (bravais_site ?m))"
    using dir ln sm u by (intro step_vector_eq) (auto simp: unit_steps_def)
  have mb: "move_basis_index ?m = 0 \<or> move_basis_index ?m = 1"
    using u by (simp add: unit_steps_def)
  have c1: "checked_int (dir * move_basis_index ?m) = Inr (dir * move_basis_index ?m)"
    using dir mb by (auto simp: checked_int_def)
  have c2: "checked_int (basis_index s + dir * move_basis_index ?m)
            = Inr (basis_index s + dir * move_basis_index ?m)"
    using dir mb b f(5) by (auto simp: checked_int_def)
  have l2: "length (map2 (\<lambda>x y. x + dir * y) (site_bs s) (bravais_site ?m)) = length len"
    using ln coords_ok_length [OF c] by simp
  have eb: "enforce_boundary (lattice_of len bi)
      \<lparr>site_bs = map2 (\<lambda>x y. x + dir * y) (site_bs s) (bravais_site ?m),
       basis_index = basis_index s + dir * move_basis_index ?m\<rparr> None =
    Some (Inr (\<lparr>site_bs = wrap_coords (map2 (\<lambda>x y. x + dir * y) (site_bs s) (bravais_site ?m)) len,
                 basis_index = (basis_index s + dir * move_basis_index ?m) mod bi\<rparr>, Finite 1))"
    using enforce_boundary_None [OF ok, of "\<lparr>site_bs = map2 (\<lambda>x y. x + dir * y) (site_bs s) (bravais_site ?m),
       basis_index = basis_index s + dir * move_basis_index ?m\<rparr>"] l2 by simp
  have ma: "move_axes (lattice_of len bi) = default_move_axes (length len) bi"
    by (simp add: lattice_of_def)
  show ?thesis
    unfolding move_site_def ma Let_def
    using a dir sv c1 c2 eb by (auto simp: and_then_def then_do_def)
qed

lemma mod_step: "((x + a) mod l + b) mod l = (x + (a + b)) mod l" for x :: int
  by (metis add.assoc mod_add_left_eq)

lemma mod_period: "l dvd t \<Longrightarrow> (x + t) mod l = x mod l" for x :: int
  by (elim dvdE) simp

lemma wrap_step:
  "length xs = length ys \<Longrightarrow> length ys = length ls \<Longrightarrow>
   wrap_coords (map2 (\<lambda>x y. x + dir * y) (wrap_coords (map2 (\<lambda>x y. x + k * y) xs ys) ls) ys) ls
   = wrap_coords (map2 (\<lambda>x y. x + (k + dir) * y) xs ys) ls"
proof (induction xs ys ls rule: list_induct3)
  case Nil
  then show ?case by simp
next
  case (Cons x xs y ys l ls)
  have "((x + k * y) mod l + dir * y) mod l = (x + (k + dir) * y) mod l"
    unfolding mod_step by (simp add: algebra_simps)
  then show ?case using Cons.IH by simp
qed

lemma wrap_period:
  "length xs = length ys \<Longrightarrow> length ys = length ls \<Longrightarrow> \<forall>l\<in>set ls. l dvd n \<Longrightarrow>
   wrap_coords (map2 (\<lambda>x y. x + (dir * n) * y) xs ys) ls = wrap_coords xs ls"
proof (induction xs ys ls rule: list_induct3)
  case Nil
  then show ?case by simp
next
  case (Cons x xs y ys l ls)
  have "l dvd dir * n * y" using Cons.prems by simp
  then have "(x + dir * n * y) mod l = x mod l" by (rule mod_period)
  then show ?case using Cons by simp
qed

lemma dvd_prod_list: "l \<in> set ls \<Longrightarrow> l dvd prod_list ls" for l :: int
  by (induction ls) auto

lemma translate_wf:
  assumes ok: "lattice_ok len bi" and wf: "site_wf (lattice_of len bi) s"
    and u: "unit_steps (length len) m"
  shows "site_wf (lattice_of len bi) (translate len bi s m k)"
proof -
  note f = lattice_ok_facts [OF ok]
  have pos: "\<forall>l\<in>set len. 0 < l" using f(1) by auto
  have c: "coords_ok (site_bs s) len" using wf by (simp add: site_wf_iff)
  have "length (map2 (\<lambda>x y. x + k * y) (site_bs s) (bravais_site m)) = length len"
    using coords_ok_length [OF c] u by (simp add: unit_steps_def)
  then show ?thesis
    using wrap_coords_ok [OF _ pos] f(4) by (simp add: site_wf_iff translate_def)
qed

lemma translate_period:
  assumes ok: "lattice_ok len bi" and wf: "site_wf (lattice_of len bi) s"
    and u: "unit_steps (length len) m"
  shows "translate len bi s m (dir * (prod_list len * bi)) = s"
proof -
  note f = lattice_ok_facts [OF ok]
  have c: "coords_ok (site_bs s) len" and b: "0 \<le> basis_index s" "basis_index s < bi"
    using wf by (auto simp: site_wf_iff)
  have l1: "length (site_bs s) = length (bravais_site m)"
    using coords_ok_length [OF c] u by (simp add: unit_steps_def)
  have l2: "length (bravais_site m) = length len" using u by (simp add: unit_steps_def)
  have dv: "\<forall>l\<in>set len. l dvd prod_list len * bi" by (simp add: dvd_prod_list)
  have co: "wrap_coords (map2 (\<lambda>x y. x + (dir * (prod_list len * bi)) * y) (site_bs s)
                (bravais_site m)) len = site_bs s"
    using wrap_period [OF l1 l2 dv] coords_ok_wrap [OF c] by simp
  have "bi dvd dir * (prod_list len * bi) * move_basis_index m" by simp
  then have "(basis_index s + dir * (prod_list len * bi) * move_basis_index m) mod bi
             = basis_index s mod bi"
    by (rule mod_period)
  also have "\<dots> = basis_index s" using b by simp
  finally show ?thesis using co by (simp add: translate_def)
qed

lemma move_site_translate:
  assumes ok: "lattice_ok len bi" and wf: "site_wf (lattice_of len bi) s"
    and a: "a < length (default_move_axes (length len) bi)"
    and dir: "dir = - 1 \<or> dir = 1"
  shows "move_site (lattice_of len bi) (translate len bi s (default_move_axes (length len) bi ! a) k) a dir
         = Some (Inr (translate len bi s (default_move_axes (length len) bi ! a) (k + dir)))"
proof -
  let ?m = "default_move_axes (length len) bi ! a"
  have u: "unit_steps (length len) ?m" using a by (rule default_move_axes_unit)
  have c: "coords_ok (site_bs s) len" using wf by (simp add: site_wf_iff)
  have l1: "length (site_bs s) = length (bravais_site ?m)"
    using coords_ok_length [OF c] u by (simp add: unit_steps_def)
  have l2: "length (bravais_site ?m) = length len" using u by (simp add: unit_steps_def)
  have b: "((basis_index s + k * move_basis_index ?m) mod bi + dir * move_basis_index ?m) mod bi
           = (basis_index s + (k + dir) * move_basis_index ?m) mod bi"
    unfolding mod_step by (simp add: algebra_simps)
  show ?thesis
    using move_site_eq [OF ok translate_wf [OF ok wf u] a dir, of k]
    by (simp add: translate_def wrap_step [OF l1 l2] b)
qed

lemma plan_loop_terminates:
  assumes ok: "lattice_ok len bi" and wf: "site_wf (lattice_of len bi) s"
    and a: "a < length (default_move_axes (length len) bi)"
    and dir: "dir = - 1 \<or> dir = 1"
    and rp: "site_to_index (lattice_of len bi) s = Inr rp"
  shows "k < nat (prod_list len * bi) \<Longrightarrow>
    \<exists>idx. plan_loop (lattice_of len bi) r rp a dir
             (translate len bi s (default_move_axes (length len) bi ! a) (dir * int k))
           = Some (Inr idx) \<and> (\<not> is_occupied r idx \<or> idx = rp)"
proof (induction "nat (prod_list len * bi) - k" arbitrary: k)
  case 0
  then show ?case by simp
next
  case (Suc j)
  let ?lat = "lattice_of len bi"
  let ?m = "default_move_axes (length len) bi ! a"
  let ?N = "nat (prod_list len * bi)"
  note f = lattice_ok_facts [OF ok]
  have u: "unit_steps (length len) ?m" using a by (rule default_move_axes_unit)
  have mv: "move_site ?lat (translate len bi s ?m (dir * int k)) a dir
            = Some (Inr (translate len bi s ?m (dir * int (Suc k))))"
    using move_site_translate [OF ok wf a dir, of "dir * int k"] by (simp add: algebra_simps)
  have wf': "site_wf ?lat (translate len bi s ?m (dir * int (Suc k)))"
    using ok wf u by (rule translate_wf)
  have ti: "site_to_index ?lat (translate len bi s ?m (dir * int (Suc k)))
            = Inr (index_of ?lat (translate len bi s ?m (dir * int (Suc k))))"
    using ok wf' by (rule site_to_index_eq)
  show ?case
  proof (cases "Suc k = ?N")
    case True
    have "int (Suc k) = prod_list len * bi" using True f by simp
    then have "translate len bi s ?m (dir * int (Suc k)) = s"
      using translate_period [OF ok wf u, of dir] by simp
    then have "index_of ?lat (translate len bi s ?m (dir * int (Suc k))) = rp"
      using ti rp by simp
    then show ?thesis
      using mv ti by (subst plan_loop.simps) simp
  next
    case False
    then have lt: "Suc k < ?N" using Suc.prems by simp
    have j: "j = ?N - Suc k" using Suc.hyps(2) by simp
    from Suc.hyps(1) [OF j lt]
    obtain idx where idx: "plan_loop ?lat r rp a dir (translate len bi s ?m (dir * int (Suc k)))
           = Some (Inr idx)" "\<not> is_occupied r idx \<or> idx = rp"
      by blast
    show ?thesis
      using mv ti idx by (subst plan_loop.simps) auto
  qed
qed

lemma two_site_chain_init: "NDLattice_init [2] 1 = Inr two_site_chain"
  by (simp add: two_site_chain_def lattice_eval)

lemma map2_fst: "length xs = length ys \<Longrightarrow> map2 (\<lambda>x y. x) xs ys = xs"
  by (induction xs ys rule: list_induct2) auto

lemma translate_0:
  assumes ok: "lattice_ok len bi" and wf: "site_wf (lattice_of len bi) s"
    and u: "unit_steps (length len) m"
  shows "translate len bi s m 0 = s"
proof -
  have c: "coords_ok (site_bs s) len" and b: "0 \<le> basis_index s" "basis_index s < bi"
    using wf by (auto simp: site_wf_iff)
  have l1: "length (site_bs s) = length (bravais_site m)"
    using coords_ok_length [OF c] u by (simp add: unit_steps_def)
  show ?thesis using b coords_ok_wrap [OF c] by (simp add: translate_def map2_fst [OF l1])
qed

lemma move_site_repeat_translate:
  assumes ok: "lattice_ok len bi" and wf: "site_wf (lattice_of len bi) s"
    and a: "a < length (default_move_axes (length len) bi)"
    and dir: "dir = - 1 \<or> dir = 1"
  shows "move_site_repeat (lattice_of len bi)
           (translate len bi s (default_move_axes (length len) bi ! a) k) a dir n
         = Some (Inr (translate len bi s (default_move_axes (length len) bi ! a) (k + dir * int n)))"
proof (induction n arbitrary: k)
  case 0
  then show ?case by simp
next
  case (Suc n)
  show ?case
    using move_site_translate [OF ok wf a dir, of k] Suc [of "k + dir"]
    by (simp add: then_do_def algebra_simps)
qed

text \<open>
  Claim C10, as amended. For a lattice made by the constructor of \<open>NDLattice\<close> whose
  number of sites (the product of the lengths and the number of basis indices) fits into
  an \<open>int\<close>, a particle of \<open>r\<close> whose position is a site of the lattice,
  and any outcome of the two random draws: stepping from the particle's site along the
  chosen axis and direction comes back to that site after a positive number of steps, and
  \<open>plan_particle_move_to_nearby_empty_site_virtual\<close> returns (its \<open>do ... while\<close> loop
  ends, with no failure) a site index that is unoccupied or is the particle's own position.
\<close>

theorem plan_particle_move_terminates:
  assumes init: "NDLattice_init len bi = Inr lat"
    and bound: "prod_list len * bi < 2 ^ 31"
    and particle: "particle < get_N_filled r"
    and pos: "r_vector r ! particle < total_sites lat"
    and axis: "axis_draw < move_axes_count lat"
    and direction: "direction_draw = 0 \<or> direction_draw = 1"
  shows "(\<exists>site n. site_from_index lat (r_vector r ! particle) = Inr site \<and> 0 < n
            \<and> move_site_repeat lat site (if move_axes_count lat = 1 then 0 else axis_draw)
                 (direction_draw * 2 - 1) n = Some (Inr site))
       \<and> (\<exists>site_index.
            plan_particle_move_to_nearby_empty_site_virtual lat particle r axis_draw direction_draw
              = Some (Inr site_index)
            \<and> (\<not> is_occupied r site_index \<or> site_index = r_vector r ! particle))"
proof -
  from NDLattice_init_eq [OF init bound]
  have lat: "lat = lattice_of len bi" and ok: "lattice_ok len bi"
    using bound by (auto simp: lattice_ok_def)
  note f = lattice_ok_facts [OF ok]
  define rp where "rp = r_vector r ! particle"
  define a where "a = (if move_axes_count lat = 1 then 0 else axis_draw)"
  define dir where "dir = direction_draw * 2 - 1"
  define s where "s = \<lparr>site_bs = digits rp len, basis_index = int (rp div nat (prod_list len))\<rparr>"
  let ?m = "default_move_axes (length len) bi ! a"
  let ?N = "nat (prod_list len * bi)"
  have n: "rp < ?N" using pos by (simp add: rp_def lat total_sites_def lattice_of_def)
  have sf: "site_from_index (lattice_of len bi) rp = Inr s"
    and wf: "site_wf (lattice_of len bi) s"
    unfolding s_def using site_from_index_eq [OF ok n] by auto
  have ti: "site_to_index (lattice_of len bi) s = Inr rp"
    unfolding s_def using ok n by (rule site_to_from_index)
  have a: "a < length (default_move_axes (length len) bi)"
    using axis by (auto simp: a_def move_axes_count_def lat lattice_of_def)
  have dir: "dir = - 1 \<or> dir = 1" using direction by (auto simp: dir_def)
  have u: "unit_steps (length len) ?m" using a by (rule default_move_axes_unit)
  have t0: "translate len bi s ?m 0 = s" using ok wf u by (rule translate_0)
  have N0: "0 < ?N" using f by simp
  have "int ?N = prod_list len * bi" using f by simp
  then have "translate len bi s ?m (0 + dir * int ?N) = s"
    using translate_period [OF ok wf u, of dir] by simp
  then have rep: "move_site_repeat (lattice_of len bi) s a dir ?N = Some (Inr s)"
    using move_site_repeat_translate [OF ok wf a dir, of 0 ?N] t0 by simp
  from plan_loop_terminates [OF ok wf a dir ti N0, of r]
  obtain idx where idx: "plan_loop (lattice_of len bi) r rp a dir s = Some (Inr idx)"
    "\<not> is_occupied r idx \<or> idx = rp"
    using t0 by auto
  have po: "position_of r particle = Inr rp"
    using particle by (simp add: position_of_def get_N_filled_def rp_def)
  have pl: "plan_particle_move_to_nearby_empty_site_virtual (lattice_of len bi) particle r
              axis_draw direction_draw = Some (Inr idx)"
    using po sf idx(1)
    by (simp add: plan_particle_move_to_nearby_empty_site_virtual_def Let_def a_def dir_def lat)
  have c1: "\<exists>site n. site_from_index (lattice_of len bi) rp = Inr site \<and> 0 < n
            \<and> move_site_repeat (lattice_of len bi) site a dir n = Some (Inr site)"
    using sf N0 rep by blast
  have c2: "\<exists>site_index.
            plan_particle_move_to_nearby_empty_site_virtual (lattice_of len bi) particle r
              axis_draw direction_draw = Some (Inr site_index)
            \<and> (\<not> is_occupied r site_index \<or> site_index = rp)"
    using pl idx(2) by blast
  show ?thesis
    using c1 c2 unfolding rp_def a_def dir_def lat by (rule conjI)
qed

theorem plan_particle_move_terminates_witness:
  "(\<exists>site n. site_from_index two_site_chain 0 = Inr site \<and> 0 < n
       \<and> move_site_repeat two_site_chain site 0 1 n = Some (Inr site))
   \<and> (\<exists>site_index.
        plan_particle_move_to_nearby_empty_site_virtual two_site_chain 0
          \<lparr>r_vector = [0], N_sites = 2\<rparr> 0 1 = Some (Inr site_index)
        \<and> (\<not> is_occupied \<lparr>r_vector = [0], N_sites = 2\<rparr> site_index \<or> site_index = 0))"
  using plan_particle_move_terminates [OF two_site_chain_init, of 0 "\<lparr>r_vector = [0], N_sites = 2\<rparr>" 0 1]
  by (simp add: get_N_filled_def total_sites_def move_axes_count_def two_site_chain_def)

text \<open>
  Claim C10 as stated, for every \<open>NDLattice\<close>, fails where the number of sites does not
  fit: the constructor accepts the lengths 65536 and 65537 with three basis indices, and
  for the particle on site 0 the step along the basis index leads to the site with
  coordinates (0, 0) and basis index 1, whose index 65536 is also the index of the site
  with coordinates (0, 1) and basis index 0; the closing assertion of \<open>site_to_index\<close>
  fails inside the loop, and no site index is returned.
\<close>

theorem plan_particle_move_overflow_counterexample:
  "NDLattice_init [65536, 65537] 3 = Inr wide_lattice
   \<and> 0 < get_N_filled \<lparr>r_vector = [0], N_sites = 196608\<rparr>
   \<and> r_vector \<lparr>r_vector = [0], N_sites = 196608\<rparr> ! 0 < total_sites wide_lattice
   \<and> 2 < move_axes_count wide_lattice
   \<and> site_from_index wide_lattice 0 = Inr \<lparr>site_bs = [0, 0], basis_index = 0\<rparr>
   \<and> move_site wide_lattice \<lparr>site_bs = [0, 0], basis_index = 0\<rparr> 2 1
       = Some (Inr \<lparr>site_bs = [0, 0], basis_index = 1\<rparr>)
   \<and> site_from_index wide_lattice 65536 = Inr \<lparr>site_bs = [0, 1], basis_index = 0\<rparr>
   \<and> site_to_index wide_lattice \<lparr>site_bs = [0, 0], basis_index = 1\<rparr> = Inl AssertionFailed
   \<and> plan_particle_move_to_nearby_empty_site_virtual wide_lattice 0
        \<lparr>r_vector = [0], N_sites = 196608\<rparr> 2 1 = Some (Inl AssertionFailed)"
  by (simp add: wide_lattice_def lattice_eval move_site_def get_N_filled_def
      move_axes_count_def plan_particle_move_to_nearby_empty_site_virtual_def position_of_def
      plan_loop.simps)

lemma BoundaryCondition_of_constructed: "BoundaryCondition_of p = Inr bc \<Longrightarrow> bc_constructed bc"
  by (auto simp: BoundaryCondition_of_def bc_constructed_def split: if_splits)












lemma phase_divide_n_0: "phase_divide_n ph 0 pc = Inr pc"
  by simp
















lemma dims_phase_valid: "coords_ok xs ls \<Longrightarrow> dims_phase b d xs ls = 1"
  unfolding coords_ok_def by (induction arbitrary: d rule: list_all2_induct) auto

lemma coords_ok_nonneg: "coords_ok xs ls \<Longrightarrow> list_all (\<lambda>x. 0 \<le> x) xs"
  unfolding coords_ok_def by (induction rule: list_all2_induct) auto

lemma positive_wraps:
  "coords_ok s ls \<Longrightarrow> d < length s \<Longrightarrow>
   wrap_coords (s[d := s ! d + int w * ls ! d]) ls = s
   \<and> dims_phase b d0 (s[d := s ! d + int w * ls ! d]) ls = phase_of (b ! (d0 + d)) ^ w
   \<and> list_all (\<lambda>x. 0 \<le> x) (s[d := s ! d + int w * ls ! d])"
  unfolding coords_ok_def
proof (induction arbitrary: d d0 rule: list_all2_induct)
  case Nil
  then show ?case by simp
next
  case (Cons x xs l ls)
  have ok: "coords_ok xs ls" using Cons.hyps(2) by (simp add: coords_ok_def)
  have x: "0 \<le> x" "x < l" using Cons.hyps(1) by auto
  show ?case
  proof (cases d)
    case 0
    have l0: "l \<noteq> 0" using x by simp
    have m: "(x + int w * l) mod l = x" using x by simp
    have "(x + int w * l) div l = int w + x div l" using l0 by (rule div_mult_self1)
    then have dv: "(x + int w * l) div l = int w" using x by simp
    have "0 \<le> int w * l" using x by simp
    then have nn: "0 \<le> x + int w * l" using x by simp
    show ?thesis
      using 0 m dv nn coords_ok_wrap [OF ok] dims_phase_valid [OF ok] coords_ok_nonneg [OF ok]
      by (simp add: power_int_of_nat del: mod_mult_self1 mod_mult_self2)
  next
    case (Suc d')
    have d': "d' < length xs" using Suc Cons.prems by simp
    have m: "x mod l = x" "x div l = 0" using x by simp_all
    show ?thesis
      using Suc Cons.IH [OF d', of "Suc d0"] m x by simp
  qed
qed




lemma site_eq: "site_bs s' = site_bs s \<Longrightarrow> basis_index s' = basis_index s \<Longrightarrow> s' = s"
  for s s' :: Site
  by simp

text \<open>
  For a twist other than the periodic, the antiperiodic and the two quarter twists, the
  phase is a rounded value of \<open>std::exp\<close>, and the model leaves the accumulated phases
  undetermined: with \<open>p\<close> = 1/3 on the chain of two sites, adding the vector 1 to site 1
  and subtracting it again gives the site back, with two phases that depend on rounding.
\<close>

lemma third_twist_phase_undetermined:
  "BoundaryCondition_of (1 / 3) = Inr \<lparr>m_p = 1 / 3, m_phase = Rounded\<rparr>
   \<and> asm_add_site_vector two_site_chain \<lparr>site_bs = [1], basis_index = 0\<rparr> [1]
         (Some [\<lparr>m_p = 1 / 3, m_phase = Rounded\<rparr>])
       = Some (Inr (\<lparr>site_bs = [0], basis_index = 0\<rparr>, Rounded))
   \<and> asm_subtract_site_vector two_site_chain \<lparr>site_bs = [0], basis_index = 0\<rparr> [1]
         (Some [\<lparr>m_p = 1 / 3, m_phase = Rounded\<rparr>])
       = Some (Inr (\<lparr>site_bs = [1], basis_index = 0\<rparr>, Rounded))"
  by (simp add: two_site_chain_def lattice_eval BoundaryCondition_of_def bc_phase_def
      calculate_phase_def)




section \<open>Properties of the density-density measurement\<close>

lemma replicate_two: "replicate 2 x = [x, x]"
  by (simp add: numeral_2_eq_2)

text \<open>
  Claim C5 (a repeated step increases \<open>density_accum\<close> and \<open>denominator\<close> by the same
  amounts as the most recent advanced step) against the code, on the chain of two sites
  with one particle at site 0: the advanced step raises \<open>density_accum (0, 0)\<close> and
  \<open>denominator (0)\<close> from 0 to 1 and leaves the \<open>current\<close> arrays at zero, because
  \<open>measure_\<close> increments the accumulators themselves; the repeated step that follows
  adds the \<open>current\<close> arrays, that is nothing.
\<close>

theorem repeated_step_adds_nothing:
  "NDLattice_init [2] 1 = Inr two_site_chain
   \<and> initialize_measurement two_site_chain =
       Inr \<lparr>density_accum = [[0, 0]], current_density_accum = [[0, 0]],
            denominator = [0], current_denominator = [0]\<rparr>
   \<and> step_advanced two_site_chain \<lparr>r_vector = [0], N_sites = 2\<rparr>
         \<lparr>density_accum = [[0, 0]], current_density_accum = [[0, 0]],
          denominator = [0], current_denominator = [0]\<rparr> =
       Some (Inr \<lparr>density_accum = [[1, 0]], current_density_accum = [[0, 0]],
                  denominator = [1], current_denominator = [0]\<rparr>)
   \<and> step_repeated
         \<lparr>density_accum = [[1, 0]], current_density_accum = [[0, 0]],
          denominator = [1], current_denominator = [0]\<rparr> =
       \<lparr>density_accum = [[1, 0]], current_density_accum = [[0, 0]],
        denominator = [1], current_denominator = [0]\<rparr>"
  by (simp add: two_site_chain_def lattice_eval initialize_measurement_def step_advanced_def
      step_repeated_def measure_def repeat_measurement_def increment_at_def increment_at2_def
      replicate_two)

section \<open>Properties of the determinant engine\<close>

lemma matrix_eqI:
  "nrows a = nrows b \<Longrightarrow> ncols a = ncols b \<Longrightarrow> (\<And>i j. entry a i j = entry b i j) \<Longrightarrow> a = b"
  for a b :: "'a Matrix"
  by (cases a, cases b) (auto intro!: ext)

lemma set_row_simps [simp]:
  "nrows (set_row r v m) = nrows m" "ncols (set_row r v m) = ncols m"
  "entry (set_row r v m) i j = (if i = r \<and> j < ncols m then v ! j else entry m i j)"
  by (simp_all add: set_row_def)

lemma set_col_simps [simp]:
  "nrows (set_col c v m) = nrows m" "ncols (set_col c v m) = ncols m"
  "entry (set_col c v m) i j = (if j = c \<and> i < nrows m then v ! i else entry m i j)"
  by (simp_all add: set_col_def)

lemma resize_simps [simp]:
  "nrows (resize r c m) = r" "ncols (resize r c m) = c" "entry (resize r c m) = entry m"
  by (simp_all add: resize_def)

lemma get_row_nth [simp]: "j < ncols m \<Longrightarrow> get_row r m ! j = entry m r j"
  by (simp add: get_row_def)

lemma get_col_nth [simp]: "i < nrows m \<Longrightarrow> get_col c m ! i = entry m i c"
  by (simp add: get_col_def)

lemma calculate_inverse_keeps [simp]:
  "mat (calculate_inverse nu True s) = mat s"
  "invmat (calculate_inverse nu True s) = invmat s"
  "nullity_lower_bound (calculate_inverse nu True s) = nullity_lower_bound s"
  "old_det (calculate_inverse nu True s) = old_det s"
  "old_cols_m (calculate_inverse nu True s) = old_cols_m s"
  "old_rows_m (calculate_inverse nu True s) = old_rows_m s"
  "pending_index (calculate_inverse nu True s) = pending_index s"
  "pending_col_indices (calculate_inverse nu True s) = pending_col_indices s"
  "pending_row_indices (calculate_inverse nu True s) = pending_row_indices s"
  by (simp_all add: calculate_inverse_def Let_def)

lemma apply_detrat_keeps [simp]:
  "mat (apply_detrat nu s) = mat s"
  "invmat (apply_detrat nu s) = invmat s"
  "nullity_lower_bound (apply_detrat nu s) = nullity_lower_bound s"
  "old_det (apply_detrat nu s) = old_det s"
  "old_cols_m (apply_detrat nu s) = old_cols_m s"
  "old_rows_m (apply_detrat nu s) = old_rows_m s"
  "pending_index (apply_detrat nu s) = pending_index s"
  "pending_col_indices (apply_detrat nu s) = pending_col_indices s"
  "pending_row_indices (apply_detrat nu s) = pending_row_indices s"
  by (simp_all add: apply_detrat_def Let_def)

lemma decompose_ratio_matrix_keeps [simp]:
  "mat (decompose_ratio_matrix nu d s) = mat s"
  "invmat (decompose_ratio_matrix nu d s) = invmat s"
  "nullity_lower_bound (decompose_ratio_matrix nu d s) = nullity_lower_bound s"
  "old_det (decompose_ratio_matrix nu d s) = old_det s"
  "old_cols_m (decompose_ratio_matrix nu d s) = old_cols_m s"
  "old_rows_m (decompose_ratio_matrix nu d s) = old_rows_m s"
  "pending_index (decompose_ratio_matrix nu d s) = pending_index s"
  "pending_col_indices (decompose_ratio_matrix nu d s) = pending_col_indices s"
  "pending_row_indices (decompose_ratio_matrix nu d s) = pending_row_indices s"
  by (simp_all add: decompose_ratio_matrix_def Let_def)

lemma perform_singular_update_kept:
  assumes "big_is_zero nu (det s)" "new_nullity_lower_bound s = nullity_lower_bound s"
    "0 < nullity_lower_bound s"
  shows "\<exists>s'. perform_singular_update nu k s = Inr s' \<and> kept s s'"
  using assms by (simp add: perform_singular_update_def Let_def kept_def)

lemma update_tail:
  assumes z: "0 < nullity_lower_bound s \<Longrightarrow> big_is_zero nu (det s)"
    and n: "new_nullity_lower_bound s = nullity_lower_bound s" "0 \<le> nullity_lower_bound s"
    and k: "kept s t"
  shows "\<exists>s'. (if nullity_lower_bound s \<noteq> 0 then perform_singular_update nu r s
               else Inr (apply_detrat nu t)) = Inr s' \<and> kept s s'"
proof (cases "nullity_lower_bound s = 0")
  case True
  then show ?thesis using k by (simp add: kept_def)
next
  case False
  then have "0 < nullity_lower_bound s" using n by simp
  then show ?thesis using perform_singular_update_kept [OF z n(1)] False by simp
qed

lemma update_cols_loop_ok:
  assumes "distinct cs" "\<forall>c\<in>set cs. c < ncols (mat s)" "set cs \<inter> set earlier = {}"
    "nrows (old_cols_m s) = nrows (mat s)"
  shows "\<exists>s'. update_cols_loop i earlier cs srcmat s = Inr s'
    \<and> s' = s\<lparr>mat := mat s', old_cols_m := old_cols_m s', cols_offset_m := cols_offset_m s'\<rparr>
    \<and> nrows (mat s') = nrows (mat s) \<and> ncols (mat s') = ncols (mat s)
    \<and> nrows (old_cols_m s') = nrows (old_cols_m s)
    \<and> (\<forall>a b. b \<notin> set cs \<or> \<not> a < nrows (mat s) \<longrightarrow> entry (mat s') a b = entry (mat s) a b)
    \<and> (\<forall>a b. b < i \<longrightarrow> entry (old_cols_m s') a b = entry (old_cols_m s) a b)
    \<and> (\<forall>k a. k < length cs \<longrightarrow> a < nrows (mat s)
          \<longrightarrow> entry (old_cols_m s') a (i + k) = entry (mat s) a (cs ! k))"
  using assms
proof (induction cs arbitrary: i earlier s)
  case Nil
  then show ?case by simp
next
  case (Cons c cs)
  define s1 where "s1 = s\<lparr>old_cols_m := set_col i (get_col c (mat s)) (old_cols_m s)\<rparr>"
  define s2 where "s2 = s1\<lparr>cols_offset_m :=
                        set_col i (vec_sub (get_col c srcmat) (get_col c (mat s1)))
                          (cols_offset_m s1)\<rparr>"
  define s3 where "s3 = s2\<lparr>mat := set_col c
                        (vec_add (get_col c (mat s2)) (get_col i (cols_offset_m s2))) (mat s2)\<rparr>"
  have c: "c < ncols (mat s)" "c \<notin> set earlier" "c \<notin> set cs" using Cons.prems by auto
  have step: "update_cols_loop i earlier (c # cs) srcmat s
              = update_cols_loop (Suc i) (earlier @ [c]) cs srcmat s3"
    using c by (simp add: s1_def s2_def s3_def Let_def)
  have m3: "nrows (mat s3) = nrows (mat s)" "ncols (mat s3) = ncols (mat s)"
    "nrows (old_cols_m s3) = nrows (old_cols_m s)"
    by (simp_all add: s1_def s2_def s3_def)
  have e3: "\<And>a b. b \<noteq> c \<or> \<not> a < nrows (mat s) \<Longrightarrow> entry (mat s3) a b = entry (mat s) a b"
    by (auto simp: s1_def s2_def s3_def)
  have o3: "\<And>a b. entry (old_cols_m s3) a b
              = (if b = i \<and> a < nrows (mat s) then entry (mat s) a c else entry (old_cols_m s) a b)"
    using Cons.prems(4) by (simp add: s1_def s2_def s3_def)
  have r3: "s3 = s\<lparr>mat := mat s3, old_cols_m := old_cols_m s3, cols_offset_m := cols_offset_m s3\<rparr>"
    by (simp add: s1_def s2_def s3_def)
  have p: "distinct cs" "\<forall>c\<in>set cs. c < ncols (mat s3)" "set cs \<inter> set (earlier @ [c]) = {}"
    "nrows (old_cols_m s3) = nrows (mat s3)"
    using Cons.prems by (auto simp: m3)
  from Cons.IH [OF p, of "Suc i"] obtain s' where
    l: "update_cols_loop (Suc i) (earlier @ [c]) cs srcmat s3 = Inr s'"
    and r: "s' = s3\<lparr>mat := mat s', old_cols_m := old_cols_m s', cols_offset_m := cols_offset_m s'\<rparr>"
    and d: "nrows (mat s') = nrows (mat s3)" "ncols (mat s') = ncols (mat s3)"
      "nrows (old_cols_m s') = nrows (old_cols_m s3)"
    and e: "\<And>a b. b \<notin> set cs \<or> \<not> a < nrows (mat s3) \<Longrightarrow> entry (mat s') a b = entry (mat s3) a b"
    and ol: "\<And>a b. b < Suc i \<Longrightarrow> entry (old_cols_m s') a b = entry (old_cols_m s3) a b"
    and on: "\<And>k a. k < length cs \<Longrightarrow> a < nrows (mat s3)
          \<Longrightarrow> entry (old_cols_m s') a (Suc i + k) = entry (mat s3) a (cs ! k)"
    by blast
  have r': "s' = s\<lparr>mat := mat s', old_cols_m := old_cols_m s', cols_offset_m := cols_offset_m s'\<rparr>"
    by (subst r, subst r3) simp
  have e': "\<forall>a b. b \<notin> set (c # cs) \<or> \<not> a < nrows (mat s) \<longrightarrow> entry (mat s') a b = entry (mat s) a b"
    using e e3 by (auto simp: m3)
  have ol': "\<forall>a b. b < i \<longrightarrow> entry (old_cols_m s') a b = entry (old_cols_m s) a b"
    using ol o3 by simp
  have on': "\<forall>k a. k < length (c # cs) \<longrightarrow> a < nrows (mat s)
          \<longrightarrow> entry (old_cols_m s') a (i + k) = entry (mat s) a ((c # cs) ! k)"
  proof (intro allI impI)
    fix k a assume k: "k < length (c # cs)" and a: "a < nrows (mat s)"
    show "entry (old_cols_m s') a (i + k) = entry (mat s) a ((c # cs) ! k)"
    proof (cases k)
      case 0
      then show ?thesis using ol [of i a] o3 [of a i] a by simp
    next
      case (Suc k')
      then have k': "k' < length cs" using k by simp
      then have "cs ! k' \<noteq> c" using c(3) by (metis nth_mem)
      then show ?thesis using on [OF k', of a] e3 [of "cs ! k'" a] a Suc by (simp add: m3)
    qed
  qed
  show ?case unfolding step l using r' d e' ol' on' by (simp add: m3)
qed

lemma restore_cols_props:
  assumes "distinct cs" "nrows old = nrows m"
  shows "nrows (restore_cols i cs old m) = nrows m \<and> ncols (restore_cols i cs old m) = ncols m
    \<and> (\<forall>a b. b \<notin> set cs \<or> \<not> a < nrows m \<longrightarrow> entry (restore_cols i cs old m) a b = entry m a b)
    \<and> (\<forall>k a. k < length cs \<longrightarrow> a < nrows m
          \<longrightarrow> entry (restore_cols i cs old m) a (cs ! k) = entry old a (i + k))"
  using assms
proof (induction cs arbitrary: i m)
  case Nil
  then show ?case by simp
next
  case (Cons c cs)
  let ?m = "set_col c (get_col i old) m"
  have c: "c \<notin> set cs" "distinct cs" using Cons.prems by auto
  have n: "nrows old = nrows ?m" using Cons.prems by simp
  note ih = Cons.IH [OF c(2) n, of "Suc i"]
  have a1: "\<forall>a b. b \<notin> set (c # cs) \<or> \<not> a < nrows m
             \<longrightarrow> entry (restore_cols i (c # cs) old m) a b = entry m a b"
    using ih by auto
  have a2: "\<forall>k a. k < length (c # cs) \<longrightarrow> a < nrows m
          \<longrightarrow> entry (restore_cols i (c # cs) old m) a ((c # cs) ! k) = entry old a (i + k)"
  proof (intro allI impI)
    fix k a assume k: "k < length (c # cs)" and a: "a < nrows m"
    show "entry (restore_cols i (c # cs) old m) a ((c # cs) ! k) = entry old a (i + k)"
    proof (cases k)
      case 0
      have "entry (restore_cols (Suc i) cs old ?m) a c = entry ?m a c" using ih c(1) by blast
      then show ?thesis using 0 a Cons.prems(2) by simp
    next
      case (Suc k')
      then have "k' < length cs" using k by simp
      then show ?thesis using ih a Suc by simp
    qed
  qed
  show ?case using ih a1 a2 by simp
qed

lemma restore_cols_after_loop:
  assumes "distinct cs" "\<forall>c\<in>set cs. c < ncols (mat s)" "nrows (old_cols_m s) = nrows (mat s)"
  shows "\<exists>s'. update_cols_loop 0 [] cs srcmat s = Inr s'
    \<and> s' = s\<lparr>mat := mat s', old_cols_m := old_cols_m s', cols_offset_m := cols_offset_m s'\<rparr>
    \<and> restore_cols 0 cs (old_cols_m s') (mat s') = mat s"
proof -
  from update_cols_loop_ok [OF assms(1,2) _ assms(3), of "[]" 0 srcmat] obtain s' where
    l: "update_cols_loop 0 [] cs srcmat s = Inr s'"
    and r: "s' = s\<lparr>mat := mat s', old_cols_m := old_cols_m s', cols_offset_m := cols_offset_m s'\<rparr>"
    and d: "nrows (mat s') = nrows (mat s)" "ncols (mat s') = ncols (mat s)"
      "nrows (old_cols_m s') = nrows (old_cols_m s)"
    and e: "\<And>a b. b \<notin> set cs \<or> \<not> a < nrows (mat s) \<Longrightarrow> entry (mat s') a b = entry (mat s) a b"
    and on: "\<And>k a. k < length cs \<Longrightarrow> a < nrows (mat s)
          \<Longrightarrow> entry (old_cols_m s') a (0 + k) = entry (mat s) a (cs ! k)"
    by auto
  have n: "nrows (old_cols_m s') = nrows (mat s')" using d assms(3) by simp
  note rp = restore_cols_props [OF assms(1) n, of 0]
  have "restore_cols 0 cs (old_cols_m s') (mat s') = mat s"
  proof (rule matrix_eqI)
    show "nrows (restore_cols 0 cs (old_cols_m s') (mat s')) = nrows (mat s)" using rp d by simp
    show "ncols (restore_cols 0 cs (old_cols_m s') (mat s')) = ncols (mat s)" using rp d by simp
    fix a b
    show "entry (restore_cols 0 cs (old_cols_m s') (mat s')) a b = entry (mat s) a b"
    proof (cases "b \<in> set cs \<and> a < nrows (mat s)")
      case True
      then obtain k where k: "k < length cs" "cs ! k = b" by (auto simp: in_set_conv_nth)
      have "entry (restore_cols 0 cs (old_cols_m s') (mat s')) a (cs ! k)
            = entry (old_cols_m s') a (0 + k)"
        using rp k(1) True d by simp
      then show ?thesis using on [OF k(1), of a] True k(2) by simp
    next
      case False
      then have "entry (restore_cols 0 cs (old_cols_m s') (mat s')) a b = entry (mat s') a b"
        using rp d by auto
      then show ?thesis using e [of b a] False by auto
    qed
  qed
  then show ?thesis using l r by blast
qed

lemma update_rows_loop_ok:
  assumes "distinct rs" "\<forall>r\<in>set rs. r < nrows (mat s)" "set rs \<inter> set earlier = {}"
    "ncols (old_rows_m s) = ncols (mat s)"
  shows "\<exists>s'. update_rows_loop i earlier rs srcmat s = Inr s'
    \<and> s' = s\<lparr>mat := mat s', old_rows_m := old_rows_m s', rows_offset_m := rows_offset_m s'\<rparr>
    \<and> nrows (mat s') = nrows (mat s) \<and> ncols (mat s') = ncols (mat s)
    \<and> ncols (old_rows_m s') = ncols (old_rows_m s)
    \<and> (\<forall>a b. a \<notin> set rs \<or> \<not> b < ncols (mat s) \<longrightarrow> entry (mat s') a b = entry (mat s) a b)
    \<and> (\<forall>a b. a < i \<longrightarrow> entry (old_rows_m s') a b = entry (old_rows_m s) a b)
    \<and> (\<forall>k b. k < length rs \<longrightarrow> b < ncols (mat s)
          \<longrightarrow> entry (old_rows_m s') (i + k) b = entry (mat s) (rs ! k) b)"
  using assms
proof (induction rs arbitrary: i earlier s)
  case Nil
  then show ?case by simp
next
  case (Cons r rs)
  define s1 where "s1 = s\<lparr>old_rows_m := set_row i (get_row r (mat s)) (old_rows_m s)\<rparr>"
  define s2 where "s2 = s1\<lparr>rows_offset_m :=
                        set_row i (vec_sub (get_row r srcmat) (get_row r (mat s1)))
                          (rows_offset_m s1)\<rparr>"
  define s3 where "s3 = s2\<lparr>mat := set_row r
                        (vec_add (get_row r (mat s2)) (get_row i (rows_offset_m s2))) (mat s2)\<rparr>"
  have c: "r < nrows (mat s)" "r \<notin> set earlier" "r \<notin> set rs" using Cons.prems by auto
  have step: "update_rows_loop i earlier (r # rs) srcmat s
              = update_rows_loop (Suc i) (earlier @ [r]) rs srcmat s3"
    using c by (simp add: s1_def s2_def s3_def Let_def)
  have m3: "nrows (mat s3) = nrows (mat s)" "ncols (mat s3) = ncols (mat s)"
    "ncols (old_rows_m s3) = ncols (old_rows_m s)"
    by (simp_all add: s1_def s2_def s3_def)
  have e3: "\<And>a b. a \<noteq> r \<or> \<not> b < ncols (mat s) \<Longrightarrow> entry (mat s3) a b = entry (mat s) a b"
    by (auto simp: s1_def s2_def s3_def)
  have o3: "\<And>a b. entry (old_rows_m s3) a b
              = (if a = i \<and> b < ncols (mat s) then entry (mat s) r b else entry (old_rows_m s) a b)"
    using Cons.prems(4) by (simp add: s1_def s2_def s3_def)
  have r3: "s3 = s\<lparr>mat := mat s3, old_rows_m := old_rows_m s3, rows_offset_m := rows_offset_m s3\<rparr>"
    by (simp add: s1_def s2_def s3_def)
  have p: "distinct rs" "\<forall>r\<in>set rs. r < nrows (mat s3)" "set rs \<inter> set (earlier @ [r]) = {}"
    "ncols (old_rows_m s3) = ncols (mat s3)"
    using Cons.prems by (auto simp: m3)
  from Cons.IH [OF p, of "Suc i"] obtain s' where
    l: "update_rows_loop (Suc i) (earlier @ [r]) rs srcmat s3 = Inr s'"
    and rr: "s' = s3\<lparr>mat := mat s', old_rows_m := old_rows_m s', rows_offset_m := rows_offset_m s'\<rparr>"
    and d: "nrows (mat s') = nrows (mat s3)" "ncols (mat s') = ncols (mat s3)"
      "ncols (old_rows_m s') = ncols (old_rows_m s3)"
    and e: "\<And>a b. a \<notin> set rs \<or> \<not> b < ncols (mat s3) \<Longrightarrow> entry (mat s') a b = entry (mat s3) a b"
    and ol: "\<And>a b. a < Suc i \<Longrightarrow> entry (old_rows_m s') a b = entry (old_rows_m s3) a b"
    and on: "\<And>k b. k < length rs \<Longrightarrow> b < ncols (mat s3)
          \<Longrightarrow> entry (old_rows_m s') (Suc i + k) b = entry (mat s3) (rs ! k) b"
    by blast
  have r': "s' = s\<lparr>mat := mat s', old_rows_m := old_rows_m s', rows_offset_m := rows_offset_m s'\<rparr>"
    by (subst rr, subst r3) simp
  have e': "\<forall>a b. a \<notin> set (r # rs) \<or> \<not> b < ncols (mat s) \<longrightarrow> entry (mat s') a b = entry (mat s) a b"
    using e e3 by (auto simp: m3)
  have ol': "\<forall>a b. a < i \<longrightarrow> entry (old_rows_m s') a b = entry (old_rows_m s) a b"
    using ol o3 by simp
  have on': "\<forall>k b. k < length (r # rs) \<longrightarrow> b < ncols (mat s)
          \<longrightarrow> entry (old_rows_m s') (i + k) b = entry (mat s) ((r # rs) ! k) b"
  proof (intro allI impI)
    fix k b assume k: "k < length (r # rs)" and b: "b < ncols (mat s)"
    show "entry (old_rows_m s') (i + k) b = entry (mat s) ((r # rs) ! k) b"
    proof (cases k)
      case 0
      then show ?thesis using ol [of i b] o3 [of i b] b by simp
    next
      case (Suc k')
      then have k': "k' < length rs" using k by simp
      then have "rs ! k' \<noteq> r" using c(3) by (metis nth_mem)
      then show ?thesis using on [OF k', of b] e3 [of "rs ! k'" b] b Suc by (simp add: m3)
    qed
  qed
  show ?case unfolding step l using r' d e' ol' on' by (simp add: m3)
qed

lemma restore_rows_props:
  assumes "distinct rs" "ncols old = ncols m"
  shows "nrows (restore_rows i rs old m) = nrows m \<and> ncols (restore_rows i rs old m) = ncols m
    \<and> (\<forall>a b. a \<notin> set rs \<or> \<not> b < ncols m \<longrightarrow> entry (restore_rows i rs old m) a b = entry m a b)
    \<and> (\<forall>k b. k < length rs \<longrightarrow> b < ncols m
          \<longrightarrow> entry (restore_rows i rs old m) (rs ! k) b = entry old (i + k) b)"
  using assms
proof (induction rs arbitrary: i m)
  case Nil
  then show ?case by simp
next
  case (Cons r rs)
  let ?m = "set_row r (get_row i old) m"
  have c: "r \<notin> set rs" "distinct rs" using Cons.prems by auto
  have n: "ncols old = ncols ?m" using Cons.prems by simp
  note ih = Cons.IH [OF c(2) n, of "Suc i"]
  have a1: "\<forall>a b. a \<notin> set (r # rs) \<or> \<not> b < ncols m
             \<longrightarrow> entry (restore_rows i (r # rs) old m) a b = entry m a b"
    using ih by auto
  have a2: "\<forall>k b. k < length (r # rs) \<longrightarrow> b < ncols m
          \<longrightarrow> entry (restore_rows i (r # rs) old m) ((r # rs) ! k) b = entry old (i + k) b"
  proof (intro allI impI)
    fix k b assume k: "k < length (r # rs)" and b: "b < ncols m"
    show "entry (restore_rows i (r # rs) old m) ((r # rs) ! k) b = entry old (i + k) b"
    proof (cases k)
      case 0
      have "entry (restore_rows (Suc i) rs old ?m) r b = entry ?m r b" using ih c(1) by blast
      then show ?thesis using 0 b Cons.prems(2) by simp
    next
      case (Suc k')
      then have "k' < length rs" using k by simp
      then show ?thesis using ih b Suc by simp
    qed
  qed
  show ?case using ih a1 a2 by simp
qed

lemma restore_rows_after_loop:
  assumes "distinct rs" "\<forall>r\<in>set rs. r < nrows (mat s)" "ncols (old_rows_m s) = ncols (mat s)"
  shows "\<exists>s'. update_rows_loop 0 [] rs srcmat s = Inr s'
    \<and> s' = s\<lparr>mat := mat s', old_rows_m := old_rows_m s', rows_offset_m := rows_offset_m s'\<rparr>
    \<and> nrows (mat s') = nrows (mat s) \<and> ncols (mat s') = ncols (mat s)
    \<and> restore_rows 0 rs (old_rows_m s') (mat s') = mat s"
proof -
  from update_rows_loop_ok [OF assms(1,2) _ assms(3), of "[]" 0 srcmat] obtain s' where
    l: "update_rows_loop 0 [] rs srcmat s = Inr s'"
    and r: "s' = s\<lparr>mat := mat s', old_rows_m := old_rows_m s', rows_offset_m := rows_offset_m s'\<rparr>"
    and d: "nrows (mat s') = nrows (mat s)" "ncols (mat s') = ncols (mat s)"
      "ncols (old_rows_m s') = ncols (old_rows_m s)"
    and e: "\<And>a b. a \<notin> set rs \<or> \<not> b < ncols (mat s) \<Longrightarrow> entry (mat s') a b = entry (mat s) a b"
    and on: "\<And>k b. k < length rs \<Longrightarrow> b < ncols (mat s)
          \<Longrightarrow> entry (old_rows_m s') (0 + k) b = entry (mat s) (rs ! k) b"
    by auto
  have n: "ncols (old_rows_m s') = ncols (mat s')" using d assms(3) by simp
  note rp = restore_rows_props [OF assms(1) n, of 0]
  have "restore_rows 0 rs (old_rows_m s') (mat s') = mat s"
  proof (rule matrix_eqI)
    show "nrows (restore_rows 0 rs (old_rows_m s') (mat s')) = nrows (mat s)" using rp d by simp
    show "ncols (restore_rows 0 rs (old_rows_m s') (mat s')) = ncols (mat s)" using rp d by simp
    fix a b
    show "entry (restore_rows 0 rs (old_rows_m s') (mat s')) a b = entry (mat s) a b"
    proof (cases "a \<in> set rs \<and> b < ncols (mat s)")
      case True
      then obtain k where k: "k < length rs" "rs ! k = a" by (auto simp: in_set_conv_nth)
      have "entry (restore_rows 0 rs (old_rows_m s') (mat s')) (rs ! k) b
            = entry (old_rows_m s') (0 + k) b"
        using rp k(1) True d by simp
      then show ?thesis using on [OF k(1), of b] True k(2) by simp
    next
      case False
      then have "entry (restore_rows 0 rs (old_rows_m s') (mat s')) a b = entry (mat s') a b"
        using rp d by auto
      then show ?thesis using e [of a b] False by auto
    qed
  qed
  then show ?thesis using l r d by blast
qed

lemma update_columns_loop_ok:
  assumes "distinct (map fst cs)" "\<forall>p\<in>set cs. snd p < ncols srcmat \<and> fst p < ncols (mat s)"
    "fst ` set cs \<inter> set (pending_col_indices s) = {}"
    "nrows (old_cols_m s) = nrows (mat s)"
  shows "\<exists>s'. update_columns_loop i cs srcmat s = Inr s'
    \<and> s' = s\<lparr>mat := mat s', old_cols_m := old_cols_m s', cols_offset_m := cols_offset_m s',
              pending_col_indices := pending_col_indices s @ map fst cs\<rparr>
    \<and> nrows (mat s') = nrows (mat s) \<and> ncols (mat s') = ncols (mat s)
    \<and> nrows (old_cols_m s') = nrows (old_cols_m s)
    \<and> (\<forall>a b. b \<notin> fst ` set cs \<or> \<not> a < nrows (mat s) \<longrightarrow> entry (mat s') a b = entry (mat s) a b)
    \<and> (\<forall>a b. b < i \<longrightarrow> entry (old_cols_m s') a b = entry (old_cols_m s) a b)
    \<and> (\<forall>k a. k < length cs \<longrightarrow> a < nrows (mat s)
          \<longrightarrow> entry (old_cols_m s') a (i + k) = entry (mat s) a (fst (cs ! k)))"
  using assms
proof (induction cs arbitrary: i s)
  case Nil
  then show ?case by simp
next
  case (Cons p cs)
  define c where "c = fst p"
  define s1 where "s1 = s\<lparr>old_cols_m := set_col i (get_col (fst p) (mat s)) (old_cols_m s),
                     pending_col_indices := pending_col_indices s @ [fst p]\<rparr>"
  define s2 where "s2 = s1\<lparr>cols_offset_m :=
                        set_col i (vec_sub (get_col (snd p) srcmat) (get_col (fst p) (mat s1)))
                          (cols_offset_m s1)\<rparr>"
  define s3 where "s3 = s2\<lparr>mat := set_col (fst p)
                        (vec_add (get_col (fst p) (mat s2)) (get_col i (cols_offset_m s2)))
                        (mat s2)\<rparr>"
  have c: "snd p < ncols srcmat" "c < ncols (mat s)" "c \<notin> set (pending_col_indices s)"
    "c \<notin> fst ` set cs"
    using Cons.prems by (auto simp: c_def)
  have step: "update_columns_loop i (p # cs) srcmat s = update_columns_loop (Suc i) cs srcmat s3"
    using c by (simp add: s1_def s2_def s3_def Let_def c_def)
  have m3: "nrows (mat s3) = nrows (mat s)" "ncols (mat s3) = ncols (mat s)"
    "nrows (old_cols_m s3) = nrows (old_cols_m s)"
    "pending_col_indices s3 = pending_col_indices s @ [c]"
    by (simp_all add: s1_def s2_def s3_def c_def)
  have e3: "\<And>a b. b \<noteq> c \<or> \<not> a < nrows (mat s) \<Longrightarrow> entry (mat s3) a b = entry (mat s) a b"
    by (auto simp: s1_def s2_def s3_def c_def)
  have o3: "\<And>a b. entry (old_cols_m s3) a b
              = (if b = i \<and> a < nrows (mat s) then entry (mat s) a c else entry (old_cols_m s) a b)"
    using Cons.prems(4) by (simp add: s1_def s2_def s3_def c_def)
  have r3: "s3 = s\<lparr>mat := mat s3, old_cols_m := old_cols_m s3, cols_offset_m := cols_offset_m s3,
                   pending_col_indices := pending_col_indices s @ [c]\<rparr>"
    by (simp add: s1_def s2_def s3_def c_def)
  have p: "distinct (map fst cs)" "\<forall>p\<in>set cs. snd p < ncols srcmat \<and> fst p < ncols (mat s3)"
    "fst ` set cs \<inter> set (pending_col_indices s3) = {}"
    "nrows (old_cols_m s3) = nrows (mat s3)"
    using Cons.prems by (auto simp: m3 c_def)
  from Cons.IH [OF p, of "Suc i"] obtain s' where
    l: "update_columns_loop (Suc i) cs srcmat s3 = Inr s'"
    and r: "s' = s3\<lparr>mat := mat s', old_cols_m := old_cols_m s', cols_offset_m := cols_offset_m s',
                    pending_col_indices := pending_col_indices s3 @ map fst cs\<rparr>"
    and d: "nrows (mat s') = nrows (mat s3)" "ncols (mat s') = ncols (mat s3)"
      "nrows (old_cols_m s') = nrows (old_cols_m s3)"
    and e: "\<And>a b. b \<notin> fst ` set cs \<or> \<not> a < nrows (mat s3) \<Longrightarrow> entry (mat s') a b = entry (mat s3) a b"
    and ol: "\<And>a b. b < Suc i \<Longrightarrow> entry (old_cols_m s') a b = entry (old_cols_m s3) a b"
    and on: "\<And>k a. k < length cs \<Longrightarrow> a < nrows (mat s3)
          \<Longrightarrow> entry (old_cols_m s') a (Suc i + k) = entry (mat s3) a (fst (cs ! k))"
    by blast
  have r': "s' = s\<lparr>mat := mat s', old_cols_m := old_cols_m s', cols_offset_m := cols_offset_m s',
                   pending_col_indices := pending_col_indices s @ map fst (p # cs)\<rparr>"
    by (subst r, subst r3) (simp add: m3 c_def)
  have e': "\<forall>a b. b \<notin> fst ` set (p # cs) \<or> \<not> a < nrows (mat s)
              \<longrightarrow> entry (mat s') a b = entry (mat s) a b"
    using e e3 by (auto simp: m3 c_def)
  have ol': "\<forall>a b. b < i \<longrightarrow> entry (old_cols_m s') a b = entry (old_cols_m s) a b"
    using ol o3 by simp
  have on': "\<forall>k a. k < length (p # cs) \<longrightarrow> a < nrows (mat s)
          \<longrightarrow> entry (old_cols_m s') a (i + k) = entry (mat s) a (fst ((p # cs) ! k))"
  proof (intro allI impI)
    fix k a assume k: "k < length (p # cs)" and a: "a < nrows (mat s)"
    show "entry (old_cols_m s') a (i + k) = entry (mat s) a (fst ((p # cs) ! k))"
    proof (cases k)
      case 0
      then show ?thesis using ol [of i a] o3 [of a i] a by (simp add: c_def)
    next
      case (Suc k')
      then have k': "k' < length cs" using k by simp
      then have "fst (cs ! k') \<noteq> c" using c(4) by (metis image_eqI nth_mem)
      then show ?thesis using on [OF k', of a] e3 [of "fst (cs ! k')" a] a Suc by (simp add: m3)
    qed
  qed
  show ?case unfolding step l using r' d e' ol' on' by (simp add: m3)
qed

lemma restore_columns_after_loop:
  assumes "distinct (map fst cs)" "\<forall>p\<in>set cs. snd p < ncols srcmat \<and> fst p < ncols (mat s)"
    "pending_col_indices s = []" "nrows (old_cols_m s) = nrows (mat s)"
  shows "\<exists>s'. update_columns_loop 0 cs srcmat s = Inr s'
    \<and> s' = s\<lparr>mat := mat s', old_cols_m := old_cols_m s', cols_offset_m := cols_offset_m s',
              pending_col_indices := map fst cs\<rparr>
    \<and> restore_cols 0 (map fst cs) (old_cols_m s') (mat s') = mat s"
proof -
  have em: "fst ` set cs \<inter> set (pending_col_indices s) = {}" using assms(3) by simp
  from update_columns_loop_ok [OF assms(1,2) em assms(4), of 0] obtain s' where
    l: "update_columns_loop 0 cs srcmat s = Inr s'"
    and r: "s' = s\<lparr>mat := mat s', old_cols_m := old_cols_m s', cols_offset_m := cols_offset_m s',
              pending_col_indices := pending_col_indices s @ map fst cs\<rparr>"
    and d: "nrows (mat s') = nrows (mat s)" "ncols (mat s') = ncols (mat s)"
      "nrows (old_cols_m s') = nrows (old_cols_m s)"
    and e: "\<And>a b. b \<notin> fst ` set cs \<or> \<not> a < nrows (mat s) \<Longrightarrow> entry (mat s') a b = entry (mat s) a b"
    and on: "\<And>k a. k < length cs \<Longrightarrow> a < nrows (mat s)
          \<Longrightarrow> entry (old_cols_m s') a (0 + k) = entry (mat s) a (fst (cs ! k))"
    by auto
  have n: "nrows (old_cols_m s') = nrows (mat s')" using d assms(4) by simp
  note rp = restore_cols_props [OF assms(1) n, of 0]
  let ?R = "restore_cols 0 (map fst cs) (old_cols_m s') (mat s')"
  have "?R = mat s"
  proof (rule matrix_eqI)
    show "nrows ?R = nrows (mat s)" using rp d by simp
    show "ncols ?R = ncols (mat s)" using rp d by simp
    fix a b
    show "entry ?R a b = entry (mat s) a b"
    proof (cases "b \<in> fst ` set cs \<and> a < nrows (mat s)")
      case True
      then have "b \<in> set (map fst cs)" by simp
      then obtain k where k: "k < length cs" "map fst cs ! k = b"
        unfolding in_set_conv_nth by auto
      have "entry ?R a (map fst cs ! k) = entry (old_cols_m s') a (0 + k)"
        using rp k(1) True d by simp
      then show ?thesis using on [OF k(1), of a] True k by simp
    next
      case False
      then have "entry ?R a b = entry (mat s') a b"
        using rp d by auto
      then show ?thesis using e [of b a] False by auto
    qed
  qed
  then show ?thesis using l r assms(3) by auto
qed

lemma update_tail_state:
  assumes z: "0 < nullity_lower_bound s \<longrightarrow> big_is_zero nu (det s)"
    and n: "new_nullity_lower_bound s = nullity_lower_bound s" "0 \<le> nullity_lower_bound s"
    and k: "kept s t"
  shows "\<exists>s'. and_then (if nullity_lower_bound s \<noteq> 0 then perform_singular_update nu r s
                         else Inr (apply_detrat nu t))
                (\<lambda>s3. Inr (s3\<lparr>current_state := st\<rparr>)) = Inr s'
              \<and> kept s s' \<and> current_state s' = st"
proof -
  from update_tail [OF _ n k, of nu r] z obtain s3 where
    "(if nullity_lower_bound s \<noteq> 0 then perform_singular_update nu r s
      else Inr (apply_detrat nu t)) = Inr s3" "kept s s3"
    by blast
  then show ?thesis by (simp add: and_then_def kept_def)
qed

lemma restore_row:
  assumes "nrows m = ncols m"
  shows "set_row r (get_col 0 (set_col 0 (get_row r m) (resize (nrows m) 1 old)))
           (set_row r row m) = m"
  using assms by (intro matrix_eqI) auto

lemma restore_col:
  "set_col c (get_col 0 (set_col 0 (get_col c m) (resize (nrows m) 1 old)))
           (set_col c col m) = m"
  by (intro matrix_eqI) auto

lemma cancel_row_restores:
  assumes rd: "ready nu s" and a: "r < nrows (mat s)" "length row = ncols (mat s)"
  shows "\<exists>s1 s2. update_row nu r row s = Inr s1 \<and> cancel_row_update s1 = Inr s2 \<and> restored s s2"
proof -
  define s2 where "s2 = s\<lparr>old_cols_m := set_col 0 (get_row r (mat s))
                                         (resize (nrows (mat s)) 1 (old_cols_m s)),
                     old_det := det s,
                     new_nullity_lower_bound := nullity_lower_bound s,
                     mat := set_row r row (mat s), pending_index := r\<rparr>"
  define t where "t = s2\<lparr>detrat := dot (get_row (pending_index s2) (mat s2))
                                        (get_col (pending_index s2) (invmat s2))\<rparr>"
  have f: "current_state s = READY_FOR_UPDATE" "\<not> inverse_recalculated_for_current_update s"
    "nrows (mat s) = ncols (mat s)" "0 \<le> nullity_lower_bound s"
    "0 < nullity_lower_bound s \<longrightarrow> big_is_zero nu (det s)"
    using rd by (auto simp: ready_def)
  have u: "update_row nu r row s =
             and_then (if nullity_lower_bound s2 \<noteq> 0 then perform_singular_update nu 1 s2
                       else Inr (apply_detrat nu t))
               (\<lambda>s3. Inr (s3\<lparr>current_state := ROW_UPDATE_IN_PROGRESS\<rparr>))"
    using a f by (simp add: update_row_def s2_def t_def Let_def)
  have z: "0 < nullity_lower_bound s2 \<longrightarrow> big_is_zero nu (det s2)"
    and n: "new_nullity_lower_bound s2 = nullity_lower_bound s2" "0 \<le> nullity_lower_bound s2"
    and k: "kept s2 t"
    using f by (simp_all add: s2_def t_def kept_def)
  from update_tail_state [OF z n k, of 1 ROW_UPDATE_IN_PROGRESS] u obtain s1 where
    s1: "update_row nu r row s = Inr s1" "kept s2 s1" "current_state s1 = ROW_UPDATE_IN_PROGRESS"
    by auto
  have "mat s1 = set_row r row (mat s)" "old_det s1 = det s" "pending_index s1 = r"
    "old_cols_m s1 = set_col 0 (get_row r (mat s)) (resize (nrows (mat s)) 1 (old_cols_m s))"
    "invmat s1 = invmat s" "nullity_lower_bound s1 = nullity_lower_bound s"
    using s1(2) by (simp_all add: kept_def s2_def)
  then have "\<exists>s2. cancel_row_update s1 = Inr s2 \<and> restored s s2"
    using s1(3) restore_row [OF f(3)] by (simp add: cancel_row_update_def restored_def)
  then show ?thesis using s1(1) by blast
qed

lemma cancel_column_restores:
  assumes rd: "ready nu s" and a: "c < ncols (mat s)" "length col = nrows (mat s)"
  shows "\<exists>s1 s2. update_column nu c col s = Inr s1 \<and> cancel_column_update s1 = Inr s2
           \<and> restored s s2"
proof -
  define s2 where "s2 = s\<lparr>old_cols_m := set_col 0 (get_col c (mat s))
                                         (resize (nrows (mat s)) 1 (old_cols_m s)),
                     old_det := det s,
                     new_nullity_lower_bound := nullity_lower_bound s,
                     mat := set_col c col (mat s), pending_index := c\<rparr>"
  define t where "t = s2\<lparr>detrat := dot (get_row (pending_index s2) (invmat s2))
                                        (get_col (pending_index s2) (mat s2))\<rparr>"
  have f: "current_state s = READY_FOR_UPDATE" "\<not> inverse_recalculated_for_current_update s"
    "nrows (mat s) = ncols (mat s)" "0 \<le> nullity_lower_bound s"
    "0 < nullity_lower_bound s \<longrightarrow> big_is_zero nu (det s)"
    using rd by (auto simp: ready_def)
  have u: "update_column nu c col s =
             and_then (if nullity_lower_bound s2 \<noteq> 0 then perform_singular_update nu 1 s2
                       else Inr (apply_detrat nu t))
               (\<lambda>s3. Inr (s3\<lparr>current_state := COLUMN_UPDATE_IN_PROGRESS\<rparr>))"
    using a f by (simp add: update_column_def s2_def t_def Let_def)
  have z: "0 < nullity_lower_bound s2 \<longrightarrow> big_is_zero nu (det s2)"
    and n: "new_nullity_lower_bound s2 = nullity_lower_bound s2" "0 \<le> nullity_lower_bound s2"
    and k: "kept s2 t"
    using f by (simp_all add: s2_def t_def kept_def)
  from update_tail_state [OF z n k, of 1 COLUMN_UPDATE_IN_PROGRESS] u obtain s1 where
    s1: "update_column nu c col s = Inr s1" "kept s2 s1"
      "current_state s1 = COLUMN_UPDATE_IN_PROGRESS"
    by auto
  have "mat s1 = set_col c col (mat s)" "old_det s1 = det s" "pending_index s1 = c"
    "old_cols_m s1 = set_col 0 (get_col c (mat s)) (resize (nrows (mat s)) 1 (old_cols_m s))"
    "invmat s1 = invmat s" "nullity_lower_bound s1 = nullity_lower_bound s"
    using s1(2) by (simp_all add: kept_def s2_def)
  then have "\<exists>s2. cancel_column_update s1 = Inr s2 \<and> restored s s2"
    using s1(3) restore_col by (simp add: cancel_column_update_def restored_def)
  then show ?thesis using s1(1) by blast
qed

lemma cancel_columns_restores:
  assumes rd: "ready nu s" and a: "0 < length cs" "length cs \<le> ncols (mat s)"
    "nrows srcmat = nrows (mat s)"
    "\<forall>p\<in>set cs. snd p < ncols srcmat \<and> fst p < ncols (mat s)" "distinct (map fst cs)"
  shows "\<exists>s1 s2. update_columns nu cs srcmat s = Inr s1 \<and> cancel_columns_update s1 = Inr s2
           \<and> restored s s2"
proof -
  define s0 where "s0 = s\<lparr>old_cols_m := resize (nrows (mat s)) (length cs) (old_cols_m s),
                cols_offset_m := resize (nrows (mat s)) (length cs) (cols_offset_m s),
                pending_col_indices := []\<rparr>"
  have f: "current_state s = READY_FOR_UPDATE" "\<not> inverse_recalculated_for_current_update s"
    "nrows (mat s) = ncols (mat s)" "0 \<le> nullity_lower_bound s"
    "0 < nullity_lower_bound s \<longrightarrow> big_is_zero nu (det s)"
    using rd by (auto simp: ready_def)
  have p: "\<forall>p\<in>set cs. snd p < ncols srcmat \<and> fst p < ncols (mat s0)"
    "pending_col_indices s0 = []" "nrows (old_cols_m s0) = nrows (mat s0)"
    using a by (simp_all add: s0_def)
  from restore_columns_after_loop [OF a(5) p] obtain sl where
    l: "update_columns_loop 0 cs srcmat s0 = Inr sl"
    and r: "sl = s0\<lparr>mat := mat sl, old_cols_m := old_cols_m sl, cols_offset_m := cols_offset_m sl,
              pending_col_indices := map fst cs\<rparr>"
    and b: "restore_cols 0 (map fst cs) (old_cols_m sl) (mat sl) = mat s0"
    by blast
  define s2 where "s2 = sl\<lparr>old_det := det sl, new_nullity_lower_bound := nullity_lower_bound sl\<rparr>"
  define t where "t = decompose_ratio_matrix nu
                        (columns_ratio_matrix (map fst cs) (invmat s2) (cols_offset_m s2)) s2"
  have fl: "det sl = det s" "nullity_lower_bound sl = nullity_lower_bound s"
    "invmat sl = invmat s" "pending_col_indices sl = map fst cs"
    by (subst r, simp add: s0_def)+
  have u: "update_columns nu cs srcmat s =
             and_then (if nullity_lower_bound s2 \<noteq> 0
                       then perform_singular_update nu (length cs) s2
                       else Inr (apply_detrat nu t))
               (\<lambda>s3. Inr (s3\<lparr>current_state := COLUMNS_UPDATE_IN_PROGRESS\<rparr>))"
    using a f l unfolding update_columns_def s0_def [symmetric]
    by (simp add: and_then_def s2_def t_def Let_def)
  have z: "0 < nullity_lower_bound s2 \<longrightarrow> big_is_zero nu (det s2)"
    and n: "new_nullity_lower_bound s2 = nullity_lower_bound s2" "0 \<le> nullity_lower_bound s2"
    and k: "kept s2 t"
    using f fl by (simp_all add: s2_def t_def kept_def)
  from update_tail_state [OF z n k, of "length cs" COLUMNS_UPDATE_IN_PROGRESS] u obtain s1 where
    s1: "update_columns nu cs srcmat s = Inr s1" "kept s2 s1"
      "current_state s1 = COLUMNS_UPDATE_IN_PROGRESS"
    by auto
  have "mat s1 = mat sl" "old_det s1 = det s" "pending_col_indices s1 = map fst cs"
    "old_cols_m s1 = old_cols_m sl"
    "invmat s1 = invmat s" "nullity_lower_bound s1 = nullity_lower_bound s"
    using s1(2) fl by (simp_all add: kept_def s2_def)
  then have "\<exists>s2. cancel_columns_update s1 = Inr s2 \<and> restored s s2"
    using s1(3) b by (simp add: cancel_columns_update_def restored_def s0_def)
  then show ?thesis using s1(1) by blast
qed

lemma cancel_rows_and_columns_restores:
  assumes rd: "ready nu s" and a: "0 < length cs \<or> 0 < length rs" "length cs \<le> ncols (mat s)"
    "length rs \<le> nrows (mat s)" "nrows srcmat = nrows (mat s)" "ncols srcmat = ncols (mat s)"
    and rs: "\<forall>r\<in>set rs. r < nrows (mat s)" "distinct rs"
    and cs: "\<forall>c\<in>set cs. c < ncols (mat s)" "distinct cs"
  shows "\<exists>s1 s2. update_rows_and_columns nu rs cs srcmat s = Inr s1
           \<and> cancel_rows_and_columns_update s1 = Inr s2 \<and> restored s s2"
proof -
  define s0 where "s0 = s\<lparr>old_rows_m := resize (length rs) (ncols (mat s)) (old_rows_m s),
                rows_offset_m := resize (length rs) (ncols (mat s)) (rows_offset_m s),
                pending_row_indices := rs\<rparr>"
  have f: "current_state s = READY_FOR_UPDATE" "\<not> inverse_recalculated_for_current_update s"
    "nrows (mat s) = ncols (mat s)" "0 \<le> nullity_lower_bound s"
    "0 < nullity_lower_bound s \<longrightarrow> big_is_zero nu (det s)"
    using rd by (auto simp: ready_def)
  have p: "\<forall>r\<in>set rs. r < nrows (mat s0)" "ncols (old_rows_m s0) = ncols (mat s0)"
    using rs by (simp_all add: s0_def)
  from restore_rows_after_loop [OF rs(2) p] obtain sr where
    lr: "update_rows_loop 0 [] rs srcmat s0 = Inr sr"
    and rr: "sr = s0\<lparr>mat := mat sr, old_rows_m := old_rows_m sr, rows_offset_m := rows_offset_m sr\<rparr>"
    and dr: "nrows (mat sr) = nrows (mat s0)" "ncols (mat sr) = ncols (mat s0)"
    and br: "restore_rows 0 rs (old_rows_m sr) (mat sr) = mat s0"
    by blast
  define s0' where "s0' = sr\<lparr>old_cols_m := resize (nrows (mat sr)) (length cs) (old_cols_m sr),
                 cols_offset_m := resize (nrows (mat sr)) (length cs) (cols_offset_m sr),
                 pending_col_indices := cs\<rparr>"
  have q: "\<forall>c\<in>set cs. c < ncols (mat s0')" "nrows (old_cols_m s0') = nrows (mat s0')"
    using cs dr by (simp_all add: s0'_def s0_def)
  from restore_cols_after_loop [OF cs(2) q] obtain sc where
    lc: "update_cols_loop 0 [] cs srcmat s0' = Inr sc"
    and rc: "sc = s0'\<lparr>mat := mat sc, old_cols_m := old_cols_m sc, cols_offset_m := cols_offset_m sc\<rparr>"
    and bc: "restore_cols 0 cs (old_cols_m sc) (mat sc) = mat s0'"
    by blast
  define s3 where "s3 = sc\<lparr>old_det := det sc, new_nullity_lower_bound := nullity_lower_bound sc\<rparr>"
  define t where "t = decompose_ratio_matrix nu
                        (rowcol_ratio_matrix rs cs (invmat s3) (rows_offset_m s3)
                           (cols_offset_m s3)) s3"
  have fr: "det sr = det s" "nullity_lower_bound sr = nullity_lower_bound s"
    "invmat sr = invmat s" "pending_row_indices sr = rs"
    by (subst rr, simp add: s0_def)+
  have fc: "det sc = det sr" "nullity_lower_bound sc = nullity_lower_bound sr"
    "invmat sc = invmat sr" "pending_row_indices sc = pending_row_indices sr"
    "pending_col_indices sc = cs" "old_rows_m sc = old_rows_m sr"
    by (subst rc, simp add: s0'_def)+
  have u: "update_rows_and_columns nu rs cs srcmat s =
             and_then (if nullity_lower_bound s3 \<noteq> 0
                       then perform_singular_update nu (length cs) s3
                       else Inr (apply_detrat nu t))
               (\<lambda>s4. Inr (s4\<lparr>current_state := ROWCOL_UPDATE_IN_PROGRESS\<rparr>))"
    using a f lr lc unfolding update_rows_and_columns_def s0_def [symmetric]
    by (simp add: and_then_def s0'_def [symmetric] s3_def t_def Let_def)
  have z: "0 < nullity_lower_bound s3 \<longrightarrow> big_is_zero nu (det s3)"
    and n: "new_nullity_lower_bound s3 = nullity_lower_bound s3" "0 \<le> nullity_lower_bound s3"
    and k: "kept s3 t"
    using f fr fc by (simp_all add: s3_def t_def kept_def)
  from update_tail_state [OF z n k, of "length cs" ROWCOL_UPDATE_IN_PROGRESS] u obtain s1 where
    s1: "update_rows_and_columns nu rs cs srcmat s = Inr s1" "kept s3 s1"
      "current_state s1 = ROWCOL_UPDATE_IN_PROGRESS"
    by auto
  have "mat s1 = mat sc" "old_det s1 = det s" "pending_col_indices s1 = cs"
    "pending_row_indices s1 = rs"
    "old_cols_m s1 = old_cols_m sc" "old_rows_m s1 = old_rows_m sr"
    "invmat s1 = invmat s" "nullity_lower_bound s1 = nullity_lower_bound s"
    using s1(2) fr fc by (simp_all add: kept_def s3_def)
  moreover have "mat s0' = mat sr" "mat s0 = mat s" by (simp_all add: s0'_def s0_def)
  ultimately have "\<exists>s2. cancel_rows_and_columns_update s1 = Inr s2 \<and> restored s s2"
    using s1(3) bc br by (simp add: cancel_rows_and_columns_update_def restored_def)
  then show ?thesis using s1(1) by blast
qed

lemmas engine_eval =
  engine_of_def CeperleyMatrix_of_def matrix_of_rows_def exact_numerics_def blank_engine_def
  calculate_inverse_def det2_def rank2_def inverse2_def Let_def

lemma singular_engine_facts:
  "nullity_lower_bound (engine_of [[0]]) = 1" "det (engine_of [[0]]) = 0"
  "current_state (engine_of [[0]]) = READY_FOR_UPDATE"
  "\<not> inverse_recalculated_for_current_update (engine_of [[0]])"
  "mat (engine_of [[0]]) = matrix_of_rows [[0]]"
  by (simp_all add: engine_eval)

text \<open>
  Claim C1. Let the engine be ready: in the state \<open>READY_FOR_UPDATE\<close>, its matrix square,
  no recomputed inverse pending, the nullity bound not negative and the determinant zero
  if the bound is positive. For each of the four updates, with arguments that satisfy what
  the update asserts of them, the update succeeds, the matching cancellation succeeds, and
  after it the matrix, the determinant, the inverse and the nullity bound are the ones
  from before the update and the state is \<open>READY_FOR_UPDATE\<close> again.
\<close>

theorem cancel_restores_engine:
  assumes "ready nu s" and "arguments_ok u s"
  shows "\<exists>s1 s2. perform_update nu u s = Inr s1 \<and> cancel_pending u s1 = Inr s2 \<and> restored s s2"
proof (cases u)
  case (UpdateRow r row)
  then show ?thesis using assms cancel_row_restores [of nu s r row] by simp
next
  case (UpdateColumn c col)
  then show ?thesis using assms cancel_column_restores [of nu s c col] by simp
next
  case (UpdateColumns cs srcmat)
  then show ?thesis using assms cancel_columns_restores [of nu s cs srcmat]
    by (simp add: list_all_iff)
next
  case (UpdateRowsAndColumns rs cs srcmat)
  then show ?thesis using assms cancel_rows_and_columns_restores [of nu s cs rs srcmat]
    by (simp add: list_all_iff)
qed

theorem cancel_restores_engine_witness:
  "ready exact_numerics (engine_of [[1, 2], [3, 4]])
   \<and> arguments_ok (UpdateRowsAndColumns [0] [1] (matrix_of_rows [[5, 6], [7, 8]]))
        (engine_of [[1, 2], [3, 4]])
   \<and> (\<exists>s1 s2. perform_update exact_numerics
                 (UpdateRowsAndColumns [0] [1] (matrix_of_rows [[5, 6], [7, 8]]))
                 (engine_of [[1, 2], [3, 4]]) = Inr s1
              \<and> cancel_pending (UpdateRowsAndColumns [0] [1] (matrix_of_rows [[5, 6], [7, 8]])) s1
                  = Inr s2
              \<and> restored (engine_of [[1, 2], [3, 4]]) s2)"
proof -
  have r: "ready exact_numerics (engine_of [[1, 2], [3, 4]])"
    by (simp add: ready_def engine_eval)
  have a: "arguments_ok (UpdateRowsAndColumns [0] [1] (matrix_of_rows [[5, 6], [7, 8]]))
        (engine_of [[1, 2], [3, 4]])"
    by (simp add: engine_eval)
  show ?thesis using cancel_restores_engine [OF r a] r a by simp
qed

text \<open>
  Claim C2. The engine built from the 1 by 1 zero matrix has the nullity bound 1. Replacing
  its only row by \<open>[1]\<close> through \<open>update_rows_and_columns\<close> (one row, no column) takes
  the number of columns, 0, from the bound: the pending bound stays 1, nothing is
  recomputed and the determinant stays 0, for the matrix \<open>[[1]]\<close>. The same replacement
  through \<open>update_row\<close> takes 1 from the bound and recomputes: the pending bound is 0 and
  the determinant 1.
\<close>

theorem rows_update_of_singular_matrix_keeps_zero_determinant:
  "nullity_lower_bound (engine_of [[0]]) = 1
   \<and> (case update_rows_and_columns exact_numerics [0] [] (matrix_of_rows [[1]]) (engine_of [[0]]) of
        Inl e \<Rightarrow> False
      | Inr s1 \<Rightarrow> get_row 0 (mat s1) = [1] \<and> new_nullity_lower_bound s1 = 1 \<and> det s1 = 0
                  \<and> \<not> inverse_recalculated_for_current_update s1)
   \<and> (case update_row exact_numerics 0 [1] (engine_of [[0]]) of
        Inl e \<Rightarrow> False
      | Inr s1 \<Rightarrow> get_row 0 (mat s1) = [1] \<and> new_nullity_lower_bound s1 = 0 \<and> det s1 = 1
                  \<and> inverse_recalculated_for_current_update s1)"
  by (simp add: engine_eval update_rows_and_columns_def update_row_def and_then_def
      perform_singular_update_def get_row_def set_row_def resize_def vec_sub_def vec_add_def)

section \<open>Properties of the swapped system\<close>

lemma paired_with_sym:
  "length c1s = length c2s \<Longrightarrow>
   paired_with c1s c2s v1 v2 w1 w2 = paired_with c2s c1s v2 v1 w2 w1"
  by (auto simp: paired_with_def)

lemma lists_ok_sym: "lists_ok W c1s c2s v1 v2 = lists_ok W c2s c1s v2 v1"
  by (auto simp: lists_ok_def)

lemma swap_loop_paired:
  assumes "length c1s = length c2s" "distinct c1s" "distinct c2s"
    "\<forall>i\<in>set c1s. i < length v1" "\<forall>i\<in>set c2s. i < length v2"
  shows "\<exists>w1 w2. swap_loop c1s c2s v1 v2 = Inr (w1, w2) \<and> paired_with c1s c2s v1 v2 w1 w2"
  using assms
proof (induction c1s c2s arbitrary: v1 v2 rule: list_induct2)
  case Nil
  then show ?case by (simp add: paired_with_def)
next
  case (Cons i1 xs i2 ys)
  let ?v1 = "v1[i1 := v2 ! i2]" and ?v2 = "v2[i2 := v1 ! i1]"
  have r: "i1 < length v1" "i2 < length v2" "i1 \<notin> set xs" "i2 \<notin> set ys"
    using Cons.prems by auto
  have p: "distinct xs" "distinct ys" "\<forall>i\<in>set xs. i < length ?v1" "\<forall>i\<in>set ys. i < length ?v2"
    using Cons.prems by auto
  from Cons.IH [OF p] obtain w1 w2 where
    l: "swap_loop xs ys ?v1 ?v2 = Inr (w1, w2)" and pw: "paired_with xs ys ?v1 ?v2 w1 w2"
    by blast
  have len: "length w1 = length v1" "length w2 = length v2"
    using pw by (simp_all add: paired_with_def)
  have k: "\<And>k. k < length xs \<Longrightarrow> w1 ! (xs ! k) = ?v2 ! (ys ! k) \<and> w2 ! (ys ! k) = ?v1 ! (xs ! k)"
    using pw by (simp add: paired_with_def)
  have o1: "\<And>i. i < length v1 \<Longrightarrow> i \<notin> set xs \<Longrightarrow> w1 ! i = ?v1 ! i"
    and o2: "\<And>i. i < length v2 \<Longrightarrow> i \<notin> set ys \<Longrightarrow> w2 ! i = ?v2 ! i"
    using pw by (simp_all add: paired_with_def)
  have a: "\<forall>k < length (i1 # xs). w1 ! ((i1 # xs) ! k) = v2 ! ((i2 # ys) ! k)
             \<and> w2 ! ((i2 # ys) ! k) = v1 ! ((i1 # xs) ! k)"
  proof (intro allI impI)
    fix k assume kl: "k < length (i1 # xs)"
    show "w1 ! ((i1 # xs) ! k) = v2 ! ((i2 # ys) ! k)
             \<and> w2 ! ((i2 # ys) ! k) = v1 ! ((i1 # xs) ! k)"
    proof (cases k)
      case 0
      then show ?thesis using o1 [OF r(1) r(3)] o2 [OF r(2) r(4)] r by simp
    next
      case (Suc k')
      then have k': "k' < length xs" using kl by simp
      then have "xs ! k' \<noteq> i1" "ys ! k' \<noteq> i2"
        using r(3,4) Cons.hyps by (metis nth_mem)+
      then show ?thesis using k [OF k'] Suc by simp
    qed
  qed
  have b: "\<forall>i < length v1. i \<notin> set (i1 # xs) \<longrightarrow> w1 ! i = v1 ! i"
    using o1 by auto
  have c: "\<forall>i < length v2. i \<notin> set (i2 # ys) \<longrightarrow> w2 ! i = v2 ! i"
    using o2 by auto
  have "paired_with (i1 # xs) (i2 # ys) v1 v2 w1 w2"
    unfolding paired_with_def using len a b c by blast
  then show ?case using l r by simp
qed

lemma paired_unique:
  assumes "paired_with c1s c2s v1 v2 w1 w2" "paired_with c1s c2s v1 v2 w1' w2'"
    "length c1s = length c2s"
  shows "w1 = w1' \<and> w2 = w2'"
proof
  show "w1 = w1'"
  proof (rule nth_equalityI)
    show "length w1 = length w1'" using assms by (simp add: paired_with_def)
    fix i assume "i < length w1"
    then have i: "i < length v1" using assms by (simp add: paired_with_def)
    show "w1 ! i = w1' ! i"
    proof (cases "i \<in> set c1s")
      case True
      then obtain k where "k < length c1s" "c1s ! k = i" by (auto simp: in_set_conv_nth)
      then show ?thesis using assms(1,2) unfolding paired_with_def by metis
    next
      case False
      then show ?thesis using assms(1,2) i unfolding paired_with_def by metis
    qed
  qed
  show "w2 = w2'"
  proof (rule nth_equalityI)
    show "length w2 = length w2'" using assms by (simp add: paired_with_def)
    fix i assume "i < length w2"
    then have i: "i < length v2" using assms by (simp add: paired_with_def)
    show "w2 ! i = w2' ! i"
    proof (cases "i \<in> set c2s")
      case True
      then obtain k where "k < length c1s" "c2s ! k = i"
        using assms(3) by (auto simp: in_set_conv_nth)
      then show ?thesis using assms(1,2) unfolding paired_with_def by metis
    next
      case False
      then show ?thesis using assms(1,2) i unfolding paired_with_def by metis
    qed
  qed
qed

lemma paired_withI:
  assumes "length w1 = length v1" "length w2 = length v2"
    "\<And>k. k < length c1s \<Longrightarrow> w1 ! (c1s ! k) = v2 ! (c2s ! k) \<and> w2 ! (c2s ! k) = v1 ! (c1s ! k)"
    "\<And>i. i < length v1 \<Longrightarrow> i \<notin> set c1s \<Longrightarrow> w1 ! i = v1 ! i"
    "\<And>i. i < length v2 \<Longrightarrow> i \<notin> set c2s \<Longrightarrow> w2 ! i = v2 ! i"
  shows "paired_with c1s c2s v1 v2 w1 w2"
  using assms unfolding paired_with_def by blast

lemma paired_withD:
  assumes "paired_with c1s c2s v1 v2 w1 w2"
  shows "length w1 = length v1" "length w2 = length v2"
    "\<And>k. k < length c1s \<Longrightarrow> w1 ! (c1s ! k) = v2 ! (c2s ! k)"
    "\<And>k. k < length c1s \<Longrightarrow> w2 ! (c2s ! k) = v1 ! (c1s ! k)"
    "\<And>i. i < length v1 \<Longrightarrow> i \<notin> set c1s \<Longrightarrow> w1 ! i = v1 ! i"
    "\<And>i. i < length v2 \<Longrightarrow> i \<notin> set c2s \<Longrightarrow> w2 ! i = v2 ! i"
  using assms unfolding paired_with_def by blast+

lemma lists_okD:
  assumes "lists_ok W c1s c2s v1 v2"
  shows "length c1s = length c2s" "distinct c1s" "distinct c2s" "length v1 = length v2"
    "\<And>i. i \<in> set c1s \<longleftrightarrow> i < length v1 \<and> W (v1 ! i)"
    "\<And>i. i \<in> set c2s \<longleftrightarrow> i < length v2 \<and> W (v2 ! i)"
  using assms unfolding lists_ok_def by blast+

lemma distinct_nth_neq:
  "distinct xs \<Longrightarrow> k < length xs \<Longrightarrow> j < length xs \<Longrightarrow> k \<noteq> j \<Longrightarrow> xs ! k \<noteq> xs ! j"
  by (simp add: nth_eq_iff_index_eq)

text \<open>A particle of copy 1 moves within the subsystem.\<close>

lemma move_inside:
  assumes ok: "lists_ok W c1s c2s v1 v2" and pw: "paired_with c1s c2s v1 v2 w1 w2"
    and k: "k < length c1s" and x: "W x"
  shows "lists_ok W c1s c2s (v1[c1s ! k := x]) v2"
    and "paired_with c1s c2s (v1[c1s ! k := x]) v2 w1 (w2[c2s ! k := x])"
proof -
  note o = lists_okD [OF ok] and p = paired_withD [OF pw]
  have a: "c1s ! k \<in> set c1s" using k by simp
  then have al: "c1s ! k < length v1" using o(5) by blast
  have b: "c2s ! k \<in> set c2s" using k o(1) by simp
  then have bl: "c2s ! k < length v2" using o(6) by blast
  show "lists_ok W c1s c2s (v1[c1s ! k := x]) v2"
    unfolding lists_ok_def using o x a al by (auto simp: nth_list_update)
  show "paired_with c1s c2s (v1[c1s ! k := x]) v2 w1 (w2[c2s ! k := x])"
  proof (rule paired_withI)
    show "length w1 = length (v1[c1s ! k := x])" using p by simp
    show "length (w2[c2s ! k := x]) = length v2" using p by simp
    show "w1 ! (c1s ! j) = v2 ! (c2s ! j)
          \<and> w2[c2s ! k := x] ! (c2s ! j) = v1[c1s ! k := x] ! (c1s ! j)"
      if "j < length c1s" for j
    proof (cases "j = k")
      case True
      then show ?thesis using p(3) [OF that] al bl p(2) by simp
    next
      case False
      have j2: "j < length c2s" "k < length c2s" using that k o(1) by simp_all
      have "c1s ! j \<noteq> c1s ! k" "c2s ! j \<noteq> c2s ! k"
        using distinct_nth_neq [OF o(2) that k False] distinct_nth_neq [OF o(3) j2 False]
        by simp_all
      then show ?thesis using p(3,4) [OF that] by simp
    qed
    show "w1 ! i = v1[c1s ! k := x] ! i" if "i < length (v1[c1s ! k := x])" "i \<notin> set c1s" for i
    proof -
      have "i \<noteq> c1s ! k" using that(2) a by auto
      then show ?thesis using that p(5) [of i] by simp
    qed
    show "w2[c2s ! k := x] ! i = v2 ! i" if "i < length v2" "i \<notin> set c2s" for i
    proof -
      have "i \<noteq> c2s ! k" using that(2) b by auto
      then show ?thesis using that p(6) [of i] by simp
    qed
  qed
qed

text \<open>A particle of copy 1 moves outside the subsystem.\<close>

lemma move_outside:
  assumes ok: "lists_ok W c1s c2s v1 v2" and pw: "paired_with c1s c2s v1 v2 w1 w2"
    and a: "a \<notin> set c1s" "a < length v1" and x: "\<not> W x"
  shows "lists_ok W c1s c2s (v1[a := x]) v2"
    and "paired_with c1s c2s (v1[a := x]) v2 (w1[a := x]) w2"
proof -
  note o = lists_okD [OF ok] and p = paired_withD [OF pw]
  show "lists_ok W c1s c2s (v1[a := x]) v2"
    unfolding lists_ok_def using o x a by (auto simp: nth_list_update)
  show "paired_with c1s c2s (v1[a := x]) v2 (w1[a := x]) w2"
  proof (rule paired_withI)
    show "length (w1[a := x]) = length (v1[a := x])" using p by simp
    show "length w2 = length v2" using p by simp
    show "w1[a := x] ! (c1s ! j) = v2 ! (c2s ! j) \<and> w2 ! (c2s ! j) = v1[a := x] ! (c1s ! j)"
      if "j < length c1s" for j
    proof -
      have "c1s ! j \<noteq> a" using a(1) that by (metis nth_mem)
      then show ?thesis using p(3,4) [OF that] by simp
    qed
    show "w1[a := x] ! i = v1[a := x] ! i" if "i < length (v1[a := x])" "i \<notin> set c1s" for i
      using that p(5) [of i] by (cases "i = a") (simp_all add: p(1))
    show "w2 ! i = v2 ! i" if "i < length v2" "i \<notin> set c2s" for i
      using that p(6) [of i] by simp
  qed
qed

text \<open>A particle enters the subsystem in each copy.\<close>

lemma both_enter:
  assumes ok: "lists_ok W c1s c2s v1 v2" and pw: "paired_with c1s c2s v1 v2 w1 w2"
    and a: "a \<notin> set c1s" "a < length v1" and b: "b \<notin> set c2s" "b < length v2"
    and x: "W x" "W y"
  shows "lists_ok W (c1s @ [a]) (c2s @ [b]) (v1[a := x]) (v2[b := y])"
    and "paired_with (c1s @ [a]) (c2s @ [b]) (v1[a := x]) (v2[b := y]) (w1[a := y]) (w2[b := x])"
proof -
  note o = lists_okD [OF ok] and p = paired_withD [OF pw]
  show "lists_ok W (c1s @ [a]) (c2s @ [b]) (v1[a := x]) (v2[b := y])"
    unfolding lists_ok_def using o x a b by (auto simp: nth_list_update)
  show "paired_with (c1s @ [a]) (c2s @ [b]) (v1[a := x]) (v2[b := y]) (w1[a := y]) (w2[b := x])"
  proof (rule paired_withI)
    show "length (w1[a := y]) = length (v1[a := x])" using p by simp
    show "length (w2[b := x]) = length (v2[b := y])" using p by simp
    show "w1[a := y] ! ((c1s @ [a]) ! j) = v2[b := y] ! ((c2s @ [b]) ! j)
          \<and> w2[b := x] ! ((c2s @ [b]) ! j) = v1[a := x] ! ((c1s @ [a]) ! j)"
      if "j < length (c1s @ [a])" for j
    proof (cases "j < length c1s")
      case True
      then have "c1s ! j \<noteq> a" "c2s ! j \<noteq> b" using a(1) b(1) o(1) by (metis nth_mem)+
      then show ?thesis using p(3,4) [OF True] True o(1) by (simp add: nth_append)
    next
      case False
      then have "j = length c1s" using that by simp
      then show ?thesis using a b p(1,2) o(1) by (simp add: nth_append)
    qed
    show "w1[a := y] ! i = v1[a := x] ! i"
      if "i < length (v1[a := x])" "i \<notin> set (c1s @ [a])" for i
      using that p(5) [of i] by (auto simp: nth_list_update)
    show "w2[b := x] ! i = v2[b := y] ! i"
      if "i < length (v2[b := y])" "i \<notin> set (c2s @ [b])" for i
      using that p(6) [of i] by (auto simp: nth_list_update)
  qed
qed

text \<open>Exchanging two slots in both lists changes nothing.\<close>

lemma swap_nth:
  "i < length xs \<Longrightarrow> j < length xs \<Longrightarrow> k < length xs \<Longrightarrow>
   xs[i := xs ! j, j := xs ! i] ! k = (if k = j then xs ! i else if k = i then xs ! j else xs ! k)"
  by (simp add: nth_list_update)

lemma set_swap2: "i < length xs \<Longrightarrow> j < length xs \<Longrightarrow> set (xs[i := xs ! j, j := xs ! i]) = set xs"
  by (simp add: set_swap)

lemma exchange_both:
  assumes ok: "lists_ok W c1s c2s v1 v2" and pw: "paired_with c1s c2s v1 v2 w1 w2"
    and i: "i < length c1s" and j: "j < length c1s"
  shows "lists_ok W (c1s[i := c1s ! j, j := c1s ! i]) (c2s[i := c2s ! j, j := c2s ! i]) v1 v2"
    and "paired_with (c1s[i := c1s ! j, j := c1s ! i]) (c2s[i := c2s ! j, j := c2s ! i])
           v1 v2 w1 w2"
proof -
  note o = lists_okD [OF ok] and p = paired_withD [OF pw]
  have i2: "i < length c2s" and j2: "j < length c2s" using i j o(1) by simp_all
  show "lists_ok W (c1s[i := c1s ! j, j := c1s ! i]) (c2s[i := c2s ! j, j := c2s ! i]) v1 v2"
    unfolding lists_ok_def using o i j i2 j2 by (simp add: set_swap2 distinct_swap)
  show "paired_with (c1s[i := c1s ! j, j := c1s ! i]) (c2s[i := c2s ! j, j := c2s ! i])
           v1 v2 w1 w2"
  proof (rule paired_withI)
    show "length w1 = length v1" "length w2 = length v2" using p by simp_all
    show "w1 ! (c1s[i := c1s ! j, j := c1s ! i] ! k) = v2 ! (c2s[i := c2s ! j, j := c2s ! i] ! k)
          \<and> w2 ! (c2s[i := c2s ! j, j := c2s ! i] ! k) = v1 ! (c1s[i := c1s ! j, j := c1s ! i] ! k)"
      if "k < length (c1s[i := c1s ! j, j := c1s ! i])" for k
    proof -
      have k: "k < length c1s" "k < length c2s" using that o(1) by simp_all
      show ?thesis
        using p(3,4) [OF i] p(3,4) [OF j] p(3,4) [OF k(1)]
        by (simp add: swap_nth [OF i j k(1)] swap_nth [OF i2 j2 k(2)])
    qed
    show "w1 ! n = v1 ! n" if "n < length v1" "n \<notin> set (c1s[i := c1s ! j, j := c1s ! i])" for n
      using that p(5) [of n] i j by (simp add: set_swap2)
    show "w2 ! n = v2 ! n" if "n < length v2" "n \<notin> set (c2s[i := c2s ! j, j := c2s ! i])" for n
      using that p(6) [of n] i2 j2 by (simp add: set_swap2)
  qed
qed

text \<open>
  Exchanging two slots in the list of one copy, and the labels of the two particles of
  each pair in the two swapped configurations, pairs the particles anew.
\<close>

lemma exchange_one:
  assumes ok: "lists_ok W c1s c2s v1 v2" and pw: "paired_with c1s c2s v1 v2 w1 w2"
    and i: "i < length c1s" and j: "j < length c1s"
  shows "lists_ok W (c1s[i := c1s ! j, j := c1s ! i]) c2s v1 v2"
    and "paired_with (c1s[i := c1s ! j, j := c1s ! i]) c2s v1 v2
           (w1[c1s ! i := w1 ! (c1s ! j), c1s ! j := w1 ! (c1s ! i)])
           (w2[c2s ! i := w2 ! (c2s ! j), c2s ! j := w2 ! (c2s ! i)])"
proof -
  note o = lists_okD [OF ok] and p = paired_withD [OF pw]
  have i2: "i < length c2s" and j2: "j < length c2s" using i j o(1) by simp_all
  have r1: "c1s ! i < length w1" "c1s ! j < length w1"
    using o(5) i j p(1) by (metis nth_mem)+
  have r2: "c2s ! i < length w2" "c2s ! j < length w2"
    using o(6) i2 j2 p(2) by (metis nth_mem)+
  let ?w1 = "w1[c1s ! i := w1 ! (c1s ! j), c1s ! j := w1 ! (c1s ! i)]"
  let ?w2 = "w2[c2s ! i := w2 ! (c2s ! j), c2s ! j := w2 ! (c2s ! i)]"
  show "lists_ok W (c1s[i := c1s ! j, j := c1s ! i]) c2s v1 v2"
    unfolding lists_ok_def using o i j by (simp add: set_swap2 distinct_swap)
  show "paired_with (c1s[i := c1s ! j, j := c1s ! i]) c2s v1 v2 ?w1 ?w2"
  proof (rule paired_withI)
    show "length ?w1 = length v1" "length ?w2 = length v2" using p by simp_all
    show "?w1 ! (c1s[i := c1s ! j, j := c1s ! i] ! k) = v2 ! (c2s ! k)
          \<and> ?w2 ! (c2s ! k) = v1 ! (c1s[i := c1s ! j, j := c1s ! i] ! k)"
      if "k < length (c1s[i := c1s ! j, j := c1s ! i])" for k
    proof -
      have k: "k < length c1s" "k < length c2s" using that o(1) by simp_all
      have d: "i \<noteq> j \<Longrightarrow> c1s ! i \<noteq> c1s ! j \<and> c2s ! i \<noteq> c2s ! j"
        using distinct_nth_neq [OF o(2) i j] distinct_nth_neq [OF o(3) i2 j2] by simp
      consider "i = j" | "i \<noteq> j" "k = i" | "i \<noteq> j" "k = j" | "k \<noteq> i" "k \<noteq> j" by blast
      then show ?thesis
      proof cases
        case 1
        then show ?thesis using p(3,4) [OF k(1)] by simp
      next
        case 2
        then show ?thesis
          using p(3,4) [OF i] p(3,4) [OF j] r1 r2 d i j by simp
      next
        case 3
        then show ?thesis
          using p(3,4) [OF i] p(3,4) [OF j] r1 r2 d i j by simp
      next
        case 4
        then have n1: "c1s ! k \<noteq> c1s ! i" "c1s ! k \<noteq> c1s ! j"
          using distinct_nth_neq [OF o(2)] k i j by auto
        have n2: "c2s ! k \<noteq> c2s ! i" "c2s ! k \<noteq> c2s ! j"
          using distinct_nth_neq [OF o(3)] k i2 j2 4 by auto
        show ?thesis using p(3,4) [OF k(1)] n1 n2 4
          by (simp add: swap_nth [OF i j k(1)])
      qed
    qed
    show "?w1 ! n = v1 ! n" if "n < length v1" "n \<notin> set (c1s[i := c1s ! j, j := c1s ! i])" for n
    proof -
      have "n \<notin> set c1s" using that i j by (simp add: set_swap2)
      moreover from this have "n \<noteq> c1s ! i" "n \<noteq> c1s ! j" using i j by auto
      ultimately show ?thesis using p(5) [of n] that(1) by simp
    qed
    show "?w2 ! n = v2 ! n" if "n < length v2" "n \<notin> set c2s" for n
    proof -
      have "n \<noteq> c2s ! i" "n \<noteq> c2s ! j" using that i2 j2 by auto
      then show ?thesis using p(6) [of n] that by simp
    qed
  qed
qed

lemma remove_slot_length: "k < length xs \<Longrightarrow> length (remove_slot k xs) = length xs - 1"
  by (simp add: remove_slot_def)

lemma remove_slot_append:
  assumes "k < length xs"
  shows "remove_slot k xs @ [xs ! k] = xs[k := xs ! (length xs - 1), length xs - 1 := xs ! k]"
proof (rule nth_equalityI)
  show "length (remove_slot k xs @ [xs ! k])
        = length (xs[k := xs ! (length xs - 1), length xs - 1 := xs ! k])"
    using assms by (simp add: remove_slot_def)
  fix i assume "i < length (remove_slot k xs @ [xs ! k])"
  then have i: "i < length xs" using assms by (simp add: remove_slot_def)
  have ne: "xs \<noteq> []" using assms by auto
  show "(remove_slot k xs @ [xs ! k]) ! i
        = xs[k := xs ! (length xs - 1), length xs - 1 := xs ! k] ! i"
  proof (cases "i = length xs - 1")
    case True
    then show ?thesis using assms i by (simp add: remove_slot_def nth_append)
  next
    case False
    then have "i < length xs - 1" using i by simp
    then show ?thesis using assms i False
      by (simp add: remove_slot_def nth_append nth_butlast nth_list_update last_conv_nth [OF ne])
  qed
qed

text \<open>The last pair leaves the subsystem in both copies.\<close>

lemma drop_last_pair:
  assumes ok: "lists_ok W (c1s @ [a]) (c2s @ [b]) v1 v2"
    and pw: "paired_with (c1s @ [a]) (c2s @ [b]) v1 v2 w1 w2"
    and x: "\<not> W x" "\<not> W y"
  shows "lists_ok W c1s c2s (v1[a := x]) (v2[b := y])"
    and "paired_with c1s c2s (v1[a := x]) (v2[b := y]) (w1[a := x]) (w2[b := y])"
proof -
  note o = lists_okD [OF ok] and p = paired_withD [OF pw]
  have l: "length c1s = length c2s" using o(1) by simp
  have a: "a \<notin> set c1s" "a < length v1" using o(2) o(5) [of a] by auto
  have b: "b \<notin> set c2s" "b < length v2" using o(3) o(6) [of b] by auto
  show "lists_ok W c1s c2s (v1[a := x]) (v2[b := y])"
    unfolding lists_ok_def
  proof (intro conjI allI)
    show "length c1s = length c2s" by (rule l)
    show "distinct c1s" "distinct c2s" using o(2,3) by simp_all
    show "length (v1[a := x]) = length (v2[b := y])" using o(4) by simp
    show "(i \<in> set c1s) = (i < length (v1[a := x]) \<and> W (v1[a := x] ! i))" for i
      using o(5) [of i] a x by (cases "i = a") auto
    show "(i \<in> set c2s) = (i < length (v2[b := y]) \<and> W (v2[b := y] ! i))" for i
      using o(6) [of i] b x by (cases "i = b") auto
  qed
  show "paired_with c1s c2s (v1[a := x]) (v2[b := y]) (w1[a := x]) (w2[b := y])"
  proof (rule paired_withI)
    show "length (w1[a := x]) = length (v1[a := x])" using p by simp
    show "length (w2[b := y]) = length (v2[b := y])" using p by simp
    show "w1[a := x] ! (c1s ! j) = v2[b := y] ! (c2s ! j)
          \<and> w2[b := y] ! (c2s ! j) = v1[a := x] ! (c1s ! j)"
      if "j < length c1s" for j
    proof -
      have j': "j < length (c1s @ [a])" using that by simp
      have "c1s ! j \<noteq> a" "c2s ! j \<noteq> b" using a(1) b(1) l that by (metis nth_mem)+
      then show ?thesis using p(3,4) [OF j'] that l by (simp add: nth_append)
    qed
    show "w1[a := x] ! i = v1[a := x] ! i" if "i < length (v1[a := x])" "i \<notin> set c1s" for i
      using that p(5) [of i] by (cases "i = a") (simp_all add: p(1))
    show "w2[b := y] ! i = v2[b := y] ! i" if "i < length (v2[b := y])" "i \<notin> set c2s" for i
      using that p(6) [of i] by (cases "i = b") (simp_all add: p(2))
  qed
qed

text \<open>
  The pair in slot \<open>m\<close> is removed from the lists; it comes back at the end if the move
  is cancelled, and its two particles are outside the subsystem if the move is finished.
\<close>

lemma slot_cancelled:
  assumes ok: "lists_ok W c1s c2s v1 v2" and pw: "paired_with c1s c2s v1 v2 w1 w2"
    and m: "m < length c1s"
  shows "lists_ok W (remove_slot m c1s @ [c1s ! m]) (remove_slot m c2s @ [c2s ! m]) v1 v2"
    and "paired_with (remove_slot m c1s @ [c1s ! m]) (remove_slot m c2s @ [c2s ! m]) v1 v2 w1 w2"
proof -
  have l: "length c1s = length c2s" using lists_okD(1) [OF ok] .
  have m2: "m < length c2s" using m l by simp
  have n: "length c1s - 1 < length c1s" using m by simp
  show "lists_ok W (remove_slot m c1s @ [c1s ! m]) (remove_slot m c2s @ [c2s ! m]) v1 v2"
    using exchange_both(1) [OF ok pw m n]
    by (simp add: remove_slot_append [OF m] remove_slot_append [OF m2] l)
  show "paired_with (remove_slot m c1s @ [c1s ! m]) (remove_slot m c2s @ [c2s ! m]) v1 v2 w1 w2"
    using exchange_both(2) [OF ok pw m n]
    by (simp add: remove_slot_append [OF m] remove_slot_append [OF m2] l)
qed

lemma slot_finished:
  assumes ok: "lists_ok W c1s c2s v1 v2" and pw: "paired_with c1s c2s v1 v2 w1 w2"
    and m: "m < length c1s" and x: "\<not> W x" "\<not> W y"
  shows "lists_ok W (remove_slot m c1s) (remove_slot m c2s) (v1[c1s ! m := x]) (v2[c2s ! m := y])"
    and "paired_with (remove_slot m c1s) (remove_slot m c2s) (v1[c1s ! m := x]) (v2[c2s ! m := y])
           (w1[c1s ! m := x]) (w2[c2s ! m := y])"
  using drop_last_pair [OF slot_cancelled [OF ok pw m] x] by simp_all

text \<open>\<open>vector_find\<close>.\<close>

lemma vector_find_from_notin: "val \<notin> set xs \<Longrightarrow> vector_find_from i xs val = - 1"
  by (induction xs arbitrary: i) auto

lemma vector_find_from_in:
  "val \<in> set xs \<Longrightarrow>
   \<exists>k < length xs. vector_find_from i xs val = int (i + k) \<and> xs ! k = val"
proof (induction xs arbitrary: i)
  case Nil
  then show ?case by simp
next
  case (Cons x xs)
  show ?case
  proof (cases "x = val")
    case True
    then show ?thesis by auto
  next
    case False
    then have "val \<in> set xs" using Cons.prems by simp
    from Cons.IH [OF this, of "Suc i"] obtain k where
      "k < length xs" "vector_find_from (Suc i) xs val = int (Suc i + k)" "xs ! k = val"
      by blast
    then show ?thesis using False by (intro exI [of _ "Suc k"]) simp
  qed
qed

lemma vector_find_notin: "val \<notin> set xs \<Longrightarrow> vector_find xs val = - 1"
  by (simp add: vector_find_def vector_find_from_notin)

lemma vector_find_in:
  assumes "val \<in> set xs"
  obtains k where "k < length xs" "vector_find xs val = int k" "xs ! k = val"
  using vector_find_from_in [OF assms, of 0] by (auto simp: vector_find_def)

lemma system_ok_update:
  assumes "system_ok W C1 C2 R1 R2 Q1 Q2" "s < length R1"
    "lists_ok W c1 c2 v1 v2" "paired_with c1 c2 v1 v2 w1 w2"
  shows "system_ok W (C1[s := c1]) (C2[s := c2]) (R1[s := v1]) (R2[s := v2])
           (Q1[s := w1]) (Q2[s := w2])"
  using assms unfolding system_ok_def by (auto simp: nth_list_update)

lemma system_okD:
  assumes "system_ok W C1 C2 R1 R2 Q1 Q2"
  shows "length C1 = length R1" "length C2 = length R1" "length R2 = length R1"
    "length Q1 = length R1" "length Q2 = length R1"
    "\<And>sp. sp < length R1 \<Longrightarrow> lists_ok W (C1 ! sp) (C2 ! sp) (R1 ! sp) (R2 ! sp)"
    "\<And>sp. sp < length R1 \<Longrightarrow> paired_with (C1 ! sp) (C2 ! sp) (R1 ! sp) (R2 ! sp) (Q1 ! sp) (Q2 ! sp)"
  using assms unfolding system_ok_def by blast+

lemma swap_species_loop_char:
  assumes "\<forall>sp\<in>set ss. lists_ok W (copy1_subsystem_indices sw ! sp)
             (copy2_subsystem_indices sw ! sp) (r_vectors r1 ! sp) (r_vectors r2 ! sp)"
  shows "\<exists>v1 v2 some. swap_species_loop sw r1 r2 ss = Inr (v1, v2, some)
           \<and> length v1 = length ss \<and> length v2 = length ss
           \<and> (\<forall>k < length ss.
                 paired_with (copy1_subsystem_indices sw ! (ss ! k))
                   (copy2_subsystem_indices sw ! (ss ! k))
                   (r_vectors r1 ! (ss ! k)) (r_vectors r2 ! (ss ! k)) (v1 ! k) (v2 ! k))
           \<and> (\<not> some \<longrightarrow> v1 = map (\<lambda>sp. r_vectors r1 ! sp) ss
                          \<and> v2 = map (\<lambda>sp. r_vectors r2 ! sp) ss)"
  using assms
proof (induction ss)
  case Nil
  show ?case by (intro exI [of _ "[]"] exI [of _ False]) simp
next
  case (Cons sp ss)
  let ?c1 = "copy1_subsystem_indices sw ! sp" and ?c2 = "copy2_subsystem_indices sw ! sp"
  let ?r1 = "r_vectors r1 ! sp" and ?r2 = "r_vectors r2 ! sp"
  have ok: "lists_ok W ?c1 ?c2 ?r1 ?r2" using Cons.prems by simp
  note o = lists_okD [OF ok]
  have "\<forall>i\<in>set ?c1. i < length ?r1" "\<forall>i\<in>set ?c2. i < length ?r2" using o(5,6) by blast+
  from swap_loop_paired [OF o(1,2,3) this] obtain w1 w2 where
    l: "swap_loop ?c1 ?c2 ?r1 ?r2 = Inr (w1, w2)" and pw: "paired_with ?c1 ?c2 ?r1 ?r2 w1 w2"
    by blast
  have "\<forall>sp\<in>set ss. lists_ok W (copy1_subsystem_indices sw ! sp)
             (copy2_subsystem_indices sw ! sp) (r_vectors r1 ! sp) (r_vectors r2 ! sp)"
    using Cons.prems by simp
  from Cons.IH [OF this] obtain v1 v2 some where
    r: "swap_species_loop sw r1 r2 ss = Inr (v1, v2, some)"
    and len: "length v1 = length ss" "length v2 = length ss"
    and k: "\<And>k. k < length ss \<Longrightarrow>
                 paired_with (copy1_subsystem_indices sw ! (ss ! k))
                   (copy2_subsystem_indices sw ! (ss ! k))
                   (r_vectors r1 ! (ss ! k)) (r_vectors r2 ! (ss ! k)) (v1 ! k) (v2 ! k)"
    and n: "\<not> some \<Longrightarrow> v1 = map (\<lambda>sp. r_vectors r1 ! sp) ss
                          \<and> v2 = map (\<lambda>sp. r_vectors r2 ! sp) ss"
    by blast
  have e: "swap_species_loop sw r1 r2 (sp # ss) = Inr (w1 # v1, w2 # v2, some \<or> length ?c1 \<noteq> 0)"
    using o(1) l r by (simp add: and_then_def)
  have a: "\<forall>k < length (sp # ss).
                 paired_with (copy1_subsystem_indices sw ! ((sp # ss) ! k))
                   (copy2_subsystem_indices sw ! ((sp # ss) ! k))
                   (r_vectors r1 ! ((sp # ss) ! k)) (r_vectors r2 ! ((sp # ss) ! k))
                   ((w1 # v1) ! k) ((w2 # v2) ! k)"
  proof (intro allI impI)
    fix j assume "j < length (sp # ss)"
    then show "paired_with (copy1_subsystem_indices sw ! ((sp # ss) ! j))
                   (copy2_subsystem_indices sw ! ((sp # ss) ! j))
                   (r_vectors r1 ! ((sp # ss) ! j)) (r_vectors r2 ! ((sp # ss) ! j))
                   ((w1 # v1) ! j) ((w2 # v2) ! j)"
      using pw k by (cases j) simp_all
  qed
  have b: "\<not> (some \<or> length ?c1 \<noteq> 0) \<longrightarrow>
             w1 # v1 = map (\<lambda>sp. r_vectors r1 ! sp) (sp # ss)
             \<and> w2 # v2 = map (\<lambda>sp. r_vectors r2 ! sp) (sp # ss)"
  proof
    assume h: "\<not> (some \<or> length ?c1 \<noteq> 0)"
    then have "?c1 = []" "?c2 = []" using o(1) by simp_all
    then have "w1 = ?r1" "w2 = ?r2" using l by simp_all
    then show "w1 # v1 = map (\<lambda>sp. r_vectors r1 ! sp) (sp # ss)
             \<and> w2 # v2 = map (\<lambda>sp. r_vectors r2 ! sp) (sp # ss)"
      using n h by simp
  qed
  show ?case unfolding e using len a b by simp
qed

text \<open>
  What \<open>swap_positions\<close> returns when the lists are in order, and that nothing else
  pairs the particles as the lists say.
\<close>

lemma swap_positions_char:
  assumes n: "get_N_species r2 = get_N_species r1"
    "length (copy1_subsystem_indices sw) = get_N_species r1"
    "length (copy2_subsystem_indices sw) = get_N_species r1"
    and ok: "\<forall>sp < get_N_species r1.
            lists_ok W (copy1_subsystem_indices sw ! sp) (copy2_subsystem_indices sw ! sp)
              (r_vectors r1 ! sp) (r_vectors r2 ! sp)"
  shows "\<exists>q1 q2. swap_positions sw r1 r2 = Inr (q1, q2)
           \<and> all_N_sites q1 = all_N_sites r1 \<and> all_N_sites q2 = all_N_sites r2
           \<and> system_ok W (copy1_subsystem_indices sw) (copy2_subsystem_indices sw)
               (r_vectors r1) (r_vectors r2) (r_vectors q1) (r_vectors q2)"
proof -
  let ?N = "get_N_species r1"
  have sh: "same_shape r1 r2"
    using n ok by (auto simp: same_shape_def get_N_filled_of_def lists_ok_def)
  have "\<forall>sp\<in>set [0..<?N]. lists_ok W (copy1_subsystem_indices sw ! sp)
             (copy2_subsystem_indices sw ! sp) (r_vectors r1 ! sp) (r_vectors r2 ! sp)"
    using ok by simp
  from swap_species_loop_char [OF this] obtain v1 v2 some where
    r: "swap_species_loop sw r1 r2 [0..<?N] = Inr (v1, v2, some)"
    and len: "length v1 = ?N" "length v2 = ?N"
    and k: "\<And>k. k < ?N \<Longrightarrow>
                 paired_with (copy1_subsystem_indices sw ! k) (copy2_subsystem_indices sw ! k)
                   (r_vectors r1 ! k) (r_vectors r2 ! k) (v1 ! k) (v2 ! k)"
    and nn: "\<not> some \<Longrightarrow> v1 = map (\<lambda>sp. r_vectors r1 ! sp) [0..<?N]
                          \<and> v2 = map (\<lambda>sp. r_vectors r2 ! sp) [0..<?N]"
    by auto
  have "map (\<lambda>sp. r_vectors r2 ! sp) [0..<length (r_vectors r2)] = r_vectors r2"
    by (rule map_nth)
  then have "map (\<lambda>sp. r_vectors r2 ! sp) [0..<?N] = r_vectors r2"
    using n(1) by (simp add: get_N_species_def)
  moreover have "map (\<lambda>sp. r_vectors r1 ! sp) [0..<?N] = r_vectors r1"
    unfolding get_N_species_def by (rule map_nth)
  ultimately have id: "\<not> some \<Longrightarrow> v1 = r_vectors r1 \<and> v2 = r_vectors r2"
    using nn by simp
  define q1 where "q1 = (if some then reset_positions r1 v1 else r1)"
  define q2 where "q2 = (if some then reset_positions r2 v2 else r2)"
  have e: "swap_positions sw r1 r2 = Inr (q1, q2)"
    using n sh r by (simp add: swap_positions_def and_then_def q1_def q2_def)
  have rv: "r_vectors q1 = v1" "r_vectors q2 = v2"
    using id by (auto simp: q1_def q2_def reset_positions_def)
  have ns: "all_N_sites q1 = all_N_sites r1" "all_N_sites q2 = all_N_sites r2"
    by (simp_all add: q1_def q2_def reset_positions_def)
  have "system_ok W (copy1_subsystem_indices sw) (copy2_subsystem_indices sw)
               (r_vectors r1) (r_vectors r2) (r_vectors q1) (r_vectors q2)"
    unfolding system_ok_def rv using n len ok k by (simp add: get_N_species_def)
  then show ?thesis using e ns by blast
qed

lemma positions_eqI:
  "r_vectors a = r_vectors b \<Longrightarrow> all_N_sites a = all_N_sites b \<Longrightarrow> a = b"
  for a b :: SpeciesPositions
  by simp

lemma system_ok_unique:
  assumes a: "system_ok W C1 C2 R1 R2 Q1 Q2" and b: "system_ok W C1 C2 R1 R2 Q1' Q2'"
  shows "Q1 = Q1' \<and> Q2 = Q2'"
proof -
  note x = system_okD [OF a] and y = system_okD [OF b]
  have "Q1 ! sp = Q1' ! sp \<and> Q2 ! sp = Q2' ! sp" if "sp < length R1" for sp
    using paired_unique [OF x(7) [OF that] y(7) [OF that] lists_okD(1) [OF x(6) [OF that]]] .
  then show ?thesis using x(4,5) y(4,5) by (auto intro: nth_equalityI)
qed

lemma swapped_invariant_iff:
  "swapped_invariant subsystem sw r1 r2 \<longleftrightarrow>
     swapped_state sw = SW_READY \<and> \<not> phibeta1_dirty sw \<and> \<not> phibeta2_dirty sw
     \<and> \<not> move_in_progress (phibeta1 sw) \<and> \<not> move_in_progress (phibeta2 sw)
     \<and> all_N_sites (amp_r (phibeta1 sw)) = all_N_sites r1
     \<and> all_N_sites (amp_r (phibeta2 sw)) = all_N_sites r2
     \<and> system_ok (position_is_within subsystem)
         (copy1_subsystem_indices sw) (copy2_subsystem_indices sw)
         (r_vectors r1) (r_vectors r2)
         (r_vectors (amp_r (phibeta1 sw))) (r_vectors (amp_r (phibeta2 sw)))"
  (is "?L \<longleftrightarrow> ?R")
proof
  assume L: ?L
  then have n: "get_N_species r2 = get_N_species r1"
    "length (copy1_subsystem_indices sw) = get_N_species r1"
    "length (copy2_subsystem_indices sw) = get_N_species r1"
    and ok: "\<forall>sp < get_N_species r1.
            lists_ok (position_is_within subsystem)
              (copy1_subsystem_indices sw ! sp) (copy2_subsystem_indices sw ! sp)
              (r_vectors r1 ! sp) (r_vectors r2 ! sp)"
    and sp: "swap_positions sw r1 r2 = Inr (amp_r (phibeta1 sw), amp_r (phibeta2 sw))"
    by (simp_all add: swapped_invariant_def get_positions_def)
  from swap_positions_char [OF n ok] sp show ?R
    using L by (auto simp: swapped_invariant_def)
next
  assume R: ?R
  then have so: "system_ok (position_is_within subsystem)
         (copy1_subsystem_indices sw) (copy2_subsystem_indices sw)
         (r_vectors r1) (r_vectors r2)
         (r_vectors (amp_r (phibeta1 sw))) (r_vectors (amp_r (phibeta2 sw)))"
    by simp
  note s = system_okD [OF so]
  have n: "get_N_species r2 = get_N_species r1"
    "length (copy1_subsystem_indices sw) = get_N_species r1"
    "length (copy2_subsystem_indices sw) = get_N_species r1"
    using s by (simp_all add: get_N_species_def)
  have ok: "\<forall>sp < get_N_species r1.
            lists_ok (position_is_within subsystem)
              (copy1_subsystem_indices sw ! sp) (copy2_subsystem_indices sw ! sp)
              (r_vectors r1 ! sp) (r_vectors r2 ! sp)"
    using s(6) by (simp add: get_N_species_def)
  from swap_positions_char [OF n ok] obtain q1 q2 where
    e: "swap_positions sw r1 r2 = Inr (q1, q2)"
    and ns: "all_N_sites q1 = all_N_sites r1" "all_N_sites q2 = all_N_sites r2"
    and so': "system_ok (position_is_within subsystem)
               (copy1_subsystem_indices sw) (copy2_subsystem_indices sw)
               (r_vectors r1) (r_vectors r2) (r_vectors q1) (r_vectors q2)"
    by blast
  have "r_vectors q1 = r_vectors (amp_r (phibeta1 sw))"
    "r_vectors q2 = r_vectors (amp_r (phibeta2 sw))"
    using system_ok_unique [OF so' so] by simp_all
  then have "q1 = amp_r (phibeta1 sw)" "q2 = amp_r (phibeta2 sw)"
    using ns R by (auto intro: positions_eqI)
  then show ?L
    using R n ok e by (simp add: swapped_invariant_def get_positions_def)
qed

lemma and_then_Inr [simp]: "and_then (Inr x) f = f x"
  by (simp add: and_then_def)

lemma and_then_Inl [simp]: "and_then (Inl e) f = Inl e"
  by (simp add: and_then_def)

lemma and_then_eq_Inr: "and_then m f = Inr y \<longleftrightarrow> (\<exists>x. m = Inr x \<and> f x = Inr y)"
  by (cases m) simp_all

lemma amp_flag_id: "\<not> move_in_progress a \<Longrightarrow> a\<lparr>move_in_progress := False\<rparr> = a"
  by (cases a) simp

lemma amp_rollback_id:
  "\<not> move_in_progress a \<Longrightarrow> a\<lparr>amp_r := rollback a, move_in_progress := False\<rparr> = a"
  by (cases a) (simp add: rollback_def)

lemma system_ok_counts:
  assumes "system_ok W C1 C2 R1 R2 Q1 Q2"
    "copy1_subsystem_indices sw = C1" "copy2_subsystem_indices sw = C2"
  shows "assert_counts_match sw = Inr ()"
proof -
  note s = system_okD [OF assms(1)]
  have "\<forall>i < length C1. length (C1 ! i) = length (C2 ! i)"
    using s(1) lists_okD(1) [OF s(6)] by simp
  then show ?thesis
    using s(1,2) assms(2,3) by (simp add: assert_counts_match_def subsystem_particle_counts_match_def)
qed

lemma finish_update_ok:
  assumes p: "pending_ok (position_is_within subsystem) sw r1 r2 r1' r2'"
  shows "\<exists>swf. finish_update a1 a2 sw = Inr swf \<and> swapped_invariant subsystem swf r1' r2'"
proof -
  let ?W = "position_is_within subsystem"
  have st: "swapped_state sw = SW_UPDATE_IN_PROGRESS"
    and d: "phibeta1_dirty sw = move_in_progress (phibeta1 sw)"
      "phibeta2_dirty sw = move_in_progress (phibeta2 sw)"
    and ns: "all_N_sites (amp_r (phibeta1 sw)) = all_N_sites r1'"
      "all_N_sites (amp_r (phibeta2 sw)) = all_N_sites r2'"
    and so: "system_ok ?W (copy1_subsystem_indices sw) (copy2_subsystem_indices sw)
          (r_vectors r1') (r_vectors r2')
          (r_vectors (amp_r (phibeta1 sw))) (r_vectors (amp_r (phibeta2 sw)))"
    using p unfolding pending_ok_def by blast+
  define b1 where "b1 = (phibeta1 sw)\<lparr>move_in_progress := False\<rparr>"
  define b2 where "b2 = (phibeta2 sw)\<lparr>move_in_progress := False\<rparr>"
  define swf where "swf = sw\<lparr>swapped_state := SW_READY, phibeta1 := b1, phibeta1_dirty := False,
                       phibeta2 := b2, phibeta2_dirty := False\<rparr>"
  have c: "assert_counts_match (sw\<lparr>swapped_state := SW_READY\<rparr>) = Inr ()"
    by (rule system_ok_counts [OF so]) simp_all
  have e: "finish_update a1 a2 sw = Inr swf"
    using st c d
    by (cases "phibeta1_dirty sw"; cases "phibeta2_dirty sw")
      (simp_all add: finish_update_def swf_def b1_def b2_def finish_move_def amp_flag_id Let_def)
  have "swapped_invariant subsystem swf r1' r2'"
    unfolding swapped_invariant_iff using so ns by (simp add: swf_def b1_def b2_def)
  then show ?thesis using e by blast
qed

lemma cancel_update_ok:
  assumes p: "pending_ok (position_is_within subsystem) sw r1 r2 r1' r2'"
  shows "\<exists>swc. cancel_update a1 a2 sw = Inr swc \<and> swapped_invariant subsystem swc r1 r2"
proof -
  let ?W = "position_is_within subsystem"
  let ?sp = "species (recent_particle1 sw)"
  let ?C1 = "copy1_subsystem_indices sw" and ?C2 = "copy2_subsystem_indices sw"
  have st: "swapped_state sw = SW_UPDATE_IN_PROGRESS"
    and d: "phibeta1_dirty sw = move_in_progress (phibeta1 sw)"
      "phibeta2_dirty sw = move_in_progress (phibeta2 sw)"
    and ns: "all_N_sites (rollback (phibeta1 sw)) = all_N_sites r1"
      "all_N_sites (rollback (phibeta2 sw)) = all_N_sites r2"
    and so: "system_ok ?W ?C1 ?C2 (r_vectors r1') (r_vectors r2')
          (r_vectors (amp_r (phibeta1 sw))) (r_vectors (amp_r (phibeta2 sw)))"
    and rd: "recent_delta sw = 0 \<or> recent_delta sw = 1 \<or> recent_delta sw = - 1"
    and rs: "recent_delta sw \<noteq> 0 \<Longrightarrow>
            species (recent_particle1 sw) = species (recent_particle2 sw)
            \<and> species (recent_particle1 sw) < length (r_vectors r1)"
    and ne: "recent_delta sw = 1 \<Longrightarrow> ?C1 ! ?sp \<noteq> [] \<and> ?C2 ! ?sp \<noteq> []"
    and sc: "system_ok ?W
          (cancel_lists sw ?C1 (recent_particle1 sw))
          (cancel_lists sw ?C2 (recent_particle2 sw))
          (r_vectors r1) (r_vectors r2)
          (r_vectors (rollback (phibeta1 sw))) (r_vectors (rollback (phibeta2 sw)))"
    using p unfolding pending_ok_def by blast+
  define b1 where "b1 = (phibeta1 sw)\<lparr>amp_r := rollback (phibeta1 sw), move_in_progress := False\<rparr>"
  define b2 where "b2 = (phibeta2 sw)\<lparr>amp_r := rollback (phibeta2 sw), move_in_progress := False\<rparr>"
  define sw1 where "sw1 = sw\<lparr>swapped_state := SW_READY, phibeta1 := b1, phibeta1_dirty := False,
                       phibeta2 := b2, phibeta2_dirty := False\<rparr>"
  define swc where "swc = sw1\<lparr>copy1_subsystem_indices := cancel_lists sw ?C1 (recent_particle1 sw),
                             copy2_subsystem_indices := cancel_lists sw ?C2 (recent_particle2 sw)\<rparr>"
  have c: "assert_counts_match (sw\<lparr>swapped_state := SW_READY\<rparr>) = Inr ()"
    by (rule system_ok_counts [OF so]) simp_all
  have len: "length ?C1 = length (r_vectors r1)" "length ?C2 = length (r_vectors r1)"
    using system_okD(1,2) [OF sc] by (simp_all add: cancel_lists_def split: if_splits)
  have e: "cancel_update a1 a2 sw = Inr swc"
  proof -
    consider "recent_delta sw = 0" | "recent_delta sw = 1" | "recent_delta sw = - 1"
      using rd by blast
    then show ?thesis
    proof cases
      case 1
      then show ?thesis
        using st c d
        by (cases "phibeta1_dirty sw"; cases "phibeta2_dirty sw")
          (simp_all add: cancel_update_def sw1_def swc_def b1_def b2_def cancel_move_def
            amp_rollback_id Let_def cancel_lists_def, simp_all add: rollback_def)
    next
      case 2
      then show ?thesis
        using st c d rs ne len
        by (cases "phibeta1_dirty sw"; cases "phibeta2_dirty sw")
          (simp_all add: cancel_update_def sw1_def swc_def b1_def b2_def cancel_move_def
            amp_rollback_id Let_def cancel_lists_def pop_back_def, simp_all add: rollback_def)
    next
      case 3
      then show ?thesis
        using st c d rs len
        by (cases "phibeta1_dirty sw"; cases "phibeta2_dirty sw")
          (simp_all add: cancel_update_def sw1_def swc_def b1_def b2_def cancel_move_def
            amp_rollback_id Let_def cancel_lists_def, simp_all add: rollback_def)
    qed
  qed
  have "swapped_invariant subsystem swc r1 r2"
    unfolding swapped_invariant_iff using sc ns by (simp add: swc_def sw1_def b1_def b2_def)
  then show ?thesis using e by blast
qed

lemma perform_move_single:
  assumes "perform_move a [(p, x)] = Inr b"
  shows "\<not> move_in_progress a" "particle_is_valid (amp_r a) p"
    "b = a\<lparr>amp_r := set_position (amp_r a) p x, amp_old_r := amp_r a, move_in_progress := True\<rparr>"
  using assms
  by (auto simp: perform_move_def update_position_def set_position_def and_then_def
      split: if_splits)

lemma swap_particles_result:
  assumes "swap_particles a i j sp = Inr b"
  shows "\<not> move_in_progress a"
    "b = a\<lparr>amp_r := (amp_r a)\<lparr>r_vectors :=
            (r_vectors (amp_r a))[sp := (r_vectors (amp_r a) ! sp)
               [i := r_vectors (amp_r a) ! sp ! j, j := r_vectors (amp_r a) ! sp ! i]]\<rparr>\<rparr>"
  using assms
  by (auto simp: swap_particles_def swap_position_entries_def and_then_def split: if_splits)

lemma moved_Some:
  assumes "moved (Some p) r r'"
  shows "species p < length (r_vectors r)" "index p < length (r_vectors r ! species p)"
    "r_vectors r' = (r_vectors r)[species p := (r_vectors r ! species p)[index p := position_at r' p]]"
    "all_N_sites r' = all_N_sites r"
    "particle_is_valid r' p"
proof -
  have v: "particle_is_valid r p" and e: "r' = set_position r p (position_at r' p)"
    using assms by (simp_all add: moved_def)
  show a: "species p < length (r_vectors r)" "index p < length (r_vectors r ! species p)"
    using v by (simp_all add: particle_is_valid_def get_N_species_def get_N_filled_of_def)
  show b: "r_vectors r' = (r_vectors r)[species p := (r_vectors r ! species p)[index p := position_at r' p]]"
    by (subst e) (simp add: set_position_def)
  show "all_N_sites r' = all_N_sites r"
    by (subst e) (simp add: set_position_def)
  show "particle_is_valid r' p"
    using a unfolding b particle_is_valid_def get_N_species_def get_N_filled_of_def by simp
qed

lemma same_shape_iff:
  "same_shape r1 r2 \<longleftrightarrow>
     length (r_vectors r1) = length (r_vectors r2)
     \<and> (\<forall>i < length (r_vectors r1). length (r_vectors r1 ! i) = length (r_vectors r2 ! i))"
  by (simp add: same_shape_def get_N_species_def get_N_filled_of_def)

lemma system_ok_shape:
  assumes "system_ok W C1 C2 (r_vectors r1) (r_vectors r2) Q1 Q2"
  shows "same_shape r1 r2"
  unfolding same_shape_iff
  using system_okD(3) [OF assms] lists_okD(4) [OF system_okD(6) [OF assms]] by simp

text \<open>No particle is moved.\<close>

lemma update_none:
  assumes inv: "swapped_invariant subsystem sw r1 r2"
    and g: "get_positions phialpha1 = r1" "get_positions phialpha2 = r2"
    and u: "update subsystem None None phialpha1 phialpha2 sw = Inr sw'"
  shows "pending_ok (position_is_within subsystem) sw' r1 r2 r1 r2"
proof -
  let ?W = "position_is_within subsystem"
  have st: "swapped_state sw = SW_READY" and nd: "\<not> phibeta1_dirty sw" "\<not> phibeta2_dirty sw"
    and nm: "\<not> move_in_progress (phibeta1 sw)" "\<not> move_in_progress (phibeta2 sw)"
    and ns: "all_N_sites (amp_r (phibeta1 sw)) = all_N_sites r1"
      "all_N_sites (amp_r (phibeta2 sw)) = all_N_sites r2"
    and so: "system_ok ?W (copy1_subsystem_indices sw) (copy2_subsystem_indices sw)
         (r_vectors r1) (r_vectors r2)
         (r_vectors (amp_r (phibeta1 sw))) (r_vectors (amp_r (phibeta2 sw)))"
    using inv unfolding swapped_invariant_iff by blast+
  have sh: "same_shape r1 r2" using so by (rule system_ok_shape)
  define sw1 where "sw1 = sw\<lparr>swapped_state := SW_UPDATE_IN_PROGRESS, recent_delta := 0\<rparr>"
  have c: "assert_counts_match sw1 = Inr ()"
    by (rule system_ok_counts [OF so]) (simp_all add: sw1_def)
  have "update subsystem None None phialpha1 phialpha2 sw = Inr sw1"
    using st sh c
    by (simp add: update_def Let_def g pairing_index_of_def now_in_subsystem_def
        update_otherwise_def sw1_def)
  then have e: "sw' = sw1" using u by simp
  show ?thesis
    unfolding e pending_ok_def using nd nm ns so
    by (simp add: sw1_def rollback_def cancel_lists_def)
qed

lemma and_then_Inr_right [simp]: "and_then m Inr = m"
  by (cases m) simp_all

lemma position_at_simp: "position_at r p = r_vectors r ! species p ! index p"
  by (simp add: position_at_def)

lemma set_position_simps [simp]:
  "r_vectors (set_position r p x)
     = (r_vectors r)[species p := (r_vectors r ! species p)[index p := x]]"
  "all_N_sites (set_position r p x) = all_N_sites r"
  by (simp_all add: set_position_def)

text \<open>One particle is moved, in copy 1.\<close>

lemma update_one:
  assumes inv: "swapped_invariant subsystem sw r1 r2"
    and m: "moved (Some p) r1 r1'"
    and g: "get_positions phialpha1 = r1'" "get_positions phialpha2 = r2"
    and u: "update subsystem (Some p) None phialpha1 phialpha2 sw = Inr sw'"
  shows "pending_ok (position_is_within subsystem) sw' r1 r2 r1' r2"
proof -
  let ?W = "position_is_within subsystem"
  let ?C1 = "copy1_subsystem_indices sw" and ?C2 = "copy2_subsystem_indices sw"
  let ?Q1 = "r_vectors (amp_r (phibeta1 sw))" and ?Q2 = "r_vectors (amp_r (phibeta2 sw))"
  let ?sp = "species p" and ?i = "index p"
  let ?x = "position_at r1' p"
  have st: "swapped_state sw = SW_READY" and nd: "\<not> phibeta1_dirty sw" "\<not> phibeta2_dirty sw"
    and nm: "\<not> move_in_progress (phibeta1 sw)" "\<not> move_in_progress (phibeta2 sw)"
    and ns: "all_N_sites (amp_r (phibeta1 sw)) = all_N_sites r1"
      "all_N_sites (amp_r (phibeta2 sw)) = all_N_sites r2"
    and so: "system_ok ?W ?C1 ?C2 (r_vectors r1) (r_vectors r2) ?Q1 ?Q2"
    using inv unfolding swapped_invariant_iff by blast+
  note s = system_okD [OF so]
  note mv = moved_Some [OF m]
  have ok: "lists_ok ?W (?C1 ! ?sp) (?C2 ! ?sp) (r_vectors r1 ! ?sp) (r_vectors r2 ! ?sp)"
    and pw: "paired_with (?C1 ! ?sp) (?C2 ! ?sp) (r_vectors r1 ! ?sp) (r_vectors r2 ! ?sp)
               (?Q1 ! ?sp) (?Q2 ! ?sp)"
    using s(6,7) mv(1) by simp_all
  note o = lists_okD [OF ok]
  have sh: "same_shape r1' r2"
    using system_ok_shape [OF so] mv(1,2) unfolding same_shape_iff mv(3)
    by (auto simp: nth_list_update)
  have spl: "?sp < length ?C1" "?sp < length ?C2" using s(1,2) mv(1) by simp_all
  define sw1 where "sw1 = sw\<lparr>swapped_state := SW_UPDATE_IN_PROGRESS, recent_delta := 0,
                               recent_particle1 := p\<rparr>"
  have c: "assert_counts_match sw1 = Inr ()"
    by (rule system_ok_counts [OF so]) (simp_all add: sw1_def)
  show ?thesis
  proof (cases "?i \<in> set (?C1 ! ?sp)")
    case True
    then obtain k where k: "k < length (?C1 ! ?sp)" "vector_find (?C1 ! ?sp) ?i = int k"
      "?C1 ! ?sp ! k = ?i"
      by (rule vector_find_in)
    have k2: "k < length (?C2 ! ?sp)" using k(1) o(1) by simp
    have w: "?W ?x"
    proof (rule ccontr)
      assume "\<not> ?W ?x"
      then have "update subsystem (Some p) None phialpha1 phialpha2 sw = Inl AssertionFailed"
        using st sh mv(5) spl k(2)
        by (simp add: update_def Let_def g pairing_index_of_def now_in_subsystem_def)
      then show False using u by simp
    qed
    have ev: "update subsystem (Some p) None phialpha1 phialpha2 sw
          = and_then (perform_move (phibeta2 sw)
                       [(\<lparr>index = ?C2 ! ?sp ! k, species = ?sp\<rparr>, ?x)])
             (\<lambda>b. Inr (sw1\<lparr>phibeta2 := b, phibeta2_dirty := True\<rparr>))"
      using st sh mv(5) spl k(2) w c nd k2
      by (simp add: update_def Let_def g pairing_index_of_def now_in_subsystem_def
          update_otherwise_def update_phibeta_for_particle1_def sw1_def [symmetric])
        (simp add: sw1_def)
    obtain b where b: "perform_move (phibeta2 sw)
                       [(\<lparr>index = ?C2 ! ?sp ! k, species = ?sp\<rparr>, ?x)] = Inr b"
      and e: "sw' = sw1\<lparr>phibeta2 := b, phibeta2_dirty := True\<rparr>"
      using u [unfolded ev and_then_eq_Inr] by auto
    note pm = perform_move_single [OF b]
    have so': "system_ok ?W (?C1[?sp := ?C1 ! ?sp]) (?C2[?sp := ?C2 ! ?sp])
                 ((r_vectors r1)[?sp := (r_vectors r1 ! ?sp)[?C1 ! ?sp ! k := ?x]])
                 ((r_vectors r2)[?sp := r_vectors r2 ! ?sp])
                 (?Q1[?sp := ?Q1 ! ?sp]) (?Q2[?sp := (?Q2 ! ?sp)[?C2 ! ?sp ! k := ?x]])"
      by (rule system_ok_update [OF so mv(1) move_inside [OF ok pw k(1) w]])
    show ?thesis
      unfolding e pending_ok_def using nd nm ns so so' mv(3,4) k(3)
      by (simp add: sw1_def pm(3) rollback_def cancel_lists_def)
  next
    case False
    then have vf: "vector_find (?C1 ! ?sp) ?i = - 1" by (rule vector_find_notin)
    have w: "\<not> ?W ?x"
    proof (rule ccontr)
      assume "\<not> \<not> ?W ?x"
      then have "update subsystem (Some p) None phialpha1 phialpha2 sw = Inl AssertionFailed"
        using st sh mv(5) spl vf
        by (simp add: update_def Let_def g pairing_index_of_def now_in_subsystem_def)
      then show False using u by simp
    qed
    have ev: "update subsystem (Some p) None phialpha1 phialpha2 sw
          = and_then (perform_move (phibeta1 sw) [(p, ?x)])
             (\<lambda>b. Inr (sw1\<lparr>phibeta1 := b, phibeta1_dirty := True\<rparr>))"
      using st sh mv(5) spl vf w c nd
      by (simp add: update_def Let_def g pairing_index_of_def now_in_subsystem_def
          update_otherwise_def update_phibeta_for_particle1_def sw1_def [symmetric])
        (simp add: sw1_def)
    obtain b where b: "perform_move (phibeta1 sw) [(p, ?x)] = Inr b"
      and e: "sw' = sw1\<lparr>phibeta1 := b, phibeta1_dirty := True\<rparr>"
      using u [unfolded ev and_then_eq_Inr] by auto
    note pm = perform_move_single [OF b]
    have so': "system_ok ?W (?C1[?sp := ?C1 ! ?sp]) (?C2[?sp := ?C2 ! ?sp])
                 ((r_vectors r1)[?sp := (r_vectors r1 ! ?sp)[?i := ?x]])
                 ((r_vectors r2)[?sp := r_vectors r2 ! ?sp])
                 (?Q1[?sp := (?Q1 ! ?sp)[?i := ?x]]) (?Q2[?sp := ?Q2 ! ?sp])"
      by (rule system_ok_update [OF so mv(1) move_outside [OF ok pw False mv(2) w]])
    show ?thesis
      unfolding e pending_ok_def using nd nm ns so so' mv(3,4)
      by (simp add: sw1_def pm(3) rollback_def cancel_lists_def)
  qed
qed

lemma move_inside2:
  assumes ok: "lists_ok W c1s c2s v1 v2" and pw: "paired_with c1s c2s v1 v2 w1 w2"
    and k: "k < length c2s" and y: "W y"
  shows "lists_ok W c1s c2s v1 (v2[c2s ! k := y])"
    and "paired_with c1s c2s v1 (v2[c2s ! k := y]) (w1[c1s ! k := y]) w2"
proof -
  have l: "length c1s = length c2s" using lists_okD(1) [OF ok] .
  have ok': "lists_ok W c2s c1s v2 v1" using ok by (simp add: lists_ok_sym)
  have pw': "paired_with c2s c1s v2 v1 w2 w1" using pw l by (simp add: paired_with_sym)
  show "lists_ok W c1s c2s v1 (v2[c2s ! k := y])"
    using move_inside(1) [OF ok' pw' k y] by (simp add: lists_ok_sym)
  show "paired_with c1s c2s v1 (v2[c2s ! k := y]) (w1[c1s ! k := y]) w2"
    using move_inside(2) [OF ok' pw' k y] l by (simp add: paired_with_sym)
qed

lemma move_outside2:
  assumes ok: "lists_ok W c1s c2s v1 v2" and pw: "paired_with c1s c2s v1 v2 w1 w2"
    and b: "b \<notin> set c2s" "b < length v2" and y: "\<not> W y"
  shows "lists_ok W c1s c2s v1 (v2[b := y])"
    and "paired_with c1s c2s v1 (v2[b := y]) w1 (w2[b := y])"
proof -
  have l: "length c1s = length c2s" using lists_okD(1) [OF ok] .
  have ok': "lists_ok W c2s c1s v2 v1" using ok by (simp add: lists_ok_sym)
  have pw': "paired_with c2s c1s v2 v1 w2 w1" using pw l by (simp add: paired_with_sym)
  show "lists_ok W c1s c2s v1 (v2[b := y])"
    using move_outside(1) [OF ok' pw' b y] by (simp add: lists_ok_sym)
  show "paired_with c1s c2s v1 (v2[b := y]) w1 (w2[b := y])"
    using move_outside(2) [OF ok' pw' b y] l by (simp add: paired_with_sym)
qed

text \<open>One particle is moved, in copy 2.\<close>

lemma update_one2:
  assumes inv: "swapped_invariant subsystem sw r1 r2"
    and m: "moved (Some p) r2 r2'"
    and g: "get_positions phialpha1 = r1" "get_positions phialpha2 = r2'"
    and u: "update subsystem None (Some p) phialpha1 phialpha2 sw = Inr sw'"
  shows "pending_ok (position_is_within subsystem) sw' r1 r2 r1 r2'"
proof -
  let ?W = "position_is_within subsystem"
  let ?C1 = "copy1_subsystem_indices sw" and ?C2 = "copy2_subsystem_indices sw"
  let ?Q1 = "r_vectors (amp_r (phibeta1 sw))" and ?Q2 = "r_vectors (amp_r (phibeta2 sw))"
  let ?sp = "species p" and ?i = "index p"
  let ?y = "position_at r2' p"
  have st: "swapped_state sw = SW_READY" and nd: "\<not> phibeta1_dirty sw" "\<not> phibeta2_dirty sw"
    and nm: "\<not> move_in_progress (phibeta1 sw)" "\<not> move_in_progress (phibeta2 sw)"
    and ns: "all_N_sites (amp_r (phibeta1 sw)) = all_N_sites r1"
      "all_N_sites (amp_r (phibeta2 sw)) = all_N_sites r2"
    and so: "system_ok ?W ?C1 ?C2 (r_vectors r1) (r_vectors r2) ?Q1 ?Q2"
    using inv unfolding swapped_invariant_iff by blast+
  note s = system_okD [OF so]
  note mv = moved_Some [OF m]
  have sp1: "?sp < length (r_vectors r1)" using mv(1) s(3) by simp
  have ok: "lists_ok ?W (?C1 ! ?sp) (?C2 ! ?sp) (r_vectors r1 ! ?sp) (r_vectors r2 ! ?sp)"
    and pw: "paired_with (?C1 ! ?sp) (?C2 ! ?sp) (r_vectors r1 ! ?sp) (r_vectors r2 ! ?sp)
               (?Q1 ! ?sp) (?Q2 ! ?sp)"
    using s(6,7) sp1 by simp_all
  note o = lists_okD [OF ok]
  have sh: "same_shape r1 r2'"
    using system_ok_shape [OF so] mv(1,2) unfolding same_shape_iff mv(3)
    by (auto simp: nth_list_update)
  have spl: "?sp < length ?C1" "?sp < length ?C2" using s(1,2) sp1 by simp_all
  define sw1 where "sw1 = sw\<lparr>swapped_state := SW_UPDATE_IN_PROGRESS, recent_delta := 0,
                               recent_particle2 := p\<rparr>"
  have c: "assert_counts_match sw1 = Inr ()"
    by (rule system_ok_counts [OF so]) (simp_all add: sw1_def)
  show ?thesis
  proof (cases "?i \<in> set (?C2 ! ?sp)")
    case True
    then obtain k where k: "k < length (?C2 ! ?sp)" "vector_find (?C2 ! ?sp) ?i = int k"
      "?C2 ! ?sp ! k = ?i"
      by (rule vector_find_in)
    have k1: "k < length (?C1 ! ?sp)" using k(1) o(1) by simp
    have w: "?W ?y"
    proof (rule ccontr)
      assume "\<not> ?W ?y"
      then have "update subsystem None (Some p) phialpha1 phialpha2 sw = Inl AssertionFailed"
        using st sh mv(5) spl k(2)
        by (simp add: update_def Let_def g pairing_index_of_def now_in_subsystem_def)
      then show False using u by simp
    qed
    have ev: "update subsystem None (Some p) phialpha1 phialpha2 sw
          = and_then (perform_move (phibeta1 sw)
                       [(\<lparr>index = ?C1 ! ?sp ! k, species = ?sp\<rparr>, ?y)])
             (\<lambda>b. Inr (sw1\<lparr>phibeta1 := b, phibeta1_dirty := True\<rparr>))"
      using st sh mv(5) spl k(2) w c nd k1
      by (simp add: update_def Let_def g pairing_index_of_def now_in_subsystem_def
          update_otherwise_def update_phibeta_for_particle2_def sw1_def [symmetric])
        (simp add: sw1_def)
    obtain b where b: "perform_move (phibeta1 sw)
                       [(\<lparr>index = ?C1 ! ?sp ! k, species = ?sp\<rparr>, ?y)] = Inr b"
      and e: "sw' = sw1\<lparr>phibeta1 := b, phibeta1_dirty := True\<rparr>"
      using u [unfolded ev and_then_eq_Inr] by auto
    note pm = perform_move_single [OF b]
    have so': "system_ok ?W (?C1[?sp := ?C1 ! ?sp]) (?C2[?sp := ?C2 ! ?sp])
                 ((r_vectors r1)[?sp := r_vectors r1 ! ?sp])
                 ((r_vectors r2)[?sp := (r_vectors r2 ! ?sp)[?C2 ! ?sp ! k := ?y]])
                 (?Q1[?sp := (?Q1 ! ?sp)[?C1 ! ?sp ! k := ?y]]) (?Q2[?sp := ?Q2 ! ?sp])"
      by (rule system_ok_update [OF so sp1 move_inside2 [OF ok pw k(1) w]])
    show ?thesis
      unfolding e pending_ok_def using nd nm ns so so' mv(3,4) k(3)
      by (simp add: sw1_def pm(3) rollback_def cancel_lists_def)
  next
    case False
    then have vf: "vector_find (?C2 ! ?sp) ?i = - 1" by (rule vector_find_notin)
    have w: "\<not> ?W ?y"
    proof (rule ccontr)
      assume "\<not> \<not> ?W ?y"
      then have "update subsystem None (Some p) phialpha1 phialpha2 sw = Inl AssertionFailed"
        using st sh mv(5) spl vf
        by (simp add: update_def Let_def g pairing_index_of_def now_in_subsystem_def)
      then show False using u by simp
    qed
    have ev: "update subsystem None (Some p) phialpha1 phialpha2 sw
          = and_then (perform_move (phibeta2 sw) [(p, ?y)])
             (\<lambda>b. Inr (sw1\<lparr>phibeta2 := b, phibeta2_dirty := True\<rparr>))"
      using st sh mv(5) spl vf w c nd
      by (simp add: update_def Let_def g pairing_index_of_def now_in_subsystem_def
          update_otherwise_def update_phibeta_for_particle2_def sw1_def [symmetric])
        (simp add: sw1_def)
    obtain b where b: "perform_move (phibeta2 sw) [(p, ?y)] = Inr b"
      and e: "sw' = sw1\<lparr>phibeta2 := b, phibeta2_dirty := True\<rparr>"
      using u [unfolded ev and_then_eq_Inr] by auto
    note pm = perform_move_single [OF b]
    have so': "system_ok ?W (?C1[?sp := ?C1 ! ?sp]) (?C2[?sp := ?C2 ! ?sp])
                 ((r_vectors r1)[?sp := r_vectors r1 ! ?sp])
                 ((r_vectors r2)[?sp := (r_vectors r2 ! ?sp)[?i := ?y]])
                 (?Q1[?sp := ?Q1 ! ?sp]) (?Q2[?sp := (?Q2 ! ?sp)[?i := ?y]])"
      by (rule system_ok_update [OF so sp1 move_outside2 [OF ok pw False mv(2) w]])
    show ?thesis
      unfolding e pending_ok_def using nd nm ns so so' mv(3,4)
      by (simp add: sw1_def pm(3) rollback_def cancel_lists_def)
  qed
qed

text \<open>
  The two particles that leave are brought to the same slot: by an exchange of two slots
  in the list of one copy and of the labels of two particles in each swapped
  configuration.
\<close>

lemma repair:
  assumes ok: "lists_ok W c1s c2s v1 v2" and pw: "paired_with c1s c2s v1 v2 w1 w2"
    and k1: "k1 < length c1s" and k2: "k2 < length c1s"
    and c1'_def: "c1' = (if k1 < k2 then c1s[k1 := c1s ! k2, k2 := c1s ! k1] else c1s)"
    and c2'_def: "c2' = (if k1 < k2 then c2s else c2s[k1 := c2s ! k2, k2 := c2s ! k1])"
    and w1'_def: "w1' = w1[c1s ! k1 := w1 ! (c1s ! k2), c1s ! k2 := w1 ! (c1s ! k1)]"
    and w2'_def: "w2' = w2[c2s ! k1 := w2 ! (c2s ! k2), c2s ! k2 := w2 ! (c2s ! k1)]"
  shows "lists_ok W c1' c2' v1 v2" "paired_with c1' c2' v1 v2 w1' w2'"
    "c1' ! max k1 k2 = c1s ! k1" "c2' ! max k1 k2 = c2s ! k2"
    "max k1 k2 < length c1'"
proof -
  have l: "length c1s = length c2s" using lists_okD(1) [OF ok] .
  have k1': "k1 < length c2s" and k2': "k2 < length c2s" using k1 k2 l by simp_all
  have ok': "lists_ok W c2s c1s v2 v1" using ok by (simp add: lists_ok_sym)
  have pw': "paired_with c2s c1s v2 v1 w2 w1" using pw l by (simp add: paired_with_sym)
  show "lists_ok W c1' c2' v1 v2"
  proof (cases "k1 < k2")
    case True
    then show ?thesis using exchange_one(1) [OF ok pw k1 k2] by (simp add: c1'_def c2'_def)
  next
    case False
    then show ?thesis using exchange_one(1) [OF ok' pw' k1' k2']
      by (simp add: c1'_def c2'_def lists_ok_sym)
  qed
  show "paired_with c1' c2' v1 v2 w1' w2'"
  proof (cases "k1 < k2")
    case True
    then show ?thesis using exchange_one(2) [OF ok pw k1 k2]
      by (simp add: c1'_def c2'_def w1'_def w2'_def)
  next
    case False
    then show ?thesis using exchange_one(2) [OF ok' pw' k1' k2'] l
      by (simp add: c1'_def c2'_def w1'_def w2'_def paired_with_sym)
  qed
  show "c1' ! max k1 k2 = c1s ! k1"
    using k1 k2 by (auto simp: c1'_def max_def)
  show "c2' ! max k1 k2 = c2s ! k2"
    using k1' k2' by (auto simp: c2'_def max_def nth_list_update)
  show "max k1 k2 < length c1'" using k1 k2 by (simp add: c1'_def)
qed

lemma vector_find_nonneg: "0 \<le> vector_find xs v \<longleftrightarrow> v \<in> set xs"
proof (cases "v \<in> set xs")
  case True
  then obtain k where "vector_find xs v = int k" by (rule vector_find_in)
  then show ?thesis using True by simp
next
  case False
  then show ?thesis by (simp add: vector_find_notin)
qed

lemma vector_find_distinct:
  "distinct xs \<Longrightarrow> k < length xs \<Longrightarrow> vector_find xs (xs ! k) = int k"
proof -
  assume d: "distinct xs" and k: "k < length xs"
  then have "xs ! k \<in> set xs" by simp
  then obtain j where j: "j < length xs" "vector_find xs (xs ! k) = int j" "xs ! j = xs ! k"
    by (rule vector_find_in)
  then have "j = k" using d k by (simp add: nth_eq_iff_index_eq)
  then show ?thesis using j by simp
qed

lemma and_then_assoc: "and_then (and_then m f) g = and_then m (\<lambda>x. and_then (f x) g)"
  by (cases m) simp_all

lemma pending_okI:
  assumes "swapped_state sw = SW_UPDATE_IN_PROGRESS"
    "phibeta1_dirty sw = move_in_progress (phibeta1 sw)"
    "phibeta2_dirty sw = move_in_progress (phibeta2 sw)"
    "all_N_sites (amp_r (phibeta1 sw)) = all_N_sites r1'"
    "all_N_sites (amp_r (phibeta2 sw)) = all_N_sites r2'"
    "all_N_sites (rollback (phibeta1 sw)) = all_N_sites r1"
    "all_N_sites (rollback (phibeta2 sw)) = all_N_sites r2"
    "system_ok W (copy1_subsystem_indices sw) (copy2_subsystem_indices sw)
          (r_vectors r1') (r_vectors r2')
          (r_vectors (amp_r (phibeta1 sw))) (r_vectors (amp_r (phibeta2 sw)))"
    "recent_delta sw = 0 \<or> recent_delta sw = 1 \<or> recent_delta sw = - 1"
    "recent_delta sw \<noteq> 0 \<Longrightarrow>
            species (recent_particle1 sw) = species (recent_particle2 sw)
            \<and> species (recent_particle1 sw) < length (r_vectors r1)"
    "recent_delta sw = 1 \<Longrightarrow>
            copy1_subsystem_indices sw ! species (recent_particle1 sw) \<noteq> []
            \<and> copy2_subsystem_indices sw ! species (recent_particle1 sw) \<noteq> []"
    "system_ok W
          (cancel_lists sw (copy1_subsystem_indices sw) (recent_particle1 sw))
          (cancel_lists sw (copy2_subsystem_indices sw) (recent_particle2 sw))
          (r_vectors r1) (r_vectors r2)
          (r_vectors (rollback (phibeta1 sw))) (r_vectors (rollback (phibeta2 sw)))"
  shows "pending_ok W sw r1 r2 r1' r2'"
  unfolding pending_ok_def using assms by blast

lemma update_both_left_eq:
  assumes spl: "species p1 < length (copy1_subsystem_indices sw)"
      "species p1 < length (copy2_subsystem_indices sw)"
    and c: "c1s = copy1_subsystem_indices sw ! species p1"
      "c2s = copy2_subsystem_indices sw ! species p1"
    and k: "k1 < length c1s" "k2 < length c1s" "length c2s = length c1s"
    and nd: "\<not> phibeta1_dirty sw" "\<not> phibeta2_dirty sw"
    and c1': "c1' = (if k1 < k2 then c1s[k1 := c1s ! k2, k2 := c1s ! k1] else c1s)"
    and c2': "c2' = (if k1 < k2 then c2s else c2s[k1 := c2s ! k2, k2 := c2s ! k1])"
    and m: "m = max k1 k2"
  shows "update_both_left p1 p2 (int k1) (int k2) False False r1 r2 sw =
     and_then (if k1 = k2 then Inr (phibeta1 sw, phibeta2 sw)
               else and_then (swap_particles (phibeta1 sw) (c1s ! k1) (c1s ! k2) (species p1))
                      (\<lambda>b1. and_then (swap_particles (phibeta2 sw) (c2s ! k1) (c2s ! k2) (species p1))
                         (\<lambda>b2. Inr (b1, b2))))
       (\<lambda>(b1, b2).
          and_then (perform_move b1 [(\<lparr>index = c1' ! m, species = species p1\<rparr>,
                                      position_at r1 p1)]) (\<lambda>b1'.
          and_then (perform_move b2 [(\<lparr>index = c2' ! m, species = species p1\<rparr>,
                                      position_at r2 p2)]) (\<lambda>b2'.
            Inr (sw\<lparr>phibeta1 := b1', phibeta2 := b2',
                    phibeta1_dirty := True, phibeta2_dirty := True,
                    copy1_subsystem_indices :=
                      (copy1_subsystem_indices sw)[species p1 := remove_slot m c1'],
                    copy2_subsystem_indices :=
                      (copy2_subsystem_indices sw)[species p1 := remove_slot m c2']\<rparr>))))"
proof -
  consider "k1 = k2" | "k1 < k2" | "k2 < k1" by linarith
  then show ?thesis
  proof cases
    case 1
    then show ?thesis
      using spl k nd unfolding c1' c2' m
      by (simp add: update_both_left_def Let_def c [symmetric])
  next
    case 2
    then have mx: "max (int k1) (int k2) = int k2" "max k1 k2 = k2" by simp_all
    show ?thesis
      using 2 spl k nd unfolding c1' c2' m
      by (simp add: update_both_left_def Let_def c [symmetric] mx and_then_assoc)
  next
    case 3
    then have mx: "max (int k1) (int k2) = int k1" "max k1 k2 = k1" by simp_all
    show ?thesis
      using 3 spl k nd unfolding c1' c2' m
      by (simp add: update_both_left_def Let_def c [symmetric] mx and_then_assoc)
  qed
qed

text \<open>A particle is moved in each copy.\<close>

lemma update_two:
  assumes inv: "swapped_invariant subsystem sw r1 r2"
    and m1: "moved (Some p1) r1 r1'" and m2: "moved (Some p2) r2 r2'"
    and g: "get_positions phialpha1 = r1'" "get_positions phialpha2 = r2'"
    and u: "update subsystem (Some p1) (Some p2) phialpha1 phialpha2 sw = Inr sw'"
  shows "pending_ok (position_is_within subsystem) sw' r1 r2 r1' r2'"
proof -
  let ?W = "position_is_within subsystem"
  let ?C1 = "copy1_subsystem_indices sw" and ?C2 = "copy2_subsystem_indices sw"
  let ?Q1 = "r_vectors (amp_r (phibeta1 sw))" and ?Q2 = "r_vectors (amp_r (phibeta2 sw))"
  let ?sp = "species p1"
  let ?a = "index p1" and ?b = "index p2"
  let ?x = "position_at r1' p1" and ?y = "position_at r2' p2"
  have st: "swapped_state sw = SW_READY" and nd: "\<not> phibeta1_dirty sw" "\<not> phibeta2_dirty sw"
    and nm: "\<not> move_in_progress (phibeta1 sw)" "\<not> move_in_progress (phibeta2 sw)"
    and ns: "all_N_sites (amp_r (phibeta1 sw)) = all_N_sites r1"
      "all_N_sites (amp_r (phibeta2 sw)) = all_N_sites r2"
    and so: "system_ok ?W ?C1 ?C2 (r_vectors r1) (r_vectors r2) ?Q1 ?Q2"
    using inv unfolding swapped_invariant_iff by blast+
  note s = system_okD [OF so]
  note mv1 = moved_Some [OF m1] and mv2 = moved_Some [OF m2]
  have sp2: "species p2 < length (r_vectors r1)" using mv2(1) s(3) by simp
  have sh: "same_shape r1' r2'"
    using system_ok_shape [OF so] mv1(1,2) mv2(1,2) unfolding same_shape_iff mv1(3) mv2(3)
    by (auto simp: nth_list_update)
  have spl: "?sp < length ?C1" "species p2 < length ?C2" using s(1,2) mv1(1) sp2 by simp_all
  let ?in1 = "?a \<in> set (?C1 ! ?sp)" and ?in2 = "?b \<in> set (?C2 ! species p2)"
  have key: "species p2 = species p1
             \<and> (?in1 \<and> ?in2 \<and> \<not> ?W ?x \<and> \<not> ?W ?y \<or> \<not> ?in1 \<and> \<not> ?in2 \<and> ?W ?x \<and> ?W ?y)"
  proof (rule ccontr)
    assume "\<not> ?thesis"
    then have "update subsystem (Some p1) (Some p2) phialpha1 phialpha2 sw = Inl AssertionFailed"
      using st sh mv1(5) mv2(5) spl
      by (simp add: update_def Let_def g pairing_index_of_def now_in_subsystem_def
          vector_find_nonneg)
        (auto simp: update_def)
    then show False using u by simp
  qed
  then have se: "species p2 = ?sp" by blast
  note key2 = key [unfolded se]
  have b2: "?b < length (r_vectors r2 ! ?sp)" using mv2(2) se by simp
  have ok: "lists_ok ?W (?C1 ! ?sp) (?C2 ! ?sp) (r_vectors r1 ! ?sp) (r_vectors r2 ! ?sp)"
    and pw: "paired_with (?C1 ! ?sp) (?C2 ! ?sp) (r_vectors r1 ! ?sp) (r_vectors r2 ! ?sp)
               (?Q1 ! ?sp) (?Q2 ! ?sp)"
    using s(6,7) mv1(1) by simp_all
  note o = lists_okD [OF ok]
  have R1': "r_vectors r1' = (r_vectors r1)[?sp := (r_vectors r1 ! ?sp)[?a := ?x]]"
    using mv1(3) .
  have R2': "r_vectors r2' = (r_vectors r2)[?sp := (r_vectors r2 ! ?sp)[?b := ?y]]"
    using mv2(3) se by simp
  show ?thesis
  proof (cases ?in1)
    case False
    then have c: "?a \<notin> set (?C1 ! ?sp)" "?b \<notin> set (?C2 ! ?sp)" "?W ?x" "?W ?y"
      using key2 by auto
    have vf: "vector_find (?C1 ! ?sp) ?a = - 1" "vector_find (?C2 ! ?sp) ?b = - 1"
      using c(1,2) by (simp_all add: vector_find_notin)
    define sw2 where "sw2 = sw\<lparr>swapped_state := SW_UPDATE_IN_PROGRESS, recent_delta := 1,
                               recent_particle1 := p1, recent_particle2 := p2,
                               copy1_subsystem_indices := ?C1[?sp := ?C1 ! ?sp @ [?a]],
                               copy2_subsystem_indices := ?C2[?sp := ?C2 ! ?sp @ [?b]]\<rparr>"
    note en = both_enter [OF ok pw c(1) mv1(2) c(2) b2 c(3,4)]
    have so': "system_ok ?W (?C1[?sp := ?C1 ! ?sp @ [?a]]) (?C2[?sp := ?C2 ! ?sp @ [?b]])
                 ((r_vectors r1)[?sp := (r_vectors r1 ! ?sp)[?a := ?x]])
                 ((r_vectors r2)[?sp := (r_vectors r2 ! ?sp)[?b := ?y]])
                 (?Q1[?sp := (?Q1 ! ?sp)[?a := ?y]]) (?Q2[?sp := (?Q2 ! ?sp)[?b := ?x]])"
      by (rule system_ok_update [OF so mv1(1) en])
    have cm: "assert_counts_match sw2 = Inr ()"
      by (rule system_ok_counts [OF so']) (simp_all add: sw2_def)
    have na: "(?C1 ! ?sp @ [?a]) ! length (?C2 ! ?sp) = ?a"
      "(?C2 ! ?sp @ [?b]) ! length (?C1 ! ?sp) = ?b"
      using o(1) by (simp_all add: nth_append)
    have ev: "update subsystem (Some p1) (Some p2) phialpha1 phialpha2 sw
          = and_then (perform_move (phibeta2 sw) [(\<lparr>index = ?b, species = ?sp\<rparr>, ?x)])
             (\<lambda>b2. and_then (perform_move (phibeta1 sw) [(\<lparr>index = ?a, species = ?sp\<rparr>, ?y)])
                (\<lambda>b1. Inr (sw2\<lparr>phibeta2 := b2, phibeta2_dirty := True,
                                phibeta1 := b1, phibeta1_dirty := True\<rparr>)))"
      using st sh mv1(5) mv2(5) spl vf c(3,4) cm nd se na o(1)
      by (simp add: update_def Let_def g pairing_index_of_def now_in_subsystem_def
          update_otherwise_def update_phibeta_for_particle1_def
          update_phibeta_for_particle2_def sw2_def [symmetric] and_then_assoc)
        (simp add: sw2_def)
    obtain b2 b1 where
      b2: "perform_move (phibeta2 sw) [(\<lparr>index = ?b, species = ?sp\<rparr>, ?x)] = Inr b2"
      and b1: "perform_move (phibeta1 sw) [(\<lparr>index = ?a, species = ?sp\<rparr>, ?y)] = Inr b1"
      and e: "sw' = sw2\<lparr>phibeta2 := b2, phibeta2_dirty := True,
                        phibeta1 := b1, phibeta1_dirty := True\<rparr>"
      using u [unfolded ev and_then_eq_Inr] by auto
    note pm1 = perform_move_single [OF b1] and pm2 = perform_move_single [OF b2]
    show ?thesis
      unfolding e pending_ok_def using nd nm ns so so' R1' R2' mv1(1,4) mv2(4) se s(1,2)
      by (simp add: sw2_def pm1(3) pm2(3) rollback_def cancel_lists_def)
  next
    case True
    then have c: "?a \<in> set (?C1 ! ?sp)" "?b \<in> set (?C2 ! ?sp)" "\<not> ?W ?x" "\<not> ?W ?y"
      using key2 by auto
    obtain k1 where k1: "k1 < length (?C1 ! ?sp)" "vector_find (?C1 ! ?sp) ?a = int k1"
      "?C1 ! ?sp ! k1 = ?a"
      using c(1) by (rule vector_find_in)
    obtain k2 where k2: "k2 < length (?C2 ! ?sp)" "vector_find (?C2 ! ?sp) ?b = int k2"
      "?C2 ! ?sp ! k2 = ?b"
      using c(2) by (rule vector_find_in)
    have k2': "k2 < length (?C1 ! ?sp)" and k1': "k1 < length (?C2 ! ?sp)"
      using k1(1) k2(1) o(1) by simp_all
    define c1' where "c1' = (if k1 < k2 then (?C1 ! ?sp)[k1 := ?C1 ! ?sp ! k2, k2 := ?C1 ! ?sp ! k1]
                             else ?C1 ! ?sp)"
    define c2' where "c2' = (if k1 < k2 then ?C2 ! ?sp
                             else (?C2 ! ?sp)[k1 := ?C2 ! ?sp ! k2, k2 := ?C2 ! ?sp ! k1])"
    define w1' where "w1' = (?Q1 ! ?sp)[?C1 ! ?sp ! k1 := ?Q1 ! ?sp ! (?C1 ! ?sp ! k2),
                                        ?C1 ! ?sp ! k2 := ?Q1 ! ?sp ! (?C1 ! ?sp ! k1)]"
    define w2' where "w2' = (?Q2 ! ?sp)[?C2 ! ?sp ! k1 := ?Q2 ! ?sp ! (?C2 ! ?sp ! k2),
                                        ?C2 ! ?sp ! k2 := ?Q2 ! ?sp ! (?C2 ! ?sp ! k1)]"
    define m where "m = max k1 k2"
    note rp = repair [OF ok pw k1(1) k2' c1'_def c2'_def w1'_def w2'_def, folded m_def]
    have ma: "c1' ! m = ?a" "c2' ! m = ?b" using rp(3,4) k1(3) k2(3) by simp_all
    have ml: "m < length c1'" "m < length c2'"
      using rp(5) lists_okD(1) [OF rp(1)] by simp_all
    note fin = slot_finished [OF rp(1,2) ml(1) c(3,4), unfolded ma]
    note can = slot_cancelled [OF rp(1,2) ml(1), unfolded ma]
    have sof: "system_ok ?W (?C1[?sp := remove_slot m c1']) (?C2[?sp := remove_slot m c2'])
                 (r_vectors r1') (r_vectors r2')
                 (?Q1[?sp := w1'[?a := ?x]]) (?Q2[?sp := w2'[?b := ?y]])"
      unfolding R1' R2' by (rule system_ok_update [OF so mv1(1) fin])
    have "system_ok ?W (?C1[?sp := remove_slot m c1' @ [?a]])
                 (?C2[?sp := remove_slot m c2' @ [?b]])
                 ((r_vectors r1)[?sp := r_vectors r1 ! ?sp])
                 ((r_vectors r2)[?sp := r_vectors r2 ! ?sp])
                 (?Q1[?sp := w1']) (?Q2[?sp := w2'])"
      by (rule system_ok_update [OF so mv1(1) can])
    then have soc: "system_ok ?W (?C1[?sp := remove_slot m c1' @ [?a]])
                 (?C2[?sp := remove_slot m c2' @ [?b]])
                 (r_vectors r1) (r_vectors r2) (?Q1[?sp := w1']) (?Q2[?sp := w2'])"
      by simp
    define sw1 where "sw1 = sw\<lparr>swapped_state := SW_UPDATE_IN_PROGRESS, recent_delta := - 1,
                               recent_particle1 := p1, recent_particle2 := p2\<rparr>"
    have u1: "update_both_left p1 p2 (int k1) (int k2) False False r1' r2' sw1 = Inr sw'"
      using u st sh mv1(5) mv2(5) spl k1(2) k2(2) c(3,4) se
      by (simp add: update_def Let_def g pairing_index_of_def now_in_subsystem_def
          sw1_def [symmetric])
    have f1: "copy1_subsystem_indices sw1 = ?C1" "copy2_subsystem_indices sw1 = ?C2"
      "phibeta1 sw1 = phibeta1 sw" "phibeta2 sw1 = phibeta2 sw"
      "phibeta1_dirty sw1 = phibeta1_dirty sw" "phibeta2_dirty sw1 = phibeta2_dirty sw"
      by (simp_all add: sw1_def)
    note ub = update_both_left_eq [of p1 sw1 "?C1 ! ?sp" "?C2 ! ?sp" k1 k2 c1' c2' m p2 r1' r2',
        unfolded f1, OF spl(1) spl(2) [unfolded se] refl refl k1(1) k2' o(1) [symmetric] nd
          c1'_def c2'_def m_def, unfolded ma]
    have "\<exists>b1 b2. \<not> move_in_progress b1 \<and> \<not> move_in_progress b2
            \<and> amp_r b1 = (amp_r (phibeta1 sw))\<lparr>r_vectors := ?Q1[?sp := w1']\<rparr>
            \<and> amp_r b2 = (amp_r (phibeta2 sw))\<lparr>r_vectors := ?Q2[?sp := w2']\<rparr>
            \<and> and_then (perform_move b1 [(\<lparr>index = ?a, species = ?sp\<rparr>, ?x)]) (\<lambda>b1'.
               and_then (perform_move b2 [(\<lparr>index = ?b, species = ?sp\<rparr>, ?y)]) (\<lambda>b2'.
                 Inr (sw1\<lparr>phibeta1 := b1', phibeta2 := b2',
                         phibeta1_dirty := True, phibeta2_dirty := True,
                         copy1_subsystem_indices := ?C1[?sp := remove_slot m c1'],
                         copy2_subsystem_indices := ?C2[?sp := remove_slot m c2']\<rparr>)))
              = Inr sw'"
    proof (cases "k1 = k2")
      case True
      have w: "w1' = ?Q1 ! ?sp" "w2' = ?Q2 ! ?sp"
        using True by (simp_all add: w1'_def w2'_def)
      have i: "(amp_r (phibeta1 sw))\<lparr>r_vectors := ?Q1[?sp := ?Q1 ! ?sp]\<rparr> = amp_r (phibeta1 sw)"
        "(amp_r (phibeta2 sw))\<lparr>r_vectors := ?Q2[?sp := ?Q2 ! ?sp]\<rparr> = amp_r (phibeta2 sw)"
        by simp_all
      show ?thesis
        using u1 [unfolded ub] True nm unfolding w i
        by (intro exI [of _ "phibeta1 sw"] exI [of _ "phibeta2 sw"]) simp
    next
      case False
      from u1 [unfolded ub] False obtain b1 b2 where
        s1: "swap_particles (phibeta1 sw) (?C1 ! ?sp ! k1) (?C1 ! ?sp ! k2) ?sp = Inr b1"
        and s2: "swap_particles (phibeta2 sw) (?C2 ! ?sp ! k1) (?C2 ! ?sp ! k2) ?sp = Inr b2"
        and r: "and_then (perform_move b1 [(\<lparr>index = ?a, species = ?sp\<rparr>, ?x)]) (\<lambda>b1'.
               and_then (perform_move b2 [(\<lparr>index = ?b, species = ?sp\<rparr>, ?y)]) (\<lambda>b2'.
                 Inr (sw1\<lparr>phibeta1 := b1', phibeta2 := b2',
                         phibeta1_dirty := True, phibeta2_dirty := True,
                         copy1_subsystem_indices := ?C1[?sp := remove_slot m c1'],
                         copy2_subsystem_indices := ?C2[?sp := remove_slot m c2']\<rparr>)))
              = Inr sw'"
        by (auto simp: and_then_eq_Inr)
      note r1 = swap_particles_result [OF s1] and r2 = swap_particles_result [OF s2]
      show ?thesis
        using r nm
        by (intro exI [of _ b1] exI [of _ b2]) (simp add: r1(2) r2(2) w1'_def w2'_def)
    qed
    then obtain b1 b2 b1' b2' where
      nb: "\<not> move_in_progress b1" "\<not> move_in_progress b2"
      and rb: "amp_r b1 = (amp_r (phibeta1 sw))\<lparr>r_vectors := ?Q1[?sp := w1']\<rparr>"
        "amp_r b2 = (amp_r (phibeta2 sw))\<lparr>r_vectors := ?Q2[?sp := w2']\<rparr>"
      and p1: "perform_move b1 [(\<lparr>index = ?a, species = ?sp\<rparr>, ?x)] = Inr b1'"
      and p2: "perform_move b2 [(\<lparr>index = ?b, species = ?sp\<rparr>, ?y)] = Inr b2'"
      and e: "sw' = sw1\<lparr>phibeta1 := b1', phibeta2 := b2',
                         phibeta1_dirty := True, phibeta2_dirty := True,
                         copy1_subsystem_indices := ?C1[?sp := remove_slot m c1'],
                         copy2_subsystem_indices := ?C2[?sp := remove_slot m c2']\<rparr>"
      unfolding and_then_eq_Inr by auto
    note pm1 = perform_move_single [OF p1] and pm2 = perform_move_single [OF p2]
    have spQ: "?sp < length ?Q1" "?sp < length ?Q2" using s(4,5) mv1(1) by simp_all
    have f: "swapped_state sw' = SW_UPDATE_IN_PROGRESS"
      "phibeta1_dirty sw'" "phibeta2_dirty sw'" "phibeta1 sw' = b1'" "phibeta2 sw' = b2'"
      "recent_delta sw' = - 1" "recent_particle1 sw' = p1" "recent_particle2 sw' = p2"
      "copy1_subsystem_indices sw' = ?C1[?sp := remove_slot m c1']"
      "copy2_subsystem_indices sw' = ?C2[?sp := remove_slot m c2']"
      by (simp_all add: e sw1_def)
    have a1: "r_vectors (amp_r b1') = ?Q1[?sp := w1'[?a := ?x]]"
      "all_N_sites (amp_r b1') = all_N_sites r1" "move_in_progress b1'"
      "rollback b1' = (amp_r (phibeta1 sw))\<lparr>r_vectors := ?Q1[?sp := w1']\<rparr>"
      using spQ ns by (simp_all add: pm1(3) rb rollback_def)
    have a2: "r_vectors (amp_r b2') = ?Q2[?sp := w2'[?b := ?y]]"
      "all_N_sites (amp_r b2') = all_N_sites r2" "move_in_progress b2'"
      "rollback b2' = (amp_r (phibeta2 sw))\<lparr>r_vectors := ?Q2[?sp := w2']\<rparr>"
      using spQ ns by (simp_all add: pm2(3) rb rollback_def)
    have cl: "cancel_lists sw' (copy1_subsystem_indices sw') (recent_particle1 sw')
                = ?C1[?sp := remove_slot m c1' @ [?a]]"
      "cancel_lists sw' (copy2_subsystem_indices sw') (recent_particle2 sw')
                = ?C2[?sp := remove_slot m c2' @ [?b]]"
      using spl se by (simp_all add: cancel_lists_def f)
    show ?thesis
    proof (rule pending_okI)
      show "system_ok ?W (copy1_subsystem_indices sw') (copy2_subsystem_indices sw')
             (r_vectors r1') (r_vectors r2')
             (r_vectors (amp_r (phibeta1 sw'))) (r_vectors (amp_r (phibeta2 sw')))"
        using sof by (simp add: f a1 a2)
      show "system_ok ?W (cancel_lists sw' (copy1_subsystem_indices sw') (recent_particle1 sw'))
             (cancel_lists sw' (copy2_subsystem_indices sw') (recent_particle2 sw'))
             (r_vectors r1) (r_vectors r2)
             (r_vectors (rollback (phibeta1 sw'))) (r_vectors (rollback (phibeta2 sw')))"
        unfolding cl using soc by (simp add: f a1 a2)
    qed (simp_all add: f a1 a2 mv1(1,4) mv2(4) se ns)
  qed
qed

lemma indices_within_set:
  "i \<in> set (indices_within subsystem r sp n)
   \<longleftrightarrow> i < n \<and> position_is_within subsystem (r_vectors r ! sp ! i)"
  by (auto simp: indices_within_def position_at_def)

lemma indices_within_distinct: "distinct (indices_within subsystem r sp n)"
  by (simp add: indices_within_def)

lemma resize_empty:
  "map (\<lambda>sp. resize_vectors n [] ! sp @ f sp) [0..<n] = map f [0..<n]"
  by (rule nth_equalityI) (simp_all add: resize_vectors_def)

text \<open>\<open>initialize\<close> on a system fresh from the constructor.\<close>

lemma initialize_ok:
  assumes i: "initialize subsystem a1 a2 (SwappedSystem_of u0) = Inr sw"
  shows "swapped_invariant subsystem sw (get_positions a1) (get_positions a2)"
proof -
  let ?r1 = "get_positions a1" and ?r2 = "get_positions a2"
  let ?W = "position_is_within subsystem"
  let ?N = "get_N_species ?r1"
  let ?c1 = "map (\<lambda>sp. indices_within subsystem ?r1 sp (get_N_filled_of ?r1 sp)) [0..<?N]"
  let ?c2 = "map (\<lambda>sp. indices_within subsystem ?r2 sp (get_N_filled_of ?r1 sp)) [0..<?N]"
  define sw1 where "sw1 = (SwappedSystem_of u0)\<lparr>copy1_subsystem_indices := ?c1,
                                                  copy2_subsystem_indices := ?c2\<rparr>"
  have f: "copy1_subsystem_indices sw1 = ?c1" "copy2_subsystem_indices sw1 = ?c2"
    "swapped_state sw1 = SW_UNINITIALIZED"
    by (simp_all add: sw1_def SwappedSystem_of_def)
  have e: "initialize subsystem a1 a2 (SwappedSystem_of u0)
           = (if \<not> same_shape ?r1 ?r2 then Inl AssertionFailed
              else if \<not> (all_N_sites ?r1 = all_N_sites ?r2) then Inl AssertionFailed
              else if \<not> lattice_makes_sense subsystem then Inl AssertionFailed
              else and_then (assert_counts_match sw1) (\<lambda>_.
                   and_then (reinitialize_phibetas a1 a2 sw1) (\<lambda>sw2.
                     Inr (sw2\<lparr>swapped_state := SW_READY\<rparr>))))"
    by (simp add: initialize_def Let_def sw1_def SwappedSystem_of_def resize_empty)
  from i [unfolded e] have sh: "same_shape ?r1 ?r2"
    and r: "and_then (assert_counts_match sw1) (\<lambda>_.
                   and_then (reinitialize_phibetas a1 a2 sw1) (\<lambda>sw2.
                     Inr (sw2\<lparr>swapped_state := SW_READY\<rparr>))) = Inr sw"
    by (simp_all split: if_splits)
  from r obtain sw2 where cm: "assert_counts_match sw1 = Inr ()"
    and ri: "reinitialize_phibetas a1 a2 sw1 = Inr sw2"
    and sw: "sw = sw2\<lparr>swapped_state := SW_READY\<rparr>"
    by (auto simp: and_then_eq_Inr)
  have n: "get_N_species ?r2 = ?N" "length (copy1_subsystem_indices sw1) = ?N"
    "length (copy2_subsystem_indices sw1) = ?N"
    using sh by (simp_all add: f same_shape_def)
  have shl: "\<And>sp. sp < ?N \<Longrightarrow> length (r_vectors ?r2 ! sp) = length (r_vectors ?r1 ! sp)"
    using sh by (simp add: same_shape_def get_N_filled_of_def)
  have cl: "\<And>sp. sp < ?N \<Longrightarrow> length (?c1 ! sp) = length (?c2 ! sp)"
    using cm
    by (auto simp: assert_counts_match_def subsystem_particle_counts_match_def f
        and_then_eq_Inr split: if_splits)
  have ok: "\<forall>sp < ?N. lists_ok ?W (copy1_subsystem_indices sw1 ! sp)
              (copy2_subsystem_indices sw1 ! sp) (r_vectors ?r1 ! sp) (r_vectors ?r2 ! sp)"
  proof (intro allI impI)
    fix sp assume sp: "sp < ?N"
    show "lists_ok ?W (copy1_subsystem_indices sw1 ! sp)
              (copy2_subsystem_indices sw1 ! sp) (r_vectors ?r1 ! sp) (r_vectors ?r2 ! sp)"
      unfolding lists_ok_def f
      using sp cl [OF sp] shl [OF sp]
      by (simp add: indices_within_set indices_within_distinct get_N_filled_of_def)
  qed
  from swap_positions_char [OF n ok] obtain q1 q2 where
    q: "swap_positions sw1 ?r1 ?r2 = Inr (q1, q2)"
    and ns: "all_N_sites q1 = all_N_sites ?r1" "all_N_sites q2 = all_N_sites ?r2"
    and so: "system_ok ?W (copy1_subsystem_indices sw1) (copy2_subsystem_indices sw1)
               (r_vectors ?r1) (r_vectors ?r2) (r_vectors q1) (r_vectors q2)"
    by blast
  have sw2: "sw2 = sw1\<lparr>phibeta1 := reset_amplitude (clone a1) q1, phibeta1_dirty := False,
                        phibeta2 := reset_amplitude (clone a2) q2, phibeta2_dirty := False\<rparr>"
    using ri cm q by (simp add: reinitialize_phibetas_def)
  show ?thesis
    unfolding swapped_invariant_iff sw sw2
    using so ns by (simp add: reset_amplitude_def)
qed

lemma count_listed:
  assumes "distinct xs" "\<forall>x\<in>set xs. x < n"
  shows "length (filter (\<lambda>i. i \<in> set xs) [0..<n]) = length xs"
proof -
  have "distinct (filter (\<lambda>i. i \<in> set xs) [0..<n])" by simp
  then have "length (filter (\<lambda>i. i \<in> set xs) [0..<n]) = card (set (filter (\<lambda>i. i \<in> set xs) [0..<n]))"
    by (rule distinct_card [symmetric])
  also have "set (filter (\<lambda>i. i \<in> set xs) [0..<n]) = set xs" using assms(2) by auto
  also have "card (set xs) = length xs" using assms(1) by (rule distinct_card)
  finally show ?thesis .
qed

lemma vector_find_listed: "vector_find xs v \<noteq> - 1 \<longleftrightarrow> v \<in> set xs"
proof (cases "v \<in> set xs")
  case True
  then obtain k where "vector_find xs v = int k" by (rule vector_find_in)
  then show ?thesis using True by simp
next
  case False
  then show ?thesis by (simp add: vector_find_notin)
qed

lemma lists_ok_verified:
  assumes ok: "lists_ok (position_is_within subsystem)
                 (copy1_subsystem_indices sw ! sp) (copy2_subsystem_indices sw ! sp)
                 (r_vectors r1 ! sp) (r_vectors r2 ! sp)"
  shows "lists_verified subsystem r1 r2 sw sp"
proof -
  note o = lists_okD [OF ok]
  have c1: "length (filter (\<lambda>i. i \<in> set (copy1_subsystem_indices sw ! sp))
              [0..<length (r_vectors r1 ! sp)]) = length (copy1_subsystem_indices sw ! sp)"
    using o(2) o(5) by (intro count_listed) auto
  have c2: "length (filter (\<lambda>i. i \<in> set (copy2_subsystem_indices sw ! sp))
              [0..<length (r_vectors r2 ! sp)]) = length (copy2_subsystem_indices sw ! sp)"
    using o(3) o(6) by (intro count_listed) auto
  show ?thesis
    unfolding lists_verified_def Let_def vector_find_listed get_N_filled_of_def position_at_def
    using c1 c2 o(1,4,5,6) by simp
qed

text \<open>A system that satisfies the swapped invariant passes the two checks of the code.\<close>

lemma invariant_verified:
  assumes inv: "swapped_invariant subsystem sw r1 r2"
    and ns: "all_N_sites r1 = all_N_sites r2"
    and g: "get_positions phialpha1 = r1" "get_positions phialpha2 = r2"
  shows "subsystem_particle_counts_match sw = Inr True"
    and "verify_phibetas subsystem phialpha1 phialpha2 sw = Inr ()"
proof -
  let ?W = "position_is_within subsystem"
  have n: "get_N_species r2 = get_N_species r1"
    "length (copy1_subsystem_indices sw) = get_N_species r1"
    "length (copy2_subsystem_indices sw) = get_N_species r1"
    and ok: "\<And>sp. sp < get_N_species r1 \<Longrightarrow>
            lists_ok ?W (copy1_subsystem_indices sw ! sp) (copy2_subsystem_indices sw ! sp)
              (r_vectors r1 ! sp) (r_vectors r2 ! sp)"
    and sp: "swap_positions sw r1 r2
              = Inr (get_positions (phibeta1 sw), get_positions (phibeta2 sw))"
    using inv unfolding swapped_invariant_def by blast+
  have so: "system_ok ?W (copy1_subsystem_indices sw) (copy2_subsystem_indices sw)
         (r_vectors r1) (r_vectors r2)
         (r_vectors (amp_r (phibeta1 sw))) (r_vectors (amp_r (phibeta2 sw)))"
    using inv unfolding swapped_invariant_iff by blast
  note s = system_okD [OF so]
  show "subsystem_particle_counts_match sw = Inr True"
    using n ok by (auto simp: subsystem_particle_counts_match_def dest: lists_okD(1))
  have lv: "\<forall>sp < get_N_species r1. lists_verified subsystem r1 r2 sw sp"
    using ok by (auto intro: lists_ok_verified)
  have v: "particle_is_valid (amp_r (phibeta1 sw)) \<lparr>index = i, species = sp\<rparr>
           \<and> particle_is_valid (amp_r (phibeta2 sw)) \<lparr>index = i, species = sp\<rparr>"
    if "sp < get_N_species r1" "i < get_N_filled_of r1 sp" for sp i
  proof -
    have sl: "sp < length (r_vectors r1)" using that(1) by (simp add: get_N_species_def)
    note p = paired_withD(1,2) [OF s(7) [OF sl]] and o = lists_okD(4) [OF s(6) [OF sl]]
    show ?thesis
      using that sl p o s(4,5)
      by (simp add: particle_is_valid_def get_N_species_def get_N_filled_of_def)
  qed
  have g': "amp_r phialpha1 = r1" "amp_r phialpha2 = r2"
    using g by (simp_all add: get_positions_def)
  show "verify_phibetas subsystem phialpha1 phialpha2 sw = Inr ()"
    using n ns lv v
    by (simp add: verify_phibetas_def g' sp [unfolded get_positions_def] get_positions_def)
qed

lemma moved_sites:
  assumes "moved particle r r'"
  shows "all_N_sites r' = all_N_sites r"
proof (cases particle)
  case None
  then show ?thesis using assms by (simp add: moved_def)
next
  case (Some p)
  then show ?thesis using moved_Some(4) [of p r r'] assms by simp
qed

text \<open>An update that completes leaves the system ready to be finished or cancelled.\<close>

lemma update_pending:
  assumes inv: "swapped_invariant subsystem sw r1 r2"
    and m1: "moved particle1 r1 (get_positions phialpha1)"
    and m2: "moved particle2 r2 (get_positions phialpha2)"
    and u: "update subsystem particle1 particle2 phialpha1 phialpha2 sw = Inr sw'"
  shows "pending_ok (position_is_within subsystem) sw' r1 r2
           (get_positions phialpha1) (get_positions phialpha2)"
proof (cases particle1)
  case None
  note n1 = this
  then have e1: "get_positions phialpha1 = r1" using m1 by (simp add: moved_def)
  show ?thesis
  proof (cases particle2)
    case None
    then have e2: "get_positions phialpha2 = r2" using m2 by (simp add: moved_def)
    show ?thesis
      using update_none [OF inv e1 e2 u [unfolded n1 None]] by (simp add: e1 e2)
  next
    case (Some p2)
    show ?thesis
      using update_one2 [OF inv m2 [unfolded Some] e1 refl u [unfolded n1 Some]]
      by (simp add: e1)
  qed
next
  case (Some p1)
  note s1 = this
  show ?thesis
  proof (cases particle2)
    case None
    then have e2: "get_positions phialpha2 = r2" using m2 by (simp add: moved_def)
    show ?thesis
      using update_one [OF inv m1 [unfolded s1] refl e2 u [unfolded s1 None]]
      by (simp add: e2)
  next
    case (Some p2)
    show ?thesis
      by (rule update_two [OF inv m1 [unfolded s1] m2 [unfolded Some] refl refl
            u [unfolded s1 Some]])
  qed
qed

lemma at_rest_invariant:
  "at_rest subsystem sw r1 r2 \<Longrightarrow>
   swapped_invariant subsystem sw r1 r2 \<and> all_N_sites r1 = all_N_sites r2"
proof (induction rule: at_rest.induct)
  case (initialized phialpha1 phialpha2 uninit sw)
  have "all_N_sites (get_positions phialpha1) = all_N_sites (get_positions phialpha2)"
    using initialized
    by (auto simp: initialize_def Let_def SwappedSystem_of_def split: if_splits)
  then show ?case using initialize_ok [OF initialized] by simp
next
  case (finished sw r1 r2 particle1 phialpha1 particle2 phialpha2 sw' sw'')
  then have inv: "swapped_invariant subsystem sw r1 r2" and ns: "all_N_sites r1 = all_N_sites r2"
    by simp_all
  note p = update_pending [OF inv finished.hyps(2,3,4)]
  from finish_update_ok [OF p, of phialpha1 phialpha2] finished.hyps(5)
  have "swapped_invariant subsystem sw'' (get_positions phialpha1) (get_positions phialpha2)"
    by auto
  then show ?case
    using ns moved_sites [OF finished.hyps(2)] moved_sites [OF finished.hyps(3)] by simp
next
  case (cancelled sw r1 r2 particle1 phialpha1 particle2 phialpha2 sw' old1 old2 sw'')
  then have inv: "swapped_invariant subsystem sw r1 r2" and ns: "all_N_sites r1 = all_N_sites r2"
    by simp_all
  note p = update_pending [OF inv cancelled.hyps(2,3,4)]
  from cancel_update_ok [OF p, of old1 old2] cancelled.hyps(7)
  have "swapped_invariant subsystem sw'' r1 r2" by auto
  then show ?case using ns by simp
qed

lemmas swapped_eval =
  initialize_def update_def finish_update_def cancel_update_def Let_def SwappedSystem_of_def
  get_positions_def same_shape_def get_N_species_def get_N_filled_of_def
  resize_vectors_def indices_within_def position_at_def assert_counts_match_def
  subsystem_particle_counts_match_def reinitialize_phibetas_def swap_positions_def
  reset_positions_def reset_amplitude_def clone_def particle_is_valid_def
  pairing_index_of_def now_in_subsystem_def vector_find_def update_both_left_def
  update_otherwise_def update_phibeta_for_particle1_def update_phibeta_for_particle2_def
  swap_particles_def swap_position_entries_def perform_move_def update_position_def
  finish_move_def cancel_move_def remove_slot_def pop_back_def and_then_def

lemma example_initialize:
  "initialize left_half (amplitude_at [[0, 1]]) (amplitude_at [[1, 0]])
     (SwappedSystem_of blank_system) = Inr example_ready"
  by (simp add: swapped_eval left_half_def amplitude_at_def blank_system_def example_ready_def
      eval_nat_numeral)

lemma example_update:
  "update left_half (Some \<lparr>index = 0, species = 0\<rparr>) (Some \<lparr>index = 1, species = 0\<rparr>)
     (amplitude_at [[2, 1]]) (amplitude_at [[1, 3]]) example_ready = Inr example_pending"
  by (simp add: swapped_eval left_half_def amplitude_at_def blank_system_def example_ready_def
      example_pending_def eval_nat_numeral All_less_Suc Ex_less_Suc)


lemma example_moved:
  "moved (Some \<lparr>index = 0, species = 0\<rparr>) (get_positions (amplitude_at [[0, 1]]))
     (get_positions (amplitude_at [[2, 1]]))"
  "moved (Some \<lparr>index = 1, species = 0\<rparr>) (get_positions (amplitude_at [[1, 0]]))
     (get_positions (amplitude_at [[1, 3]]))"
  by (simp_all add: moved_def amplitude_at_def get_positions_def particle_is_valid_def
      get_N_species_def get_N_filled_of_def set_position_def position_at_def)

lemma example_ready_at_rest:
  "at_rest left_half example_ready (get_positions (amplitude_at [[0, 1]]))
     (get_positions (amplitude_at [[1, 0]]))"
  by (rule at_rest.initialized [OF example_initialize])


lemma vector_find_eq:
  assumes "vector_find xs v = int k"
  shows "k < length xs" "xs ! k = v"
proof -
  have "v \<in> set xs" using assms vector_find_nonneg [of xs v] by simp
  then obtain j where "j < length xs" "vector_find xs v = int j" "xs ! j = v"
    by (rule vector_find_in)
  then show "k < length xs" "xs ! k = v" using assms by simp_all
qed




lemma example_indices:
  "pairing_index_of (copy1_subsystem_indices example_ready) (Some \<lparr>index = 0, species = 0\<rparr>)
     = Inr (int 0)"
  "pairing_index_of (copy2_subsystem_indices example_ready) (Some \<lparr>index = 1, species = 0\<rparr>)
     = Inr (int 1)"
  by (simp_all add: pairing_index_of_def example_ready_def blank_system_def vector_find_def)

lemma example_fields:
  "copy1_subsystem_indices example_ready = [[0, 1]]"
  "copy2_subsystem_indices example_ready = [[0, 1]]"
  "copy1_subsystem_indices example_pending = [[1]]"
  "copy2_subsystem_indices example_pending = [[0]]"
  "position_at (get_positions (amplitude_at [[2, 1]])) \<lparr>index = 0, species = 0\<rparr> = 2"
  "position_at (get_positions (amplitude_at [[1, 3]])) \<lparr>index = 1, species = 0\<rparr> = 3"
  by (simp_all add: example_ready_def example_pending_def blank_system_def amplitude_at_def
      get_positions_def position_at_def)

text \<open>
  Claim C3, as amended. A system at rest follows the move of a particle \<open>p1\<close> in copy 1
  and of a particle \<open>p2\<close> in copy 2 that were paired at two different slots \<open>k1\<close> and
  \<open>k2\<close>. If \<open>update\<close> completes, then both particles are of the same species and have
  left the subsystem; \<open>update\<close> has exchanged the particles of the slots \<open>k1\<close> and
  \<open>k2\<close> within each of the two phibetas and the two slots within the index list of one
  copy (copy 1 if \<open>k1 < k2\<close>, copy 2 otherwise), so that the two particles that leave are
  at the slot \<open>max k1 k2\<close> of their lists; it has then applied one move to each phibeta,
  has overwritten that slot by the last slot in both lists and removed the last slot; and
  \<open>finish_update\<close> gives a system that passes \<open>verify_phibetas\<close>.
\<close>

theorem both_left_repairs_pairing:
  assumes r: "at_rest subsystem sw r1 r2"
    and m1: "moved (Some p1) r1 (get_positions phialpha1)"
    and m2: "moved (Some p2) r2 (get_positions phialpha2)"
    and k1: "pairing_index_of (copy1_subsystem_indices sw) (Some p1) = Inr (int k1)"
    and k2: "pairing_index_of (copy2_subsystem_indices sw) (Some p2) = Inr (int k2)"
    and ne: "k1 \<noteq> k2"
    and u: "update subsystem (Some p1) (Some p2) phialpha1 phialpha2 sw = Inr sw'"
  shows "let sp = species p1;
             c1_s = copy1_subsystem_indices sw ! sp;
             c2_s = copy2_subsystem_indices sw ! sp;
             c1_swapped = (if k1 < k2 then c1_s[k1 := c1_s ! k2, k2 := c1_s ! k1] else c1_s);
             c2_swapped = (if k1 < k2 then c2_s else c2_s[k1 := c2_s ! k2, k2 := c2_s ! k1]);
             max_pairing_index = max k1 k2
         in species p2 = sp
            \<and> \<not> now_in_subsystem subsystem (get_positions phialpha1) (Some p1)
            \<and> \<not> now_in_subsystem subsystem (get_positions phialpha2) (Some p2)
            \<and> (\<exists>b1 b2.
                  swap_particles (phibeta1 sw) (c1_s ! k1) (c1_s ! k2) sp = Inr b1
                  \<and> swap_particles (phibeta2 sw) (c2_s ! k1) (c2_s ! k2) sp = Inr b2
                  \<and> perform_move b1 [(p1, position_at (get_positions phialpha1) p1)]
                      = Inr (phibeta1 sw')
                  \<and> perform_move b2 [(p2, position_at (get_positions phialpha2) p2)]
                      = Inr (phibeta2 sw'))
            \<and> c1_swapped ! max_pairing_index = index p1
            \<and> c2_swapped ! max_pairing_index = index p2
            \<and> copy1_subsystem_indices sw'
                = (copy1_subsystem_indices sw)[sp := remove_slot max_pairing_index c1_swapped]
            \<and> copy2_subsystem_indices sw'
                = (copy2_subsystem_indices sw)[sp := remove_slot max_pairing_index c2_swapped]
            \<and> (\<exists>swf. finish_update phialpha1 phialpha2 sw' = Inr swf
                  \<and> verify_phibetas subsystem phialpha1 phialpha2 swf = Inr ())"
proof -
  let ?r1' = "get_positions phialpha1" and ?r2' = "get_positions phialpha2"
  let ?W = "position_is_within subsystem"
  let ?C1 = "copy1_subsystem_indices sw" and ?C2 = "copy2_subsystem_indices sw"
  let ?Q1 = "r_vectors (amp_r (phibeta1 sw))" and ?Q2 = "r_vectors (amp_r (phibeta2 sw))"
  let ?sp = "species p1"
  let ?a = "index p1" and ?b = "index p2"
  let ?x = "position_at ?r1' p1" and ?y = "position_at ?r2' p2"
  from at_rest_invariant [OF r]
  have inv: "swapped_invariant subsystem sw r1 r2" and nsr: "all_N_sites r1 = all_N_sites r2"
    by simp_all
  have st: "swapped_state sw = SW_READY" and nd: "\<not> phibeta1_dirty sw" "\<not> phibeta2_dirty sw"
    and so: "system_ok ?W ?C1 ?C2 (r_vectors r1) (r_vectors r2) ?Q1 ?Q2"
    using inv unfolding swapped_invariant_iff by blast+
  note s = system_okD [OF so]
  note mv1 = moved_Some [OF m1] and mv2 = moved_Some [OF m2]
  have sp2: "species p2 < length (r_vectors r1)" using mv2(1) s(3) by simp
  have sh: "same_shape ?r1' ?r2'"
    using system_ok_shape [OF so] mv1(1,2) mv2(1,2) unfolding same_shape_iff mv1(3) mv2(3)
    by (auto simp: nth_list_update)
  have spl: "?sp < length ?C1" "species p2 < length ?C2" using s(1,2) mv1(1) sp2 by simp_all
  have vf: "vector_find (?C1 ! ?sp) ?a = int k1" "vector_find (?C2 ! species p2) ?b = int k2"
    using k1 k2 spl by (simp_all add: pairing_index_of_def)
  have key: "species p2 = species p1 \<and> \<not> ?W ?x \<and> \<not> ?W ?y"
  proof (rule ccontr)
    assume "\<not> ?thesis"
    then have "update subsystem (Some p1) (Some p2) phialpha1 phialpha2 sw = Inl AssertionFailed"
      using st sh mv1(5) mv2(5) spl vf
      by (simp add: update_def Let_def pairing_index_of_def now_in_subsystem_def)
        (auto simp: update_def)
    then show False using u by simp
  qed
  then have se: "species p2 = ?sp" and c: "\<not> ?W ?x" "\<not> ?W ?y" by blast+
  note vf2 = vf(2) [unfolded se]
  note e1 = vector_find_eq [OF vf(1)] and e2 = vector_find_eq [OF vf2]
  have ok: "lists_ok ?W (?C1 ! ?sp) (?C2 ! ?sp) (r_vectors r1 ! ?sp) (r_vectors r2 ! ?sp)"
    and pw: "paired_with (?C1 ! ?sp) (?C2 ! ?sp) (r_vectors r1 ! ?sp) (r_vectors r2 ! ?sp)
               (?Q1 ! ?sp) (?Q2 ! ?sp)"
    using s(6,7) mv1(1) by simp_all
  note o = lists_okD [OF ok]
  have k2': "k2 < length (?C1 ! ?sp)" using e2(1) o(1) by simp
  define c1' where "c1' = (if k1 < k2 then (?C1 ! ?sp)[k1 := ?C1 ! ?sp ! k2, k2 := ?C1 ! ?sp ! k1]
                           else ?C1 ! ?sp)"
  define c2' where "c2' = (if k1 < k2 then ?C2 ! ?sp
                           else (?C2 ! ?sp)[k1 := ?C2 ! ?sp ! k2, k2 := ?C2 ! ?sp ! k1])"
  define m where "m = max k1 k2"
  note rp = repair [OF ok pw e1(1) k2' c1'_def c2'_def refl refl, folded m_def]
  have ma: "c1' ! m = ?a" "c2' ! m = ?b" using rp(3,4) e1(2) e2(2) by simp_all
  define sw1 where "sw1 = sw\<lparr>swapped_state := SW_UPDATE_IN_PROGRESS, recent_delta := - 1,
                             recent_particle1 := p1, recent_particle2 := p2\<rparr>"
  have u1: "update_both_left p1 p2 (int k1) (int k2) False False ?r1' ?r2' sw1 = Inr sw'"
    using u st sh mv1(5) mv2(5) spl vf c se
    by (simp add: update_def Let_def pairing_index_of_def now_in_subsystem_def
        sw1_def [symmetric])
  have f1: "copy1_subsystem_indices sw1 = ?C1" "copy2_subsystem_indices sw1 = ?C2"
    "phibeta1 sw1 = phibeta1 sw" "phibeta2 sw1 = phibeta2 sw"
    "phibeta1_dirty sw1 = phibeta1_dirty sw" "phibeta2_dirty sw1 = phibeta2_dirty sw"
    by (simp_all add: sw1_def)
  note ub = update_both_left_eq [of p1 sw1 "?C1 ! ?sp" "?C2 ! ?sp" k1 k2 c1' c2' m p2 ?r1' ?r2',
      unfolded f1, OF spl(1) spl(2) [unfolded se] refl refl e1(1) k2' o(1) [symmetric] nd
        c1'_def c2'_def m_def, unfolded ma]
  from u1 [unfolded ub] ne obtain b1 b2 b1' b2' where
    s1: "swap_particles (phibeta1 sw) (?C1 ! ?sp ! k1) (?C1 ! ?sp ! k2) ?sp = Inr b1"
    and s2: "swap_particles (phibeta2 sw) (?C2 ! ?sp ! k1) (?C2 ! ?sp ! k2) ?sp = Inr b2"
    and p1: "perform_move b1 [(\<lparr>index = ?a, species = ?sp\<rparr>, ?x)] = Inr b1'"
    and p2: "perform_move b2 [(\<lparr>index = ?b, species = ?sp\<rparr>, ?y)] = Inr b2'"
    and e: "sw' = sw1\<lparr>phibeta1 := b1', phibeta2 := b2',
                       phibeta1_dirty := True, phibeta2_dirty := True,
                       copy1_subsystem_indices := ?C1[?sp := remove_slot m c1'],
                       copy2_subsystem_indices := ?C2[?sp := remove_slot m c2']\<rparr>"
    by (auto simp: and_then_eq_Inr)
  have pe: "\<lparr>index = ?a, species = ?sp\<rparr> = p1" "\<lparr>index = ?b, species = ?sp\<rparr> = p2"
    using se by simp_all
  have f: "phibeta1 sw' = b1'" "phibeta2 sw' = b2'"
    "copy1_subsystem_indices sw' = ?C1[?sp := remove_slot m c1']"
    "copy2_subsystem_indices sw' = ?C2[?sp := remove_slot m c2']"
    by (simp_all add: e sw1_def)
  note p = update_pending [OF inv m1 m2 u]
  from finish_update_ok [OF p, of phialpha1 phialpha2] obtain swf where
    fu: "finish_update phialpha1 phialpha2 sw' = Inr swf"
    and fi: "swapped_invariant subsystem swf ?r1' ?r2'"
    by blast
  have ns': "all_N_sites ?r1' = all_N_sites ?r2'" using nsr mv1(4) mv2(4) by simp
  note v = invariant_verified(2) [OF fi ns' refl refl]
  have sw: "\<exists>b1 b2.
              swap_particles (phibeta1 sw) (?C1 ! ?sp ! k1) (?C1 ! ?sp ! k2) ?sp = Inr b1
              \<and> swap_particles (phibeta2 sw) (?C2 ! ?sp ! k1) (?C2 ! ?sp ! k2) ?sp = Inr b2
              \<and> perform_move b1 [(p1, ?x)] = Inr (phibeta1 sw')
              \<and> perform_move b2 [(p2, ?y)] = Inr (phibeta2 sw')"
    using s1 s2 p1 p2 unfolding pe f by blast
  have fin: "\<exists>swf. finish_update phialpha1 phialpha2 sw' = Inr swf
                  \<and> verify_phibetas subsystem phialpha1 phialpha2 swf = Inr ()"
    using fu v by blast
  have ni: "\<not> now_in_subsystem subsystem ?r1' (Some p1)"
    "\<not> now_in_subsystem subsystem ?r2' (Some p2)"
    using c by (simp_all add: now_in_subsystem_def)
  show ?thesis
    unfolding Let_def c1'_def [symmetric] c2'_def [symmetric] m_def [symmetric]
    using se ni sw ma f(3,4) fin by (intro conjI)
qed

theorem both_left_repairs_pairing_witness:
  "(\<exists>b1 b2.
      swap_particles (phibeta1 example_ready) 0 1 0 = Inr b1
      \<and> swap_particles (phibeta2 example_ready) 0 1 0 = Inr b2
      \<and> perform_move b1 [(\<lparr>index = 0, species = 0\<rparr>, 2)] = Inr (phibeta1 example_pending)
      \<and> perform_move b2 [(\<lparr>index = 1, species = 0\<rparr>, 3)] = Inr (phibeta2 example_pending))
   \<and> copy1_subsystem_indices example_pending = [[1]]
   \<and> copy2_subsystem_indices example_pending = [[0]]
   \<and> (\<exists>swf. finish_update (amplitude_at [[2, 1]]) (amplitude_at [[1, 3]]) example_pending
               = Inr swf
          \<and> verify_phibetas left_half (amplitude_at [[2, 1]]) (amplitude_at [[1, 3]]) swf
               = Inr ())"
proof -
  have ne: "(0::nat) \<noteq> 1" by simp
  note w = both_left_repairs_pairing [OF example_ready_at_rest example_moved example_indices ne
      example_update, unfolded Let_def example_fields remove_slot_def, simplified]
  show ?thesis using w unfolding example_fields One_nat_def by blast
qed

text \<open>
  Claim C3 as stated has the particles exchanged within one of the phibetas. On the chain
  of four sites whose first two sites are the subsystem, with one species of two particles
  on the sites 0 and 1 in copy 1 and on the sites 1 and 0 in copy 2, particle 0 of copy 1
  moves to site 2 and particle 1 of copy 2 moves to site 3. The two particles were paired
  at the slots 0 and 1. \<open>update\<close> changes the positions of both particles in phibeta 1
  and of both particles in phibeta 2: in neither of them is the result that of the one
  move alone.
\<close>

theorem both_phibetas_exchanged_counterexample:
  "initialize left_half (amplitude_at [[0, 1]]) (amplitude_at [[1, 0]])
     (SwappedSystem_of blank_system) = Inr example_ready
   \<and> pairing_index_of (copy1_subsystem_indices example_ready) (Some \<lparr>index = 0, species = 0\<rparr>)
       = Inr 0
   \<and> pairing_index_of (copy2_subsystem_indices example_ready) (Some \<lparr>index = 1, species = 0\<rparr>)
       = Inr 1
   \<and> update left_half (Some \<lparr>index = 0, species = 0\<rparr>) (Some \<lparr>index = 1, species = 0\<rparr>)
       (amplitude_at [[2, 1]]) (amplitude_at [[1, 3]]) example_ready = Inr example_pending
   \<and> r_vectors (get_positions (phibeta1 example_ready)) = [[1, 0]]
   \<and> r_vectors (get_positions (phibeta1 example_pending)) = [[2, 1]]
   \<and> r_vectors (get_positions (phibeta2 example_ready)) = [[0, 1]]
   \<and> r_vectors (get_positions (phibeta2 example_pending)) = [[1, 3]]
   \<and> perform_move (phibeta1 example_ready) [(\<lparr>index = 0, species = 0\<rparr>, 2)]
       \<noteq> Inr (phibeta1 example_pending)
   \<and> perform_move (phibeta2 example_ready) [(\<lparr>index = 1, species = 0\<rparr>, 3)]
       \<noteq> Inr (phibeta2 example_pending)"
proof -
  have a: "r_vectors (get_positions (phibeta1 example_ready)) = [[1, 0]]"
    "r_vectors (get_positions (phibeta1 example_pending)) = [[2, 1]]"
    "r_vectors (get_positions (phibeta2 example_ready)) = [[0, 1]]"
    "r_vectors (get_positions (phibeta2 example_pending)) = [[1, 3]]"
    by (simp_all add: example_ready_def example_pending_def blank_system_def amplitude_at_def
        get_positions_def)
  have b: "perform_move (phibeta1 example_ready) [(\<lparr>index = 0, species = 0\<rparr>, 2)]
             \<noteq> Inr (phibeta1 example_pending)"
    "perform_move (phibeta2 example_ready) [(\<lparr>index = 1, species = 0\<rparr>, 3)]
             \<noteq> Inr (phibeta2 example_pending)"
    by (simp_all add: swapped_eval example_ready_def example_pending_def blank_system_def
        amplitude_at_def eval_nat_numeral All_less_Suc Ex_less_Suc)
  show ?thesis
    using example_initialize example_update example_indices a b by simp
qed

end
